(* ===== verification/Prelude.thy ===== *)
theory Prelude
  imports Main "HOL-Library.Word"
begin

unbundle bit_operations_syntax

text \<open>
  Shared material of the development: the Go types the sources use (bytes, machine
  integers, errors, outcomes of calls that may fail or panic), the two standard-library
  routines of \<^verbatim>\<open>encoding/binary\<close> the codec calls, and the generic lemmas on lists,
  words and xor-masks that the component theories share.
\<close>

section \<open>Types of the Go sources\<close>

type_synonym byte = "8 word"
type_synonym bytes = "byte list"
type_synonym uint16 = "16 word"
type_synonym uint32 = "32 word"
type_synonym uint64 = "64 word"

text \<open>
  Error values.  The sentinel errors of \<^verbatim>\<open>api/errors.go\<close> and of the components are
  constructors; \<open>ErrNew\<close> is \<^verbatim>\<open>errors.New\<close> (or \<^verbatim>\<open>fmt.Errorf\<close> with no
  wrapped error) and \<open>ErrWrap\<close> is \<^verbatim>\<open>fmt.Errorf("...: %w", err)\<close>.
\<close>

datatype goerr =
    ErrTransportClosed
  | ErrBufferPoolClosed
  | ErrInvalidArgument
  | ErrResourceExhausted
  | ErrOperationTimeout
  | ErrNotSupported
  | ErrAlreadyExists
  | ErrNotFound
  | EOF
  | ErrUnexpectedEOF
  | ErrNew string
  | ErrWrap string goerr

text \<open>
  The outcome of a Go call: a value, an error result, or a run-time panic (an index or
  slice expression out of range, a send on a closed channel, \<dots>).
\<close>

datatype 'a outcome = Ok 'a | Err goerr | Panic

primrec bind_outcome :: "'a outcome \<Rightarrow> ('a \<Rightarrow> 'b outcome) \<Rightarrow> 'b outcome" where
  "bind_outcome (Ok a) f = f a"
| "bind_outcome (Err e) f = Err e"
| "bind_outcome Panic f = Panic"

text \<open>A call whose loop may not return: \<open>None\<close> is divergence, which sequencing keeps.\<close>

fun bind_loop :: "'a outcome option \<Rightarrow> ('a \<Rightarrow> 'b outcome option) \<Rightarrow> 'b outcome option" where
  "bind_loop (Some (Ok x)) f = f x"
| "bind_loop (Some (Err e)) f = Some (Err e)"
| "bind_loop (Some Panic) f = Some Panic"
| "bind_loop None f = None"

lemma bind_loop_eq_Ok:
  "bind_loop m f = Some (Ok y) \<longleftrightarrow> (\<exists>x. m = Some (Ok x) \<and> f x = Some (Ok y))"
  by (cases "(m, f)" rule: bind_loop.cases) auto

lemma bind_outcome_eq_Ok:
  "bind_outcome m f = Ok b \<longleftrightarrow> (\<exists>a. m = Ok a \<and> f a = Ok b)"
  by (cases m) auto

lemma bind_outcome_eq_Panic:
  "bind_outcome m f = Panic \<longleftrightarrow> m = Panic \<or> (\<exists>a. m = Ok a \<and> f a = Panic)"
  by (cases m) auto

section \<open>Collections\<close>

named_theorems codec_simps \<open>defining equations of the frame codec\<close>
named_theorems byte_simps \<open>sizes and contents of byte encodings\<close>
named_theorems ring_simps \<open>defining equations of the ring buffers\<close>

section \<open>Lists\<close>

lemma list_eq_nth_0_1: "2 \<le> length xs \<Longrightarrow> xs = xs ! 0 # xs ! 1 # drop 2 xs"
  by (metis Cons_nth_drop_Suc One_nat_def Suc_1 Suc_le_eq Suc_lessD drop0)

lemma take_drop_append_exact:
  "n + m \<le> length xs \<Longrightarrow> take m (drop n (xs @ ys)) = take m (drop n xs)"
  by simp

lemma map2_append_left:
  "length xs \<le> length zs \<Longrightarrow> map2 f xs (zs @ ws) = map2 f xs zs"
  by (simp add: zip_append2)

section \<open>Big-endian integers\<close>

text \<open>
  \<^verbatim>\<open>binary.BigEndian.UintN\<close> and \<^verbatim>\<open>binary.BigEndian.PutUintN\<close> for the width of
  the word type: the first byte is the most significant one.
\<close>

definition be_decode :: "bytes \<Rightarrow> 'a::len word" where
  "be_decode bs = foldl (\<lambda>acc b. push_bit 8 acc OR ucast b) 0 bs"

definition be_encode :: "nat \<Rightarrow> 'a::len word \<Rightarrow> bytes" where
  "be_encode n v = map (\<lambda>i. ucast (drop_bit (8 * i) v)) (rev [0..<n])"

lemma length_be_encode [simp, byte_simps]: "length (be_encode n v) = n"
  by (simp add: be_encode_def)

lemma be_decode_snoc: "be_decode (bs @ [b]) = push_bit 8 (be_decode bs) OR ucast b"
  by (simp add: be_decode_def)

lemma be_encode_Suc:
  "be_encode (Suc n) (v :: 'a::len word) = be_encode n (drop_bit 8 v) @ [ucast v]"
proof -
  have "map (\<lambda>i. ucast (drop_bit (8 * i) v)) (rev [0..<Suc n])
      = map (\<lambda>i. ucast (drop_bit (8 * i) v) :: byte) (map Suc (rev [0..<n]) @ [0])"
    by (simp only: upt_conv_Cons map_Suc_upt [symmetric] rev_map rev.simps zero_less_Suc)
  then show ?thesis
    by (simp add: be_encode_def drop_bit_drop_bit comp_def ac_simps)
qed

lemma push_drop_ucast8:
  fixes v :: "'a::len word"
  shows "push_bit 8 (drop_bit 8 v) OR ucast (ucast v :: byte) = v"
  by (rule bit_word_eqI)
    (auto simp: bit_push_bit_iff bit_drop_bit_eq bit_or_iff bit_ucast_iff not_le
      dest: bit_imp_le_length)

lemma be_decode_encode:
  fixes v :: "'a::len word"
  assumes "drop_bit (8 * n) v = 0"
  shows "be_decode (be_encode n v) = v"
  using assms
proof (induction n arbitrary: v)
  case 0
  then show ?case by (simp add: be_encode_def be_decode_def)
next
  case (Suc n)
  have "drop_bit (8 * n) (drop_bit 8 v) = 0"
    using Suc.prems by (simp add: drop_bit_drop_bit ac_simps)
  then have "be_decode (be_encode n (drop_bit 8 v)) = drop_bit 8 v"
    by (rule Suc.IH)
  then show ?case
    by (simp add: be_encode_Suc be_decode_snoc push_drop_ucast8)
qed

lemma be_decode_encode_16: "be_decode (be_encode 2 (v :: uint16)) = v"
  by (rule be_decode_encode) (rule bit_word_eqI, simp add: bit_drop_bit_eq)

lemma be_decode_encode_64: "be_decode (be_encode 8 (v :: uint64)) = v"
  by (rule be_decode_encode) (rule bit_word_eqI, simp add: bit_drop_bit_eq)

section \<open>Xor masks\<close>

text \<open>
  The loop \<^verbatim>\<open>buf[i] ^= key[i%4]\<close> of the masking routines, over a key of four bytes.
\<close>

definition xor_mask :: "bytes \<Rightarrow> bytes \<Rightarrow> bytes" where
  "xor_mask key buf = map (\<lambda>i. buf ! i XOR key ! (i mod 4)) [0..<length buf]"

lemma length_xor_mask [simp, byte_simps]: "length (xor_mask key buf) = length buf"
  by (simp add: xor_mask_def)

lemma nth_xor_mask [byte_simps]:
  "i < length buf \<Longrightarrow> xor_mask key buf ! i = buf ! i XOR key ! (i mod 4)"
  by (simp add: xor_mask_def)

lemma xor_mask_involutive [simp]: "xor_mask key (xor_mask key buf) = buf"
  by (rule nth_equalityI) (simp_all add: nth_xor_mask xor.assoc)

lemma xor_mask_zero: "xor_mask [0, 0, 0, 0] buf = buf"
proof (rule nth_equalityI)
  fix i assume "i < length (xor_mask [0, 0, 0, 0] buf)"
  moreover have "[0, 0, 0, 0 :: byte] ! (i mod 4) = 0"
    using mod_less_divisor [of 4 i] by (auto simp: nth_Cons' )
  ultimately show "xor_mask [0, 0, 0, 0] buf ! i = buf ! i"
    by (simp add: nth_xor_mask)
qed simp

lemma xor_mask_Nil [simp]: "xor_mask key [] = []"
  by (simp add: xor_mask_def)

end
