(* ===== verification/Frame.thy ===== *)
theory Frame
  imports Prelude
begin

unbundle bit_operations_syntax

text \<open>
  The WebSocket frame codec: \<^verbatim>\<open>protocol/constants.go\<close>, \<^verbatim>\<open>protocol/frame.go\<close> and
  \<^verbatim>\<open>protocol/frame_codec.go\<close>.  A frame's payload is the byte string its slice shows;
  routines that write through a slice they were given (\<open>unmaskInPlace\<close>,
  \<open>EncodeFrame\<close>, the in-place unmasking of \<open>DecodeFrameFromBytes\<close>) return the
  written bytes as well.  Go's \<^verbatim>\<open>int\<close> and \<^verbatim>\<open>int64\<close> values are integers; the one
  conversion that can change a value, \<^verbatim>\<open>int64(uint64)\<close>, is \<^const>\<open>sint\<close>.
\<close>

section \<open>Constants\<close>

definition OpcodeContinuation :: byte where "OpcodeContinuation = 0x0"
definition OpcodeText :: byte where "OpcodeText = 0x1"
definition OpcodeBinary :: byte where "OpcodeBinary = 0x2"
definition OpcodeClose :: byte where "OpcodeClose = 0x8"
definition OpcodePing :: byte where "OpcodePing = 0x9"
definition OpcodePong :: byte where "OpcodePong = 0xA"

definition FinBit :: byte where "FinBit = 0x80"
definition MaskBit :: byte where "MaskBit = 0x80"

definition MaxFramePayload :: int where "MaxFramePayload = 2 ^ 20"

lemmas opcode_defs = OpcodeContinuation_def OpcodeText_def OpcodeBinary_def
  OpcodeClose_def OpcodePing_def OpcodePong_def

section \<open>Frames\<close>

record WSFrame =
  IsFinal :: bool
  Opcode :: byte
  Masked :: bool
  PayloadLen :: int
  MaskKey :: bytes
  Payload :: bytes

definition unmaskInPlace :: "bytes \<Rightarrow> bytes \<Rightarrow> bytes" where
  "unmaskInPlace buf key = xor_mask key buf"

section \<open>Stream codec: DecodeFrame and EncodeFrame\<close>

text \<open>
  An \<^verbatim>\<open>io.Reader\<close> is the byte string still to be read.  \<^verbatim>\<open>io.ReadFull\<close> fails with
  \<^verbatim>\<open>EOF\<close> when nothing could be read and with \<^verbatim>\<open>ErrUnexpectedEOF\<close> on a partial
  read.
\<close>

definition readFull :: "nat \<Rightarrow> bytes \<Rightarrow> (bytes \<times> bytes) outcome" where
  "readFull n r =
     (if n \<le> length r then Ok (take n r, drop n r)
      else if r = [] then Err EOF
      else Err ErrUnexpectedEOF)"

text \<open>
  \<open>decode_ext_stream\<close> is the \<^verbatim>\<open>switch payloadLen\<close> of \<open>DecodeFrame\<close>.
\<close>

definition decode_ext_stream :: "int \<Rightarrow> bytes \<Rightarrow> (int \<times> bytes) outcome" where
  "decode_ext_stream plen r =
     (if plen = 126 then
        bind_outcome (readFull 2 r) (\<lambda>(ext, r'). Ok (uint (be_decode ext :: uint16), r'))
      else if plen = 127 then
        bind_outcome (readFull 8 r) (\<lambda>(ext, r'). Ok (sint (be_decode ext :: uint64), r'))
      else Ok (plen, r))"

text \<open>
  \<^verbatim>\<open>make([]byte, payloadLen)\<close> panics on a negative length and on one beyond what the
  run-time can allocate; the latter bound is the parameter \<open>alloc_max\<close>.
\<close>

definition DecodeFrame :: "int \<Rightarrow> bytes \<Rightarrow> (WSFrame \<times> bytes) outcome" where
  "DecodeFrame alloc_max r =
     bind_outcome (readFull 2 r) (\<lambda>(hdr, r1).
       let isFin = (hdr ! 0 AND FinBit \<noteq> 0);
           opcode = hdr ! 0 AND 0x0F;
           isMasked = (hdr ! 1 AND MaskBit \<noteq> 0);
           plen0 = uint (hdr ! 1 AND 0x7F)
       in bind_outcome (decode_ext_stream plen0 r1) (\<lambda>(payloadLen, r2).
            bind_outcome (if isMasked then readFull 4 r2 else Ok ([0, 0, 0, 0], r2))
              (\<lambda>(maskKey, r3).
                 if payloadLen < 0 \<or> alloc_max < payloadLen then Panic
                 else bind_outcome (readFull (nat payloadLen) r3) (\<lambda>(payload, r4).
                   Ok (\<lparr>IsFinal = isFin, Opcode = opcode, Masked = isMasked,
                        PayloadLen = payloadLen, MaskKey = maskKey,
                        Payload = (if isMasked then unmaskInPlace payload maskKey else payload)\<rparr>,
                      r4)))))"

text \<open>
  Writing through a destination slice.  \<open>put_at\<close> is an indexed store of consecutive
  bytes, which panics past the end (also for \<^verbatim>\<open>PutUint16\<close> and \<^verbatim>\<open>PutUint64\<close>);
  \<open>copy_at\<close> is \<^verbatim>\<open>copy(dst[off:], src)\<close>, which copies what fits and panics only if
  \<open>off\<close> is beyond the slice.
\<close>

definition put_at :: "nat \<Rightarrow> bytes \<Rightarrow> bytes \<Rightarrow> bytes outcome" where
  "put_at off src dst =
     (if off + length src \<le> length dst
      then Ok (take off dst @ src @ drop (off + length src) dst)
      else Panic)"

definition copy_at :: "nat \<Rightarrow> bytes \<Rightarrow> bytes \<Rightarrow> bytes outcome" where
  "copy_at off src dst =
     (if off \<le> length dst
      then Ok (take off dst @ take (length dst - off) src @ drop (off + length src) dst)
      else Panic)"

text \<open>The \<^verbatim>\<open>switch\<close> on the payload length: the bytes after the opcode byte.\<close>

definition encode_len :: "byte \<Rightarrow> nat \<Rightarrow> bytes" where
  "encode_len maskBit payloadLen =
     (if payloadLen \<le> 125 then [of_nat payloadLen OR maskBit]
      else if payloadLen \<le> 0xFFFF then
        (126 OR maskBit) # be_encode 2 (of_nat payloadLen :: uint16)
      else (127 OR maskBit) # be_encode 8 (of_nat payloadLen :: uint64))"

definition EncodeFrame_key :: bytes where
  "EncodeFrame_key = [0xDE, 0xAD, 0xBE, 0xEF]"

text \<open>
  \<open>EncodeFrame dst opcode payload msk\<close>: the count returned, the destination afterwards
  and the caller's payload afterwards, which masking overwrites.  The guard
  \<^verbatim>\<open>len(payload) > int(^uint64(0)>>1)\<close> compares with the largest \<^verbatim>\<open>int\<close>.
\<close>

definition EncodeFrame ::
  "bytes \<Rightarrow> byte \<Rightarrow> bytes \<Rightarrow> bool \<Rightarrow> (nat \<times> bytes \<times> bytes) outcome" where
  "EncodeFrame dst opcode payload msk =
     (if int (length payload) > 2 ^ 63 - 1 then Err (ErrNew ''payload too large'')
      else bind_outcome (put_at 0 [FinBit OR opcode] dst) (\<lambda>dst1.
        let maskBit = (if msk then MaskBit else 0);
            lenb = encode_len maskBit (length payload)
        in bind_outcome (put_at 1 lenb dst1) (\<lambda>dst2.
             let offset = 1 + length lenb
             in if msk then
                  bind_outcome (copy_at offset EncodeFrame_key dst2) (\<lambda>dst3.
                    let payload' = unmaskInPlace payload EncodeFrame_key
                    in bind_outcome (copy_at (offset + 4) payload' dst3) (\<lambda>dst4.
                         Ok (offset + 4 + length payload, dst4, payload')))
                else
                  bind_outcome (copy_at offset payload dst2) (\<lambda>dst3.
                    Ok (offset + length payload, dst3, payload)))))"

section \<open>Buffer codec: DecodeFrameFromBytes\<close>

text \<open>
  The results of \<open>DecodeFrameFromBytes\<close>: \<^verbatim>\<open>(nil, 0, nil)\<close>, a frame with the number
  of bytes consumed, an error, or a panic.
\<close>

datatype decoded =
    Incomplete
  | Decoded WSFrame nat
  | DecodeErr goerr
  | DecodePanic

definition errFrameTooLarge :: goerr where
  "errFrameTooLarge = ErrNew ''frame payload exceeds maximum allowed size''"

text \<open>The \<^verbatim>\<open>switch length\<close>: \<^const>\<open>None\<close> is the incomplete case.\<close>

definition decode_ext_len :: "bytes \<Rightarrow> int \<Rightarrow> (int \<times> nat) option" where
  "decode_ext_len raw len =
     (if len = 126 then
        if length raw < 2 + 2 then None
        else Some (uint (be_decode (take 2 (drop 2 raw)) :: uint16), 4)
      else if len = 127 then
        if length raw < 2 + 8 then None
        else Some (sint (be_decode (take 8 (drop 2 raw)) :: uint64), 10)
      else Some (len, 2))"

text \<open>
  The second component is the caller's buffer afterwards: a masked payload is unmasked in
  place.  The slice expression \<^verbatim>\<open>raw[offset:totalLen]\<close> panics when \<^verbatim>\<open>totalLen\<close> lies
  before \<^verbatim>\<open>offset\<close>.
\<close>

definition DecodeFrameFromBytes :: "bytes \<Rightarrow> decoded \<times> bytes" where
  "DecodeFrameFromBytes raw =
     (if length raw < 2 then (Incomplete, raw)
      else
        let fin = (raw ! 0 AND 0x80 \<noteq> 0);
            opcode = raw ! 0 AND 0x0F;
            masked = (raw ! 1 AND 0x80 \<noteq> 0)
        in case decode_ext_len raw (uint (raw ! 1 AND 0x7F)) of
             None \<Rightarrow> (Incomplete, raw)
           | Some (len, off0) \<Rightarrow>
               if len > MaxFramePayload then (DecodeErr errFrameTooLarge, raw)
               else if masked \<and> length raw < off0 + 4 then (Incomplete, raw)
               else
                 let maskKey = (if masked then take 4 (drop off0 raw) else [0, 0, 0, 0]);
                     offset = (if masked then off0 + 4 else off0);
                     totalLen = int offset + len
                 in if int (length raw) < totalLen then (Incomplete, raw)
                    else if totalLen < int offset then (DecodePanic, raw)
                    else
                      let payloadData = take (nat len) (drop offset raw);
                          payload = (if masked then xor_mask maskKey payloadData
                                     else payloadData)
                      in (Decoded \<lparr>IsFinal = fin, Opcode = opcode, Masked = masked,
                             PayloadLen = len, MaskKey = maskKey, Payload = payload\<rparr>
                            (nat totalLen),
                          take offset raw @ payload @ drop (nat totalLen) raw))"

section \<open>Buffer codec: EncodeFrameToBytes\<close>

definition encode_mask_key :: bytes where
  "encode_mask_key = [0x12, 0x34, 0x56, 0x78]"

text \<open>The header built by the \<^verbatim>\<open>switch\<close> on \<^verbatim>\<open>plen\<close>.\<close>

definition encode_header :: "byte \<Rightarrow> int \<Rightarrow> bool \<Rightarrow> bytes" where
  "encode_header b0 plen msk =
     (if plen \<le> 125 then
        [b0, if msk then word_of_int plen OR 0x80 else word_of_int plen]
      else if plen \<le> 0xFFFF then
        [b0, if msk then 126 OR 0x80 else 126] @ be_encode 2 (word_of_int plen :: uint16)
      else
        [b0, if msk then 127 OR 0x80 else 127] @ be_encode 8 (word_of_int plen :: uint64))"

text \<open>
  \<open>EncodeFrameToBufferWithMask\<close> reuses the capacity of \<^verbatim>\<open>dst\<close> only (\<^verbatim>\<open>dst[:0]\<close>), so
  the bytes returned do not depend on it.  The masking loop runs to \<^verbatim>\<open>plen\<close>, the
  declared length: it indexes past the appended payload when that is shorter, and masks
  a prefix when it is longer.
\<close>

definition EncodeFrameToBufferWithMask ::
  "WSFrame \<Rightarrow> bool \<Rightarrow> bytes \<Rightarrow> bytes outcome" where
  "EncodeFrameToBufferWithMask f msk dst =
     (if PayloadLen f > MaxFramePayload then Err errFrameTooLarge
      else
        let b0 = (if IsFinal f then 0x80 else 0) OR (Opcode f AND 0x0F);
            plen = PayloadLen f;
            header = encode_header b0 plen msk
        in if msk then
             (if plen > int (length (Payload f)) then Panic
              else Ok (header @ encode_mask_key
                       @ xor_mask encode_mask_key (take (nat plen) (Payload f))
                       @ drop (nat plen) (Payload f)))
           else Ok (header @ Payload f))"

definition EncodeFrameToBytesWithMask :: "WSFrame \<Rightarrow> bool \<Rightarrow> bytes outcome" where
  "EncodeFrameToBytesWithMask f msk = EncodeFrameToBufferWithMask f msk []"

definition EncodeFrameToBytes :: "WSFrame \<Rightarrow> bytes outcome" where
  "EncodeFrameToBytes f = EncodeFrameToBytesWithMask f (Masked f)"

section \<open>Specification\<close>

text \<open>
  A frame the library itself builds: the declared length is the payload's length and
  within the limit.
\<close>

definition wf_frame :: "WSFrame \<Rightarrow> bool" where
  "wf_frame f \<longleftrightarrow> PayloadLen f = int (length (Payload f)) \<and> PayloadLen f \<le> MaxFramePayload"

text \<open>The frame as the peer decodes it: four opcode bits, the mask flag and key of the wire.\<close>

definition on_wire :: "WSFrame \<Rightarrow> bool \<Rightarrow> WSFrame" where
  "on_wire f m = f\<lparr>Opcode := Opcode f AND 0x0F, Masked := m,
     MaskKey := (if m then encode_mask_key else [0, 0, 0, 0])\<rparr>"

definition first_byte :: "WSFrame \<Rightarrow> byte" where
  "first_byte f = (if IsFinal f then 0x80 else 0) OR (Opcode f AND 0x0F)"

definition len_byte :: "int \<Rightarrow> bool \<Rightarrow> byte" where
  "len_byte p m = (if m then word_of_int p OR 0x80 else word_of_int p)"

text \<open>
  A complete header that announces a 64-bit length with the top bit set: \<^verbatim>\<open>int64\<close>
  reads it as a negative number.
\<close>

definition negative_length :: "bytes \<Rightarrow> bool" where
  "negative_length raw \<longleftrightarrow>
     2 \<le> length raw \<and> raw ! 1 AND 0x7F = 127 \<and>
     (if raw ! 1 AND 0x80 \<noteq> 0 then 14 else 10) \<le> length raw \<and>
     sint (be_decode (take 8 (drop 2 raw)) :: uint64) < 0"

text \<open>The bytes \<open>EncodeFrame\<close> writes.\<close>

definition wire_frame :: "byte \<Rightarrow> bytes \<Rightarrow> bool \<Rightarrow> bytes" where
  "wire_frame opcode payload m =
     encode_header (FinBit OR opcode) (int (length payload)) m
     @ (if m then EncodeFrame_key else [])
     @ (if m then xor_mask EncodeFrame_key payload else payload)"

section \<open>Lemmas on decoding\<close>

lemma decode_ext_len_append:
  "decode_ext_len raw l = Some r \<Longrightarrow> decode_ext_len (raw @ rest) l = Some r"
  by (auto simp: decode_ext_len_def split: if_splits)

lemma decode_ext_len_bounds:
  assumes "decode_ext_len raw l = Some (len, off)" "2 \<le> length raw"
  shows "2 \<le> off" "off \<le> length raw" "off \<le> 10"
  using assms by (auto simp: decode_ext_len_def split: if_splits)

lemma DecodeFrameFromBytes_short: "length raw < 2 \<Longrightarrow> DecodeFrameFromBytes raw = (Incomplete, raw)"
  by (simp add: DecodeFrameFromBytes_def)

lemma DecodeFrameFromBytes_append:
  assumes "fst (DecodeFrameFromBytes raw) \<noteq> Incomplete"
  shows "DecodeFrameFromBytes (raw @ rest) =
    (fst (DecodeFrameFromBytes raw), snd (DecodeFrameFromBytes raw) @ rest)"
proof -
  from assms have two: "\<not> length raw < 2"
    by (auto simp: DecodeFrameFromBytes_short)
  then have nth: "(raw @ rest) ! 0 = raw ! 0" "(raw @ rest) ! Suc 0 = raw ! Suc 0"
    by (auto simp: nth_append)
  show ?thesis
  proof (cases "decode_ext_len raw (uint (raw ! 1 AND 0x7F))")
    case None
    with assms two show ?thesis by (simp add: DecodeFrameFromBytes_def Let_def)
  next
    case (Some r)
    obtain len off where r: "r = (len, off)" by (cases r)
    note ext = Some [unfolded r] decode_ext_len_append [OF Some [unfolded r], of rest]
    from decode_ext_len_bounds [OF ext(1)] two have "off \<le> length raw" by simp
    with assms two ext nth show ?thesis
      by (auto simp: DecodeFrameFromBytes_def Let_def split: if_splits)
  qed
qed

lemma Decoded_bounds:
  assumes "DecodeFrameFromBytes raw = (Decoded f n, raw')"
  shows "2 \<le> n" "n \<le> length raw" "length raw' = length raw" "drop n raw' = drop n raw"
    "PayloadLen f = int (length (Payload f))" "PayloadLen f \<le> MaxFramePayload"
    "length (MaskKey f) = 4"
proof -
  from assms have two: "\<not> length raw < 2"
    by (auto simp: DecodeFrameFromBytes_short)
  from assms obtain len off where ext: "decode_ext_len raw (uint (raw ! 1 AND 0x7F)) = Some (len, off)"
    by (auto simp: DecodeFrameFromBytes_def Let_def split: if_splits option.splits)
  note off = decode_ext_len_bounds [OF ext] 
  from assms two ext off show "2 \<le> n" "n \<le> length raw" "length raw' = length raw" "drop n raw' = drop n raw"
    "PayloadLen f = int (length (Payload f))" "PayloadLen f \<le> MaxFramePayload"
    "length (MaskKey f) = 4"
    by (auto simp: DecodeFrameFromBytes_def Let_def split: if_splits)
qed

lemma DecodeFrameFromBytes_prefix:
  assumes "fst (DecodeFrameFromBytes (raw @ rest)) = Decoded f n" and "length raw < n"
  shows "DecodeFrameFromBytes raw = (Incomplete, raw)"
proof -
  have "fst (DecodeFrameFromBytes raw) = Incomplete"
  proof (rule ccontr)
    assume "fst (DecodeFrameFromBytes raw) \<noteq> Incomplete"
    with assms(1) have "fst (DecodeFrameFromBytes raw) = Decoded f n"
      by (simp add: DecodeFrameFromBytes_append)
    then have "n \<le> length raw"
      using Decoded_bounds(2) [of raw f n] by (metis prod.collapse)
    with assms(2) show False by simp
  qed
  moreover have "fst (DecodeFrameFromBytes raw) = Incomplete \<Longrightarrow> snd (DecodeFrameFromBytes raw) = raw"
    by (auto simp: DecodeFrameFromBytes_def Let_def split: option.splits)
  ultimately show ?thesis by (simp add: prod_eq_iff)
qed

lemma Incomplete_needs_more:
  assumes "fst (DecodeFrameFromBytes raw) = Incomplete"
    and "fst (DecodeFrameFromBytes (raw @ rest)) = Decoded f n"
  shows "length raw < n"
proof (cases "length raw < 2")
  case True
  then show ?thesis
    using Decoded_bounds(1) [of "raw @ rest" f n] assms(2) by (metis prod.collapse less_le_trans)
next
  case False
  then have nth: "(raw @ rest) ! 0 = raw ! 0" "(raw @ rest) ! Suc 0 = raw ! Suc 0"
    by (auto simp: nth_append)
  let ?l = "uint (raw ! Suc 0 AND 0x7F)"
  obtain len off where ext: "decode_ext_len (raw @ rest) ?l = Some (len, off)"
    using assms(2) nth
    by (auto simp: DecodeFrameFromBytes_def Let_def split: if_splits option.splits)
  show ?thesis
  proof (cases "decode_ext_len raw ?l")
    case None
    then have "length raw < off"
      using ext by (auto simp: decode_ext_len_def split: if_splits)
    then show ?thesis
      using assms(2) ext nth by (auto simp: DecodeFrameFromBytes_def Let_def split: if_splits)
  next
    case (Some r)
    from decode_ext_len_append [OF this, of rest] ext have "r = (len, off)" by simp
    with Some have "decode_ext_len raw ?l = Some (len, off)" by simp
    then show ?thesis
      using assms ext nth False
      by (auto simp: DecodeFrameFromBytes_def Let_def split: if_splits)
  qed
qed

lemma DecodeFrameFromBytes_suffix:
  assumes "fst (DecodeFrameFromBytes (raw @ rest)) = Decoded f n" and "\<not> length raw < n"
  shows "fst (DecodeFrameFromBytes raw) = Decoded f n"
  using assms Incomplete_needs_more [OF _ assms(1)] DecodeFrameFromBytes_append [of raw rest]
  by (metis fst_conv)

lemma uint_byte_numeral: "uint (w :: byte) = 127 \<longleftrightarrow> w = 127" "uint (w :: byte) = 126 \<longleftrightarrow> w = 126"
  by (auto simp: word_uint_eq_iff)

lemma decode_ext_len_nonneg:
  "decode_ext_len raw (uint (b :: byte)) = Some (len, off) \<Longrightarrow> b \<noteq> 127 \<Longrightarrow> 0 \<le> len"
  by (auto simp: decode_ext_len_def uint_byte_numeral split: if_splits)

lemma DecodePanic_iff: "fst (DecodeFrameFromBytes raw) = DecodePanic \<longleftrightarrow> negative_length raw"
proof (cases "2 \<le> length raw \<and> raw ! 1 AND 0x7F = 127")
  case True
  then show ?thesis
    by (auto simp: DecodeFrameFromBytes_def Let_def negative_length_def decode_ext_len_def MaxFramePayload_def)
next
  case False
  have "fst (DecodeFrameFromBytes raw) \<noteq> DecodePanic"
  proof (cases "decode_ext_len raw (uint (raw ! 1 AND 0x7F))")
    case None
    then show ?thesis by (simp add: DecodeFrameFromBytes_def Let_def)
  next
    case (Some r)
    obtain len off where r: "r = (len, off)" by (cases r)
    show ?thesis
    proof (cases "length raw < 2")
      case True then show ?thesis by (simp add: DecodeFrameFromBytes_def)
    next
      case False': False
      with False have "0 \<le> len" using decode_ext_len_nonneg [OF Some [unfolded r]] by simp
      with Some r show ?thesis by (simp add: DecodeFrameFromBytes_def Let_def)
    qed
  qed
  with False show ?thesis by (auto simp: negative_length_def)
qed

lemma readFull_Ok: "n \<le> length r \<Longrightarrow> readFull n r = Ok (take n r, drop n r)"
  by (simp add: readFull_def)

lemma DecodeFrame_agrees:
  assumes "DecodeFrameFromBytes raw = (Decoded f n, raw')" and "PayloadLen f \<le> alloc_max"
  shows "DecodeFrame alloc_max raw = Ok (f, drop n raw)"
proof -
  from assms have two: "2 \<le> length raw"
    by (auto simp: DecodeFrameFromBytes_def split: if_splits)
  from assms obtain len off where ext: "decode_ext_len raw (uint (raw ! 1 AND 0x7F)) = Some (len, off)"
    by (auto simp: DecodeFrameFromBytes_def Let_def split: if_splits option.splits)
  note off = decode_ext_len_bounds [OF ext two]
  have stream: "decode_ext_stream (uint (raw ! 1 AND 0x7F)) (drop 2 raw) = Ok (len, drop off raw)"
    using ext two by (auto simp: decode_ext_len_def decode_ext_stream_def readFull_def split: if_splits)
  have hdr: "take 2 raw ! 0 = raw ! 0" "take 2 raw ! Suc 0 = raw ! Suc 0"
    using two by simp_all
  from assms two ext off stream hdr show ?thesis
    by (auto simp: DecodeFrameFromBytes_def DecodeFrame_def Let_def readFull_Ok FinBit_def MaskBit_def unmaskInPlace_def ac_simps
        intro!: arg_cong [where f = "\<lambda>k. drop k raw"] split: if_splits)
qed

lemma byte_and_127: "(w :: byte) AND 127 = take_bit 7 w"
  by (simp add: take_bit_eq_mask mask_eq_decr_exp)

lemma byte_and_15: "(w :: byte) AND 15 = take_bit 4 w"
  by (simp add: take_bit_eq_mask mask_eq_decr_exp)

lemma byte_and_128: "(w :: byte) AND 128 = 0 \<longleftrightarrow> \<not> bit w 7"
  using and_exp_eq_0_iff_not_bit [of w 7] by simp

lemma bit_128: "bit (128 :: int) n \<longleftrightarrow> n = 7"
  using bit_exp_iff [where 'a = int and m = 7 and n = n] by auto

lemma take_bit_or_128: "take_bit 7 ((w :: byte) OR 128) = take_bit 7 w"
  by (rule bit_word_eqI) (auto simp: bit_take_bit_iff bit_or_iff bit_128)

lemma uint_small_byte: "0 \<le> p \<Longrightarrow> p < 256 \<Longrightarrow> uint (word_of_int p :: byte) = p"
  by (simp add: uint_word_of_int_eq take_bit_int_eq_self)

lemma len_byte_masked [simp]:
  assumes "0 \<le> p" "p < 128"
  shows "len_byte p m AND 128 = 0 \<longleftrightarrow> \<not> m"
proof -
  have "\<not> bit p 7"
    using assms by (simp add: bit_iff_odd)
  then have "\<not> bit (word_of_int p :: 8 word) 7"
    by (simp add: bit_word_of_int_iff)
  then show ?thesis
    by (simp add: len_byte_def byte_and_128 bit_or_iff bit_128)
qed

lemma len_byte_length [simp]:
  assumes "0 \<le> p" "p < 128"
  shows "uint (len_byte p m AND 127) = p"
proof -
  have "uint (take_bit 7 (word_of_int p :: 8 word)) = p"
    using assms by (simp add: unsigned_take_bit_eq uint_small_byte take_bit_int_eq_self)
  then show ?thesis
    by (simp add: len_byte_def byte_and_127 take_bit_or_128)
qed

lemma encode_header_eq:
  "encode_header b0 plen m =
     (if plen \<le> 125 then [b0, len_byte plen m]
      else if plen \<le> 0xFFFF then [b0, len_byte 126 m] @ be_encode 2 (word_of_int plen :: uint16)
      else [b0, len_byte 127 m] @ be_encode 8 (word_of_int plen :: uint64))"
  by (simp add: encode_header_def len_byte_def)

lemma encode_header_nth:
  assumes "0 \<le> plen"
  shows "2 \<le> length (encode_header b0 plen m)" "encode_header b0 plen m ! 0 = b0"
   "encode_header b0 plen m ! Suc 0 AND 128 = 0 \<longleftrightarrow> \<not> m"
  using assms by (simp_all add: encode_header_eq)

lemma decode_ext_len_header:
  assumes "0 \<le> plen" "plen < 2 ^ 63"
  shows "decode_ext_len (encode_header b0 plen m @ rest) (uint (encode_header b0 plen m ! Suc 0 AND 127))
    = Some (plen, length (encode_header b0 plen m))"
proof -
  have u16: "plen \<le> 65535 \<Longrightarrow> uint (word_of_int plen :: uint16) = plen"
    using assms by (simp add: uint_word_of_int_eq take_bit_int_eq_self)
  have s64: "sint (word_of_int plen :: uint64) = plen"
    using assms by (simp add: signed_of_int signed_take_bit_int_eq_self)
  show ?thesis
    using assms(1) by (simp add: encode_header_eq decode_ext_len_def be_decode_encode_16 be_decode_encode_64 u16 s64)
qed

lemma first_byte_fields:
  "first_byte f AND 128 \<noteq> 0 \<longleftrightarrow> IsFinal f" "first_byte f AND 15 = Opcode f AND 15"
proof -
  have "\<not> bit (15 :: byte) 7" by simp
  then show "first_byte f AND 128 \<noteq> 0 \<longleftrightarrow> IsFinal f"
    by (simp add: first_byte_def byte_and_128 bit_or_iff bit_and_iff bit_128)
  show "first_byte f AND 15 = Opcode f AND 15"
    unfolding byte_and_15 first_byte_def
    by (rule bit_word_eqI) (auto simp: bit_take_bit_iff bit_or_iff bit_128)
qed

lemma EncodeFrameToBufferWithMask_wf:
  assumes "wf_frame f"
  shows "EncodeFrameToBufferWithMask f m dst =
    Ok (encode_header (first_byte f) (PayloadLen f) m
        @ (if m then encode_mask_key @ xor_mask encode_mask_key (Payload f) else Payload f))"
  using assms by (simp add: EncodeFrameToBufferWithMask_def wf_frame_def Let_def first_byte_def)

lemma length_encode_mask_key [simp]: "length encode_mask_key = 4"
  by (simp add: encode_mask_key_def)


lemma DecodeFrameFromBytes_parts:
  assumes "2 \<le> length h" and "length k = (if m then 4 else 0)"
    and "h ! Suc 0 AND 128 = 0 \<longleftrightarrow> \<not> m"
    and "decode_ext_len (h @ k @ p @ rest) (uint (h ! Suc 0 AND 127)) = Some (int (length p), length h)"
    and "int (length p) \<le> MaxFramePayload"
  shows "DecodeFrameFromBytes (h @ k @ p @ rest) =
    (Decoded \<lparr>IsFinal = (h ! 0 AND 128 \<noteq> 0), Opcode = h ! 0 AND 15, Masked = m,
        PayloadLen = int (length p), MaskKey = (if m then k else [0, 0, 0, 0]),
        Payload = (if m then xor_mask k p else p)\<rparr> (length (h @ k @ p)),
     h @ k @ (if m then xor_mask k p else p) @ rest)"
proof -
  have at: "(h @ ys) ! 0 = h ! 0" "(h @ ys) ! Suc 0 = h ! Suc 0" for ys
    using assms(1) by (auto simp: nth_append)
  have tot: "nat (int (length h) + 4 + int (length p)) = length h + 4 + length p"
    "nat (int (length h) + int (length p)) = length h + length p"
    by simp_all
  show ?thesis
    using assms by (cases m) (simp_all add: DecodeFrameFromBytes_def Let_def at tot)
qed

lemma Decode_of_Encode:
  assumes "wf_frame f" and "EncodeFrameToBufferWithMask f m dst = Ok enc"
  shows "fst (DecodeFrameFromBytes (enc @ rest)) = Decoded (on_wire f m) (length enc)"
proof -
  let ?h = "encode_header (first_byte f) (PayloadLen f) m"
  let ?k = "if m then encode_mask_key else []"
  let ?p = "if m then xor_mask encode_mask_key (Payload f) else Payload f"
  have plen: "0 \<le> PayloadLen f" "PayloadLen f < 2 ^ 63" "int (length ?p) \<le> MaxFramePayload"
    "PayloadLen f = int (length ?p)"
    using assms(1) by (auto simp: wf_frame_def MaxFramePayload_def)
  note nth = encode_header_nth [OF plen(1), of "first_byte f" m]
  have enc: "enc @ rest = ?h @ ?k @ ?p @ rest" "length enc = length (?h @ ?k @ ?p)"
    using assms by (auto simp: EncodeFrameToBufferWithMask_wf)
  have "DecodeFrameFromBytes (?h @ ?k @ ?p @ rest) =
    (Decoded \<lparr>IsFinal = (?h ! 0 AND 128 \<noteq> 0), Opcode = ?h ! 0 AND 15, Masked = m,
        PayloadLen = int (length ?p), MaskKey = (if m then ?k else [0, 0, 0, 0]),
        Payload = (if m then xor_mask ?k ?p else ?p)\<rparr> (length (?h @ ?k @ ?p)),
     ?h @ ?k @ (if m then xor_mask ?k ?p else ?p) @ rest)"
    by (rule DecodeFrameFromBytes_parts [OF nth(1) _ nth(3) _ plen(3)])
       (use decode_ext_len_header [OF plen(1,2)] plen(4) in simp_all)
  then show ?thesis
    unfolding enc nth first_byte_fields on_wire_def using plen(4) by simp
qed

lemma decode_ext_stream_eq:
  assumes "decode_ext_len raw l = Some (len, off)" and "2 \<le> length raw"
  shows "decode_ext_stream l (drop 2 raw) = Ok (len, drop off raw)"
  using assms by (auto simp: decode_ext_len_def decode_ext_stream_def readFull_def split: if_splits)

lemma DecodeFrame_parts:
  assumes "2 \<le> length h" and "length k = (if m then 4 else 0)"
    and "h ! Suc 0 AND 128 = 0 \<longleftrightarrow> \<not> m"
    and "decode_ext_len (h @ k @ p @ rest) (uint (h ! Suc 0 AND 127)) = Some (int (length p), length h)"
    and "int (length p) \<le> alloc_max"
  shows "DecodeFrame alloc_max (h @ k @ p @ rest) =
    Ok (\<lparr>IsFinal = (h ! 0 AND 128 \<noteq> 0), Opcode = h ! 0 AND 15, Masked = m,
        PayloadLen = int (length p), MaskKey = (if m then k else [0, 0, 0, 0]),
        Payload = (if m then xor_mask k p else p)\<rparr>, rest)"
proof -
  have at: "take 2 (h @ ys) ! 0 = h ! 0" "take 2 (h @ ys) ! Suc 0 = h ! Suc 0" for ys
    using assms(1) by (auto simp: nth_append)
  have st: "decode_ext_stream (uint (h ! Suc 0 AND 127)) (drop 2 (h @ k @ p @ rest)) = Ok (int (length p), k @ p @ rest)"
    using decode_ext_stream_eq [OF assms(4)] assms(1) by simp
  have rf: "readFull 2 (h @ k @ p @ rest) = Ok (take 2 (h @ k @ p @ rest), drop 2 (h @ k @ p @ rest))"
    using assms(1) by (simp add: readFull_def)
  show ?thesis
    unfolding DecodeFrame_def rf bind_outcome.simps split Let_def at st FinBit_def MaskBit_def One_nat_def
    using assms(2,3,5) by (cases m) (simp_all add: readFull_def unmaskInPlace_def)
qed

lemma encode_header_encode_len:
  "b0 # encode_len (if m then MaskBit else 0) n = encode_header b0 (int n) m"
  by (simp add: encode_len_def encode_header_def MaskBit_def)

lemma length_wire_frame: "length (wire_frame opcode payload m) \<le> 14 + length payload"
  by (simp add: wire_frame_def encode_header_def EncodeFrame_key_def)

lemma put_at_Ok: "off + length src \<le> length dst \<Longrightarrow>
   put_at off src dst = Ok (take off dst @ src @ drop (off + length src) dst)"
  by (simp add: put_at_def)

lemma copy_at_Ok: "off + length src \<le> length dst \<Longrightarrow>
   copy_at off src dst = Ok (take off dst @ src @ drop (off + length src) dst)"
  by (simp add: copy_at_def)

lemma length_EncodeFrame_key [simp]: "length EncodeFrame_key = 4"
  by (simp add: EncodeFrame_key_def)

lemma EncodeFrame_fits:
  assumes "int (length payload) < 2 ^ 63" and "length (wire_frame opcode payload m) \<le> length dst"
  shows "EncodeFrame dst opcode payload m =
    Ok (length (wire_frame opcode payload m),
        wire_frame opcode payload m @ drop (length (wire_frame opcode payload m)) dst,
        if m then xor_mask EncodeFrame_key payload else payload)"
proof -
  let ?l = "encode_len (if m then MaskBit else 0) (length payload)"
  have w: "wire_frame opcode payload m = (FinBit OR opcode) # ?l @ (if m then EncodeFrame_key else [])
     @ (if m then xor_mask EncodeFrame_key payload else payload)"
    by (simp add: wire_frame_def flip: encode_header_encode_len)
  show ?thesis
    using assms unfolding w
    by (cases m) (simp_all add: EncodeFrame_def put_at_Ok copy_at_Ok Let_def unmaskInPlace_def
      take_Cons' drop_Cons' ac_simps)
qed

lemma finbit_or_fields:
  "(FinBit OR w) AND 128 \<noteq> 0" "(FinBit OR w) AND 15 = w AND 15"
  unfolding FinBit_def byte_and_15
  by (simp_all add: byte_and_128 bit_or_iff bit_128 take_bit_or)

lemma DecodeFrame_wire_frame:
  assumes "int (length payload) < 2 ^ 63" "int (length payload) \<le> alloc_max"
  shows "DecodeFrame alloc_max (wire_frame opcode payload m @ rest) =
    Ok (\<lparr>IsFinal = True, Opcode = opcode AND 15, Masked = m, PayloadLen = int (length payload),
         MaskKey = (if m then EncodeFrame_key else [0, 0, 0, 0]), Payload = payload\<rparr>, rest)"
proof -
  let ?h = "encode_header (FinBit OR opcode) (int (length payload)) m"
  let ?k = "if m then EncodeFrame_key else []"
  let ?p = "if m then xor_mask EncodeFrame_key payload else payload"
  have len: "(0::int) \<le> int (length payload)" "int (length payload) = int (length ?p)" "int (length ?p) \<le> alloc_max"
    using assms by simp_all
  note nth = encode_header_nth [OF len(1), of "FinBit OR opcode" m]
  have "DecodeFrame alloc_max (?h @ ?k @ ?p @ rest) =
    Ok (\<lparr>IsFinal = (?h ! 0 AND 128 \<noteq> 0), Opcode = ?h ! 0 AND 15, Masked = m,
        PayloadLen = int (length ?p), MaskKey = (if m then ?k else [0, 0, 0, 0]),
        Payload = (if m then xor_mask ?k ?p else ?p)\<rparr>, rest)"
    by (rule DecodeFrame_parts [OF nth(1) _ nth(3) _ len(3)])
       (use decode_ext_len_header [OF len(1) assms(1)] len(2) in simp_all)
  then show ?thesis
    unfolding wire_frame_def nth using finbit_or_fields [of opcode] by simp
qed

section \<open>Properties\<close>

text \<open>
  Claim C2 (round trip).  Every frame whose declared length is its payload's length and
  at most \<^const>\<open>MaxFramePayload\<close> encodes, masked or not, and decoding the encoding in
  front of any further bytes gives the frame back (with the opcode's four wire bits, the
  mask flag and the key) and consumes exactly the encoding.
\<close>

theorem decode_encode_roundtrip:
  assumes "wf_frame f"
  shows "\<exists>enc. EncodeFrameToBufferWithMask f m dst = Ok enc \<and>
    fst (DecodeFrameFromBytes (enc @ rest)) = Decoded (on_wire f m) (length enc)"
  using EncodeFrameToBufferWithMask_wf [OF assms, of m dst] Decode_of_Encode [OF assms]
  by blast

definition hello_frame :: WSFrame where
  "hello_frame = \<lparr>IsFinal = True, Opcode = OpcodeText, Masked = False, PayloadLen = 5,
     MaskKey = [0, 0, 0, 0], Payload = [104, 101, 108, 108, 111]\<rparr>"

lemma wf_hello_frame: "wf_frame hello_frame"
  by (simp add: wf_frame_def hello_frame_def MaxFramePayload_def)

theorem decode_encode_roundtrip_witness:
  "wf_frame hello_frame \<and>
   (\<exists>enc. EncodeFrameToBufferWithMask hello_frame True [] = Ok enc \<and>
     fst (DecodeFrameFromBytes (enc @ [1, 2])) =
       Decoded (on_wire hello_frame True) (length enc))"
  using wf_hello_frame decode_encode_roundtrip [OF wf_hello_frame, of True "[]" "[1, 2]"]
  by blast

text \<open>
  Claim C3 (streaming).  Decoding never commits early: if some input decodes to a frame of
  \<open>n\<close> bytes, then every prefix shorter than \<open>n\<close> is reported incomplete and left
  untouched, and every prefix of at least \<open>n\<close> bytes gives the same frame.
\<close>

theorem decode_streaming:
  assumes "fst (DecodeFrameFromBytes (raw @ rest)) = Decoded f n"
  shows "if length raw < n then DecodeFrameFromBytes raw = (Incomplete, raw)
         else fst (DecodeFrameFromBytes raw) = Decoded f n"
  using assms DecodeFrameFromBytes_prefix [OF assms] DecodeFrameFromBytes_suffix [OF assms]
  by simp

theorem decode_streaming_witness:
  "DecodeFrameFromBytes [0x81, 2, 7] = (Incomplete, [0x81, 2, 7])"
  using decode_streaming [of "[0x81, 2, 7]" "[8]"
    "\<lparr>IsFinal = True, Opcode = 1, Masked = False, PayloadLen = 2,
      MaskKey = [0, 0, 0, 0], Payload = [7, 8]\<rparr>" 4]
  by (simp add: DecodeFrameFromBytes_def decode_ext_len_def MaxFramePayload_def)

text \<open>
  Claim C4 (size limit).  Whatever bytes arrive, a frame that is delivered carries exactly
  the payload its header declares, at most \<^const>\<open>MaxFramePayload\<close> bytes; at least the
  two header bytes and no more than the buffer are consumed, and the bytes after it are
  not written.
\<close>

theorem decode_limits:
  assumes "DecodeFrameFromBytes raw = (Decoded f n, raw')"
  shows "PayloadLen f = int (length (Payload f)) \<and> PayloadLen f \<le> MaxFramePayload \<and>
    2 \<le> n \<and> n \<le> length raw \<and> length raw' = length raw \<and> drop n raw' = drop n raw"
  using Decoded_bounds [OF assms] by blast

definition two_bytes :: WSFrame where
  "two_bytes = \<lparr>IsFinal = True, Opcode = 2, Masked = True, PayloadLen = 2,
      MaskKey = [1, 2, 3, 4], Payload = [6, 10]\<rparr>"

lemma decode_two_bytes:
  "DecodeFrameFromBytes [0x82, 0x82, 1, 2, 3, 4, 7, 8, 9] =
     (Decoded two_bytes 8, [0x82, 0x82, 1, 2, 3, 4, 6, 10, 9])"
  by (simp add: DecodeFrameFromBytes_def decode_ext_len_def MaxFramePayload_def two_bytes_def
      xor_mask_def upt_rec)

theorem decode_limits_witness:
  "PayloadLen two_bytes = int (length (Payload two_bytes)) \<and>
   PayloadLen two_bytes \<le> MaxFramePayload"
  using decode_limits [OF decode_two_bytes] by blast

lemma Decoded_fields:
  assumes "DecodeFrameFromBytes raw = (Decoded f n, raw')"
  shows "Opcode f AND 15 = Opcode f" "\<not> Masked f \<Longrightarrow> MaskKey f = [0, 0, 0, 0]"
  using assms by (auto simp: DecodeFrameFromBytes_def Let_def and.assoc split: if_splits option.splits)

text \<open>
  Claim C5 (decoded frames are well formed).  Whatever bytes arrive, a frame that is delivered
  has a four-bit opcode, a key of four bytes, all zero without a mask, and a declared length that
  is its payload's: so the encoder takes it, and a frame that was not masked survives being encoded
  and decoded again unchanged, in front of any further bytes.
\<close>

theorem decoded_frame_typed:
  assumes "DecodeFrameFromBytes raw = (Decoded f n, raw')"
  shows "wf_frame f \<and> Opcode f AND 15 = Opcode f \<and> length (MaskKey f) = 4 \<and>
    (\<exists>enc. EncodeFrameToBytesWithMask f m = Ok enc \<and>
      fst (DecodeFrameFromBytes (enc @ rest)) =
        Decoded (f\<lparr>Masked := m, MaskKey := (if m then encode_mask_key else [0, 0, 0, 0])\<rparr>) (length enc)) \<and>
    (\<not> Masked f \<longrightarrow> (\<exists>enc. EncodeFrameToBytes f = Ok enc \<and> fst (DecodeFrameFromBytes (enc @ rest)) = Decoded f (length enc)))"
proof -
  have wf: "wf_frame f" using Decoded_bounds(5,6) [OF assms] by (simp add: wf_frame_def)
  note fields = Decoded_fields [OF assms]
  have wire: "on_wire f k = f\<lparr>Masked := k, MaskKey := (if k then encode_mask_key else [0, 0, 0, 0])\<rparr>" for k
    by (cases f) (use fields(1) in \<open>simp add: on_wire_def\<close>)
  have enc: "\<exists>enc. EncodeFrameToBytesWithMask f k = Ok enc \<and> fst (DecodeFrameFromBytes (enc @ rest)) = Decoded (on_wire f k) (length enc)" for k
    unfolding EncodeFrameToBytesWithMask_def
    using EncodeFrameToBufferWithMask_wf [OF wf, of k "[]"] Decode_of_Encode [OF wf] by blast
  have "on_wire f False = f" if "\<not> Masked f"
    unfolding wire by (cases f) (use fields(2) that in simp)
  then show ?thesis
    using wf fields(1) Decoded_bounds(7) [OF assms] enc [of m] enc [of False]
    by (auto simp: wire EncodeFrameToBytes_def)
qed

theorem decoded_frame_typed_witness:
  "wf_frame two_bytes \<and> (\<exists>enc. EncodeFrameToBytesWithMask two_bytes False = Ok enc \<and>
     fst (DecodeFrameFromBytes enc) = Decoded (two_bytes\<lparr>Masked := False, MaskKey := [0, 0, 0, 0]\<rparr>) (length enc))"
  using decoded_frame_typed [OF decode_two_bytes, of False "[]"] by simp

text \<open>
  Claim C6 (panic).  \<open>DecodeFrameFromBytes\<close> panics on exactly the buffers that hold a
  complete header announcing a 64-bit length with the top bit set: the limit check
  compares the negative \<^verbatim>\<open>int64\<close> and lets it pass, and the slice expression is out of
  range.
\<close>

theorem decode_panics_iff:
  "fst (DecodeFrameFromBytes raw) = DecodePanic \<longleftrightarrow> negative_length raw"
  by (rule DecodePanic_iff)

text \<open>
  Claim C7 (equivalence).  The stream decoder and the buffer decoder agree: where the
  buffer decoder delivers a frame of \<open>n\<close> bytes, \<open>DecodeFrame\<close> reads the same frame
  from a reader over those bytes and leaves the reader right behind it.
\<close>

theorem decode_stream_agrees:
  assumes "DecodeFrameFromBytes raw = (Decoded f n, raw')" and "MaxFramePayload \<le> alloc_max"
  shows "DecodeFrame alloc_max raw = Ok (f, drop n raw)"
  using assms Decoded_bounds(6) [OF assms(1)] by (intro DecodeFrame_agrees) simp_all

theorem decode_stream_agrees_witness:
  "DecodeFrame (2 ^ 48) [0x82, 0x82, 1, 2, 3, 4, 7, 8, 9] = Ok (two_bytes, [9])"
  using decode_stream_agrees [OF decode_two_bytes, of "2 ^ 48"]
  by (simp add: MaxFramePayload_def)

text \<open>
  Fact (round trip of the stream codec).  With a destination that holds the frame,
  \<open>EncodeFrame\<close> returns the number of bytes written, leaves the rest of the destination
  alone, and \<open>DecodeFrame\<close> reads the original payload back from those bytes; when it
  masks, it leaves the masked bytes in the caller's payload.
\<close>

theorem stream_roundtrip:
  assumes "int (length payload) < 2 ^ 63" and "int (length payload) \<le> alloc_max"
    and "14 + length payload \<le> length dst"
  shows "\<exists>n dst'. EncodeFrame dst opcode payload m =
      Ok (n, dst', if m then xor_mask EncodeFrame_key payload else payload) \<and>
    drop n dst' = drop n dst \<and>
    DecodeFrame alloc_max (take n dst' @ rest) =
      Ok (\<lparr>IsFinal = True, Opcode = opcode AND 15, Masked = m,
           PayloadLen = int (length payload),
           MaskKey = (if m then EncodeFrame_key else [0, 0, 0, 0]), Payload = payload\<rparr>, rest)"
proof -
  have "length (wire_frame opcode payload m) \<le> length dst"
    using assms(3) length_wire_frame [of opcode payload m] by linarith
  from EncodeFrame_fits [OF assms(1) this] DecodeFrame_wire_frame [OF assms(1,2)]
  show ?thesis by (intro exI conjI) (assumption, simp_all)
qed

theorem stream_roundtrip_witness:
  "\<exists>n dst'. EncodeFrame (replicate 20 0) OpcodeText [1, 2, 3] True =
      Ok (n, dst', xor_mask EncodeFrame_key [1, 2, 3]) \<and>
    DecodeFrame 1000 (take n dst' @ [9]) =
      Ok (\<lparr>IsFinal = True, Opcode = OpcodeText AND 15, Masked = True, PayloadLen = 3,
           MaskKey = EncodeFrame_key, Payload = [1, 2, 3]\<rparr>, [9])"
  using stream_roundtrip [of "[1, 2, 3]" 1000 "replicate 20 0" OpcodeText True "[9]"]
  by auto

end
