(* ===== verification/CoreFrame.thy ===== *)
theory CoreFrame
  imports Frame
begin

unbundle bit_operations_syntax

text \<open>
  The codec of \<^verbatim>\<open>core/protocol/frame_codec.go\<close>, the message-oriented variant of the
  buffer codec: it expects one whole frame per buffer, copies the payload out instead of
  unmasking in place, and its encoder always sets FIN and never masks.  The theorems
  relate it to the streaming codec of \<^verbatim>\<open>protocol/frame_codec.go\<close>.
\<close>

definition core_decode_ext_len :: "bytes \<Rightarrow> int \<Rightarrow> (int \<times> nat) outcome" where
  "core_decode_ext_len raw len =
     (if len = 126 then
        if length raw < 2 + 2 then Err (ErrNew ''frame too short for extended payload length'')
        else Ok (uint (be_decode (take 2 (drop 2 raw)) :: uint16), 4)
      else if len = 127 then
        if length raw < 2 + 8 then Err (ErrNew ''frame too short for extended payload length'')
        else Ok (sint (be_decode (take 8 (drop 2 raw)) :: uint64), 10)
      else Ok (len, 2))"

definition core_DecodeFrameFromBytes :: "bytes \<Rightarrow> WSFrame outcome" where
  "core_DecodeFrameFromBytes raw =
     (if length raw < 2 then Err (ErrNew ''frame too short'')
      else
        let fin = (raw ! 0 AND 0x80 \<noteq> 0);
            opcode = raw ! 0 AND 0x0F;
            masked = (raw ! 1 AND 0x80 \<noteq> 0)
        in bind_outcome (core_decode_ext_len raw (uint (raw ! 1 AND 0x7F))) (\<lambda>(len, off0).
             if len > MaxFramePayload then Err errFrameTooLarge
             else if masked \<and> length raw < off0 + 4
               then Err (ErrNew ''frame too short for mask key'')
             else
               let maskKey = (if masked then take 4 (drop off0 raw) else [0, 0, 0, 0]);
                   offset = (if masked then off0 + 4 else off0)
               in if int (length (drop offset raw)) < len
                    then Err (ErrNew ''payload truncated'')
                  else if int offset + len < int offset then Panic
                  else
                    let payloadData = take (nat len) (drop offset raw)
                    in Ok \<lparr>IsFinal = fin, Opcode = opcode, Masked = masked,
                          PayloadLen = len, MaskKey = maskKey,
                          Payload = (if masked then xor_mask maskKey payloadData
                                     else payloadData)\<rparr>))"

text \<open>
  \<^verbatim>\<open>make([]byte, len(hdr)+plen)\<close> and \<^verbatim>\<open>buf[len(hdr):]\<close> panic for a negative length;
  otherwise the buffer has room for \<^verbatim>\<open>plen\<close> bytes, into which \<^verbatim>\<open>copy\<close> moves what
  fits of the payload, the rest staying zero.
\<close>

definition core_EncodeFrameToBytes :: "WSFrame \<Rightarrow> bytes outcome" where
  "core_EncodeFrameToBytes f =
     (if PayloadLen f > MaxFramePayload then Err errFrameTooLarge
      else
        let b0 = 0x80 OR (Opcode f AND 0x0F);
            plen = PayloadLen f;
            hdr = (if plen \<le> 125 then [b0, word_of_int plen]
                   else if plen \<le> 0xFFFF then
                     [b0, 126] @ be_encode 2 (word_of_int plen :: uint16)
                   else [b0, 127] @ be_encode 8 (word_of_int plen :: uint64))
        in if plen < 0 then Panic
           else Ok (hdr @ take (nat plen) (Payload f)
                    @ replicate (nat plen - length (Payload f)) 0))"

section \<open>Lemmas\<close>

lemma core_decode_ext_len_eq:
  "core_decode_ext_len raw len =
     (case decode_ext_len raw len of
        None \<Rightarrow> Err (ErrNew ''frame too short for extended payload length'')
      | Some r \<Rightarrow> Ok r)"
  by (simp add: core_decode_ext_len_def decode_ext_len_def)

text \<open>What the message-oriented decoder makes of each result of the streaming one.\<close>

definition as_message :: "decoded \<Rightarrow> WSFrame outcome \<Rightarrow> bool" where
  "as_message d r \<longleftrightarrow>
     (case d of Decoded f n \<Rightarrow> r = Ok f
      | Incomplete \<Rightarrow> (\<exists>e. r = Err e \<and> e \<noteq> errFrameTooLarge)
      | DecodeErr e \<Rightarrow> r = Err e
      | DecodePanic \<Rightarrow> r = Panic)"

lemma core_decode_cases:
  "as_message (fst (DecodeFrameFromBytes raw)) (core_DecodeFrameFromBytes raw)"
proof (cases "length raw < 2")
  case True
  then show ?thesis
    by (simp add: DecodeFrameFromBytes_def core_DecodeFrameFromBytes_def as_message_def
        errFrameTooLarge_def)
next
  case False
  let ?l = "uint (raw ! 1 AND 0x7F)"
  show ?thesis
  proof (cases "decode_ext_len raw ?l")
    case None
    with False show ?thesis
      by (simp add: DecodeFrameFromBytes_def core_DecodeFrameFromBytes_def as_message_def
          core_decode_ext_len_eq errFrameTooLarge_def Let_def)
  next
    case (Some r)
    obtain len off where r: "r = (len, off)" by (cases r)
    from decode_ext_len_bounds [OF Some [unfolded r]] False have "off \<le> length raw" by simp
    with False Some r show ?thesis
      by (auto simp: DecodeFrameFromBytes_def core_DecodeFrameFromBytes_def as_message_def
          core_decode_ext_len_eq errFrameTooLarge_def Let_def)
  qed
qed

lemma core_encode_eq:
  assumes "wf_frame f" and "IsFinal f"
  shows "core_EncodeFrameToBytes f = EncodeFrameToBytesWithMask f False"
  using assms
  by (simp add: core_EncodeFrameToBytes_def EncodeFrameToBytesWithMask_def
      EncodeFrameToBufferWithMask_def encode_header_def wf_frame_def Let_def)

section \<open>Properties\<close>

text \<open>
  Fact (equivalence of the two decoders).  On every buffer the decoder of
  \<^verbatim>\<open>core/protocol\<close> answers as the one of \<^verbatim>\<open>protocol\<close> does: the same frame, the same
  size error, the same panic; where the streaming decoder waits for more bytes it
  returns an error other than the size error.
\<close>

theorem core_decoder_equivalent:
  "as_message (fst (DecodeFrameFromBytes raw)) (core_DecodeFrameFromBytes raw)"
  by (rule core_decode_cases)

text \<open>
  Fact (interoperation).  What the encoder of \<^verbatim>\<open>core/protocol\<close> writes for a final,
  well-formed frame the streaming decoder of \<^verbatim>\<open>protocol\<close> reads back, unmasked, consuming
  all of it.
\<close>

theorem core_encoder_interoperates:
  assumes "wf_frame f" and "IsFinal f"
  shows "\<exists>enc. core_EncodeFrameToBytes f = Ok enc \<and>
    fst (DecodeFrameFromBytes enc) = Decoded (on_wire f False) (length enc)"
proof -
  obtain enc where enc: "EncodeFrameToBufferWithMask f False [] = Ok enc"
    using EncodeFrameToBufferWithMask_wf [OF assms(1)] by blast
  then have "core_EncodeFrameToBytes f = Ok enc"
    by (simp add: core_encode_eq [OF assms] EncodeFrameToBytesWithMask_def)
  moreover have "fst (DecodeFrameFromBytes (enc @ [])) = Decoded (on_wire f False) (length enc)"
    by (rule Decode_of_Encode [OF assms(1) enc])
  ultimately show ?thesis by auto
qed

theorem core_encoder_interoperates_witness:
  "\<exists>enc. core_EncodeFrameToBytes hello_frame = Ok enc \<and>
     fst (DecodeFrameFromBytes enc) = Decoded (on_wire hello_frame False) (length enc)"
  using core_encoder_interoperates [OF wf_hello_frame] by (simp add: hello_frame_def)

end
