(* ===== verification/Reassembly.thy ===== *)
theory Reassembly
  imports Frame
begin

text \<open>
  Stream reassembly, the inner loop that \<^verbatim>\<open>RecvZeroCopy\<close> and \<^verbatim>\<open>recvLoop\<close> of
  \<^verbatim>\<open>protocol/connection.go\<close> share: append what the transport delivered to the read
  buffer and decode frames off its front.  The frames do not depend on how the transport
  cuts the stream.
\<close>

datatype stop = Waiting | Failed goerr | Crashed

function drain :: "bytes \<Rightarrow> WSFrame list \<times> bytes \<times> stop" where
  "drain buf =
     (if buf = [] then ([], [], Waiting)
      else case DecodeFrameFromBytes buf of
        (Decoded f n, buf') \<Rightarrow> (let (fs, rest, st) = drain (drop n buf') in (f # fs, rest, st))
      | (Incomplete, buf') \<Rightarrow> ([], buf', Waiting)
      | (DecodeErr e, buf') \<Rightarrow> ([], buf', Failed e)
      | (DecodePanic, buf') \<Rightarrow> ([], buf', Crashed))"
  by pat_completeness auto

termination
proof (relation "measure length")
  fix buf d buf' f n
  assume "buf \<noteq> []" "(d, buf') = DecodeFrameFromBytes buf" "d = Decoded f n"
  then have "DecodeFrameFromBytes buf = (Decoded f n, buf')" by simp
  from Decoded_bounds [OF this] show "(drop n buf', buf) \<in> measure length" by simp
qed (auto dest: sym)

declare drain.simps [simp del]

text \<open>The read buffer across receives; after an error the connection is done.\<close>

fun feed :: "bytes \<Rightarrow> bytes list \<Rightarrow> WSFrame list \<times> bytes \<times> stop" where
  "feed buf [] = ([], buf, Waiting)"
| "feed buf (chunk # chunks) =
     (case drain (buf @ chunk) of
        (fs, rest, Waiting) \<Rightarrow> (let (fs', rest', st) = feed rest chunks in (fs @ fs', rest', st))
      | (fs, rest, st) \<Rightarrow> (fs, rest, st))"

section \<open>Lemmas\<close>

lemma drain_Nil [simp]: "drain [] = ([], [], Waiting)"
  by (simp add: drain.simps)

lemma drain_Decoded:
  assumes "fst (DecodeFrameFromBytes buf) = Decoded f n"
  shows "drain buf = (let (fs, rest, st) = drain (drop n buf) in (f # fs, rest, st))"
proof -
  obtain buf' where d: "DecodeFrameFromBytes buf = (Decoded f n, buf')"
    using assms by (metis prod.collapse)
  have "buf \<noteq> []" using Decoded_bounds [OF d] by auto
  then show ?thesis using d Decoded_bounds(4) [OF d] by (subst drain.simps) simp
qed

lemma Incomplete_untouched:
  "fst (DecodeFrameFromBytes raw) = Incomplete \<Longrightarrow> snd (DecodeFrameFromBytes raw) = raw"
  by (auto simp: DecodeFrameFromBytes_def Let_def split: option.splits)

lemma drain_Incomplete:
  "fst (DecodeFrameFromBytes buf) = Incomplete \<Longrightarrow> drain buf = ([], buf, Waiting)"
  using Incomplete_untouched [of buf] by (subst drain.simps) (auto split: prod.splits)

lemma drain_stuck:
  "fst (DecodeFrameFromBytes buf) = DecodeErr e \<Longrightarrow> drain buf = ([], snd (DecodeFrameFromBytes buf), Failed e)"
  "fst (DecodeFrameFromBytes buf) = DecodePanic \<Longrightarrow> drain buf = ([], snd (DecodeFrameFromBytes buf), Crashed)"
  using DecodeFrameFromBytes_short [of buf]
  by (subst drain.simps; cases "DecodeFrameFromBytes buf"; fastforce)+

text \<open>Draining a longer buffer: continue from what was left.\<close>

lemma drain_append:
  "drain (a @ b) =
     (case drain a of
        (fs, rest, Waiting) \<Rightarrow> (let (fs', rest', st) = drain (rest @ b) in (fs @ fs', rest', st))
      | (fs, rest, st) \<Rightarrow> (fs, rest @ b, st))"
proof (induction a rule: drain.induct)
  case (1 buf)
  show ?case
  proof (cases "fst (DecodeFrameFromBytes buf)")
    case Incomplete
    then show ?thesis by (simp add: drain_Incomplete Let_def split_beta)
  next
    case (Decoded f n)
    then obtain buf' where d: "DecodeFrameFromBytes buf = (Decoded f n, buf')"
      by (metis prod.collapse)
    note bd = Decoded_bounds [OF d]
    have app: "fst (DecodeFrameFromBytes (buf @ b)) = Decoded f n"
      using Decoded by (simp add: DecodeFrameFromBytes_append)
    have "buf \<noteq> []" using bd by auto
    from 1 [OF this d [symmetric] refl] have IH: "drain (drop n buf' @ b) =
       (case drain (drop n buf') of
          (fs, rest, Waiting) \<Rightarrow> (let (fs', rest', st) = drain (rest @ b) in (fs @ fs', rest', st))
        | (fs, rest, st) \<Rightarrow> (fs, rest @ b, st))" by simp
    have "drop n (buf @ b) = drop n buf' @ b" using bd by simp
    then show ?thesis
      using IH bd(4) drain_Decoded [OF Decoded] drain_Decoded [OF app]
      by (auto simp: Let_def split_beta split: stop.splits)
  next
    case (DecodeErr e)
    then show ?thesis
      using drain_stuck(1) [of buf e] drain_stuck(1) [of "buf @ b" e] by (simp add: DecodeFrameFromBytes_append)
  next
    case DecodePanic
    then show ?thesis
      using drain_stuck(2) [of buf] drain_stuck(2) [of "buf @ b"] by (simp add: DecodeFrameFromBytes_append)
  qed
qed

lemma drain_rest: "drain buf = (fs, rest, Waiting) \<Longrightarrow> drain rest = ([], rest, Waiting)"
proof (induction buf arbitrary: fs rule: drain.induct)
  case (1 buf)
  show ?case
  proof (cases "fst (DecodeFrameFromBytes buf)")
    case Incomplete
    then show ?thesis using 1 by (simp add: drain_Incomplete)
  next
    case (Decoded f n)
    then obtain buf' where d: "DecodeFrameFromBytes buf = (Decoded f n, buf')"
      by (metis prod.collapse)
    with Decoded_bounds [OF d] have "buf \<noteq> []" by auto
    moreover have "drop n buf' = drop n buf" using Decoded_bounds(4) [OF d] .
    ultimately show ?thesis
      using 1 d drain_Decoded [OF Decoded] by (auto simp: Let_def split: prod.splits)
  qed (use 1 drain_stuck in auto)
qed

definition frames_of :: "WSFrame list \<times> bytes \<times> stop \<Rightarrow> WSFrame list \<times> stop" where
  "frames_of r = (fst r, snd (snd r))"

text \<open>Cutting the stream differently gives the same frames and the same end.\<close>

lemma feed_drain:
  assumes "drain buf = ([], buf, Waiting)"
  shows "frames_of (feed buf chunks) = frames_of (drain (buf @ concat chunks))"
  using assms
proof (induction chunks arbitrary: buf)
  case (Cons chunk chunks)
  obtain fs rest st where d: "drain (buf @ chunk) = (fs, rest, st)" by (cases "drain (buf @ chunk)")
  show ?case
  proof (cases st)
    case Waiting
    with Cons.IH [OF drain_rest [OF d [unfolded Waiting]]] d drain_append [of "buf @ chunk" "concat chunks"]
    show ?thesis by (auto simp: frames_of_def Let_def split_beta)
  qed (use d drain_append [of "buf @ chunk" "concat chunks"] in \<open>auto simp: frames_of_def\<close>)
qed (auto simp: frames_of_def)

text \<open>The stream of a list of frames.\<close>

definition encode_frame :: "bool \<Rightarrow> WSFrame \<Rightarrow> bytes" where
  "encode_frame m f = (case EncodeFrameToBytesWithMask f m of Ok bs \<Rightarrow> bs | _ \<Rightarrow> [])"

lemma encode_frame_Ok: "wf_frame f \<Longrightarrow> EncodeFrameToBytesWithMask f m = Ok (encode_frame m f)"
  using EncodeFrameToBufferWithMask_wf [of f m] by (simp add: encode_frame_def EncodeFrameToBytesWithMask_def)

lemma drain_encoded:
  assumes "\<forall>f\<in>set fs. wf_frame f"
  shows "drain (concat (map (encode_frame m) fs)) = (map (\<lambda>f. on_wire f m) fs, [], Waiting)"
  using assms
proof (induction fs)
  case (Cons f fs)
  then have "EncodeFrameToBufferWithMask f m [] = Ok (encode_frame m f)"
    using encode_frame_Ok [of f m] by (simp add: EncodeFrameToBytesWithMask_def)
  from Decode_of_Encode [OF _ this, of "concat (map (encode_frame m) fs)"] Cons.prems
  have "fst (DecodeFrameFromBytes (encode_frame m f @ concat (map (encode_frame m) fs))) =
      Decoded (on_wire f m) (length (encode_frame m f))" by simp
  from drain_Decoded [OF this] Cons show ?case by simp
qed simp

section \<open>Properties\<close>

text \<open>
  Claim C14 (chunking).  However the transport cuts a stream into receives, the frames decoded
  and the way decoding ends are those of the whole stream at once.
\<close>

theorem reassembly_chunking:
  "frames_of (feed [] chunks) = frames_of (drain (concat chunks))"
  using feed_drain [of "[]" chunks] by simp

text \<open>
  Fact (reassembly round trip).  The encodings of well-formed frames, sent back to back and
  received in any pieces, are decoded to these frames, in order and with nothing left over.
\<close>

theorem reassembly_roundtrip:
  assumes "\<forall>f\<in>set fs. wf_frame f" and "concat chunks = concat (map (encode_frame m) fs)"
  shows "frames_of (feed [] chunks) = (map (\<lambda>f. on_wire f m) fs, Waiting)"
  using feed_drain [of "[]" chunks] drain_encoded [OF assms(1), of m] assms(2)
  by (simp add: frames_of_def)

theorem reassembly_roundtrip_witness:
  "frames_of (feed [] [take 3 (encode_frame True hello_frame), drop 3 (encode_frame True hello_frame)]) =
     ([on_wire hello_frame True], Waiting)"
  using reassembly_roundtrip [of "[hello_frame]"
      "[take 3 (encode_frame True hello_frame), drop 3 (encode_frame True hello_frame)]" True]
    wf_hello_frame by simp

end
