(* ===== verification/Pow2.thy ===== *)
theory Pow2
  imports Prelude
begin

unbundle bit_operations_syntax

text \<open>
  Word arithmetic shared by the ring buffers and the session store: masking a counter with
  a power of two minus one, rounding up to a power of two by smearing the highest bit, and
  the sign of a wrapped difference of two counters.
\<close>

section \<open>Masked indices\<close>

definition idx :: "uint64 \<Rightarrow> uint64 \<Rightarrow> nat" where
  "idx w msk = unat (w AND msk)"

lemma idx_mask:
  assumes "msk = of_nat (2 ^ k - 1)" and "k \<le> 64"
  shows "idx w msk = unat w mod 2 ^ k"
proof -
  have "msk = mask k" using assms
    by (simp add: mask_eq_exp_minus_1 of_nat_diff)
  then have "w AND msk = take_bit k w" by (simp add: take_bit_eq_mask)
  then have "unat (w AND msk) = take_bit k (unat w)" by (simp only: unsigned_take_bit_eq)
  then show ?thesis by (simp add: idx_def take_bit_eq_mod)
qed

lemma idx_less:
  "msk = of_nat (2 ^ k - 1) \<Longrightarrow> k \<le> 64 \<Longrightarrow> idx w msk < 2 ^ k"
  by (simp add: idx_mask)

lemma unat_add_mod:
  assumes "k \<le> 64"
  shows "unat ((w :: uint64) + of_nat i) mod 2 ^ k = (unat w + i) mod 2 ^ k"
proof -
  have "unat (w + of_nat i) = take_bit 64 (unat w + i)"
    by (simp add: unat_word_ariths unat_of_nat take_bit_eq_mod mod_add_right_eq)
  then have "take_bit k (unat (w + of_nat i)) = take_bit k (unat w + i)"
    using assms by (simp only: take_bit_take_bit min_absorb1)
  then show ?thesis by (simp add: take_bit_eq_mod)
qed

lemma idx_add:
  assumes "msk = of_nat (2 ^ k - 1)" and "k \<le> 64"
  shows "idx (w + of_nat i) msk = (unat w + i) mod 2 ^ k"
  by (simp add: idx_mask [OF assms] unat_add_mod [OF assms(2)])

lemma mod_add_inj:
  assumes "(a + i) mod n = (a + j) mod (n :: nat)" and "i < n" and "j < n"
  shows "i = j"
proof -
  have *: "i \<le> j \<Longrightarrow> i < n \<Longrightarrow> j < n \<Longrightarrow> (a + i) mod n = (a + j) mod n \<Longrightarrow> i = j" for i j
  proof -
    assume h: "i \<le> j" "i < n" "j < n" "(a + i) mod n = (a + j) mod n"
    then have "n dvd (a + j) - (a + i)" by (metis mod_eq_dvd_iff_nat add_left_mono)
    then show "i = j" using h by (auto dest!: dvd_imp_le)
  qed
  show ?thesis using * [of i j] * [of j i] assms by (cases "i \<le> j") auto
qed

lemma idx_add_inj:
  assumes "msk = of_nat (2 ^ k - 1)" and "k \<le> 64" and "i < 2 ^ k" and "j < 2 ^ k"
  shows "idx (w + of_nat i) msk = idx (w + of_nat j) msk \<longleftrightarrow> i = j"
  using mod_add_inj [OF _ assms(3,4), of "unat w"] by (auto simp: idx_add [OF assms(1,2)])

lemma pow_62_64: "k \<le> 62 \<Longrightarrow> (2 :: nat) ^ k \<le> 2 ^ 62"
  by (rule power_increasing) auto

lemma mod_window_neq:
  assumes "h \<le> j" and "j < t" and "t < h + n"
  shows "j mod n \<noteq> t mod (n :: nat)"
proof
  assume "j mod n = t mod n"
  then have "n dvd t - j" using assms(2) by (metis mod_eq_dvd_iff_nat nat_less_le)
  then have "n \<le> t - j" using assms(2) by (intro dvd_imp_le) auto
  with assms show False by linarith
qed

section \<open>Differences of counters\<close>

text \<open>\<^verbatim>\<open>int64(a) - int64(b)\<close>: the subtraction wraps, the sign is read afterwards.\<close>

definition dif64 :: "uint64 \<Rightarrow> uint64 \<Rightarrow> int" where
  "dif64 a b = sint (a - b)"

lemma sint_of_nat_64: "n < 2 ^ 63 \<Longrightarrow> sint (of_nat n :: uint64) = int n"
  by (simp add: signed_of_nat signed_take_bit_int_eq_self)

lemma sint_minus_of_nat_64: "n \<le> 2 ^ 63 \<Longrightarrow> sint (- of_nat n :: uint64) = - int n"
proof -
  assume "n \<le> 2 ^ 63"
  then have "signed_take_bit 63 (- int n) = - int n"
    by (intro signed_take_bit_int_eq_self) auto
  then have "sint (word_of_int (- int n) :: uint64) = - int n"
    by (simp only: signed_of_int) simp
  then show ?thesis by simp
qed

lemma dif64_eq_0 [simp]: "dif64 a a = 0"
  by (simp add: dif64_def)

lemma dif64_eq_0_iff: "dif64 a b = 0 \<longleftrightarrow> a = b"
  by (simp add: dif64_def signed_eq_0_iff)

lemma add_of_nat_diff:
  assumes "unat b \<le> unat (a :: uint64)"
  shows "b + of_nat (unat a - unat b) = a"
proof -
  have "of_nat (unat b + (unat a - unat b)) = (of_nat (unat a) :: uint64)"
    using assms by simp
  then show ?thesis by (simp only: of_nat_add) simp
qed

lemma dif64_plus: "n < 2 ^ 63 \<Longrightarrow> dif64 (a + of_nat n) a = int n"
  by (simp add: dif64_def sint_of_nat_64)

lemma dif64_minus: "n \<le> 2 ^ 63 \<Longrightarrow> dif64 a (a + of_nat n) = - int n"
  by (simp add: dif64_def sint_minus_of_nat_64)

lemma dif64_unat:
  assumes "unat a < 2 ^ 63" and "unat b < 2 ^ 63"
  shows "dif64 a b = int (unat a) - int (unat b)"
proof (cases "unat b \<le> unat a")
  case True
  have "dif64 (b + of_nat (unat a - unat b)) b = int (unat a - unat b)"
    by (rule dif64_plus) (use assms in linarith)
  with True show ?thesis by (simp add: add_of_nat_diff del: of_nat_diff) (simp add: of_nat_diff)
next
  case False
  then have le: "unat a \<le> unat b" by simp
  have "dif64 a (a + of_nat (unat b - unat a)) = - int (unat b - unat a)"
    by (rule dif64_minus) (use assms in linarith)
  with le show ?thesis by (simp add: add_of_nat_diff del: of_nat_diff) (simp add: of_nat_diff)
qed

section \<open>Rounding up to a power of two\<close>

text \<open>One step \<^verbatim>\<open>n |= n >> k\<close> of the smearing idiom, and the idiom itself.\<close>

definition smear_step :: "nat \<Rightarrow> 'a::len word \<Rightarrow> 'a word" where
  "smear_step k n = n OR drop_bit k n"

lemma bit_smear_step: "bit (smear_step k w) i \<longleftrightarrow> bit w i \<or> bit w (i + k)"
  by (auto simp: smear_step_def bit_or_iff bit_drop_bit_eq add.commute)

lemma smear_step_range:
  fixes v w :: "'a::len word"
  assumes "\<And>i. bit v i \<longleftrightarrow> (\<exists>j<m. bit w (i + j))"
  shows "bit (smear_step m v) i \<longleftrightarrow> (\<exists>j<m + m. bit w (i + j))"
proof -
  have "(\<exists>j<m + m. P j) \<longleftrightarrow> (\<exists>j<m. P j) \<or> (\<exists>j<m. P (m + j))" for P :: "nat \<Rightarrow> bool"
    by (metis add_less_cancel_left le_add_diff_inverse linorder_not_less trans_less_add1)
  then show ?thesis by (simp add: bit_smear_step assms add.assoc)
qed

lemma highest_bit:
  fixes w :: "'a::len word"
  assumes "w \<noteq> 0"
  shows "\<exists>m<LENGTH('a). bit w m \<and> (\<forall>i>m. \<not> bit w i)"
proof -
  have ne: "{i. bit w i} \<noteq> {}" and fin: "finite {i. bit w i}"
    using assms by (auto simp: bit_eq_iff intro: finite_subset [of _ "{..<LENGTH('a)}"]
        dest: bit_imp_le_length)
  define m where "m = Max {i. bit w i}"
  have m: "bit w m" and gt: "\<And>i. bit w i \<Longrightarrow> i \<le> m"
    using Max_in [OF fin ne] Max_ge [OF fin] by (auto simp: m_def)
  then show ?thesis
    using bit_imp_le_length [OF m] by (intro exI [of _ m]) (auto dest: gt)
qed

lemma smear_saturated:
  fixes v w :: "'a::len word"
  assumes "\<And>i. bit v i \<longleftrightarrow> (\<exists>j<LENGTH('a). bit w (i + j))" and "w \<noteq> 0"
  shows "\<exists>m<LENGTH('a). v = mask (Suc m) \<and> bit w m \<and> (\<forall>i>m. \<not> bit w i)"
proof -
  from highest_bit [OF assms(2)] obtain m
    where lt: "m < LENGTH('a)" and m: "bit w m" and no: "\<forall>i>m. \<not> bit w i" by blast
  then have gt: "\<And>i. bit w i \<Longrightarrow> i \<le> m" by (metis linorder_not_less)
  have "v = mask (Suc m)"
  proof (rule bit_word_eqI)
    fix i assume "i < LENGTH('a)"
    show "bit v i = bit (mask (Suc m) :: 'a word) i"
    proof
      assume "bit v i"
      then show "bit (mask (Suc m) :: 'a word) i"
        using \<open>i < LENGTH('a)\<close> by (auto simp: assms(1) bit_mask_iff less_Suc_eq_le dest!: gt)
    next
      assume "bit (mask (Suc m) :: 'a word) i"
      then have "i \<le> m" by (simp add: bit_mask_iff less_Suc_eq_le)
      then show "bit v i" using m lt
        by (auto simp: assms(1) intro!: exI [of _ "m - i"])
    qed
  qed
  then show ?thesis using m lt no by blast
qed

lemma smear64:
  "bit (smear_step 32 (smear_step 16 (smear_step 8 (smear_step 4 (smear_step 2
     (smear_step 1 (w :: uint64))))))) i \<longleftrightarrow> (\<exists>j<64. bit w (i + j))"
proof -
  have s0: "bit w i \<longleftrightarrow> (\<exists>j<1. bit w (i + j))" for i by simp
  note s1 = smear_step_range [OF s0]
  note s2 = smear_step_range [OF s1, simplified one_add_one]
  note s4 = smear_step_range [OF s2, simplified]
  note s8 = smear_step_range [OF s4, simplified]
  note s16 = smear_step_range [OF s8, simplified]
  show ?thesis using smear_step_range [OF s16, of i] by simp
qed

lemma smear32:
  "bit (smear_step 16 (smear_step 8 (smear_step 4 (smear_step 2
     (smear_step 1 (w :: uint32)))))) i \<longleftrightarrow> (\<exists>j<32. bit w (i + j))"
proof -
  have s0: "bit w i \<longleftrightarrow> (\<exists>j<1. bit w (i + j))" for i by simp
  note s1 = smear_step_range [OF s0]
  note s2 = smear_step_range [OF s1, simplified one_add_one]
  note s4 = smear_step_range [OF s2, simplified]
  note s8 = smear_step_range [OF s4, simplified]
  show ?thesis using smear_step_range [OF s8, of i] by simp
qed

lemma bit_imp_ge: "bit (n :: nat) m \<Longrightarrow> 2 ^ m \<le> n"
  by (metis bit_take_bit_iff linorder_not_less order_less_irrefl take_bit_nat_eq_self)

lemma between_imp_bit: "2 ^ m \<le> n \<Longrightarrow> n < 2 ^ Suc m \<Longrightarrow> bit (n :: nat) m"
proof -
  assume "2 ^ m \<le> n" "n < 2 ^ Suc m"
  then have "n div 2 ^ m = 1" by (intro div_nat_eqI) auto
  then show ?thesis by (simp add: bit_iff_odd)
qed

lemma high_bit_bounds:
  fixes w :: "'a::len word"
  assumes "bit w m" and "\<forall>i>m. \<not> bit w i"
  shows "2 ^ m \<le> unat w" and "unat w < 2 ^ Suc m"
proof -
  have "m < LENGTH('a)" using assms(1) by (rule bit_imp_le_length)
  then show "2 ^ m \<le> unat w" using assms(1) by (intro bit_imp_ge) (simp add: bit_unsigned_iff)
  have "take_bit (Suc m) w = w"
    using assms(2) by (intro bit_word_eqI) (auto simp: bit_take_bit_iff not_less_eq)
  then have "unat w = take_bit (Suc m) (unat w)" by (metis unsigned_take_bit_eq)
  then show "unat w < 2 ^ Suc m" by (metis take_bit_nat_less_exp)
qed

lemma unat_two_power: "k < LENGTH('a) \<Longrightarrow> unat (2 ^ k :: 'a::len word) = 2 ^ k"
  by (metis of_nat_numeral of_nat_power unsigned_of_nat take_bit_nat_eq_self
      power_strict_increasing one_less_numeral_iff semiring_norm(76) of_nat_id)

lemma unat_minus_1: "w \<noteq> 0 \<Longrightarrow> unat (w - 1) = unat (w :: 'a::len word) - 1"
  by (metis One_nat_def Suc_leI unat_1 unat_eq_0 unat_sub word_le_nat_alt gr0I)

lemma smear_rounds_up:
  fixes size v :: "'a::len word"
  assumes sat: "\<And>i. bit v i \<longleftrightarrow> (\<exists>j<LENGTH('a). bit (size - 1) (i + j))"
    and "2 \<le> unat size" and "unat size \<le> 2 ^ (LENGTH('a) - 1)"
  shows "\<exists>k. 0 < k \<and> k < LENGTH('a) \<and> unat (v + 1) = 2 ^ k \<and>
           unat size \<le> 2 ^ k \<and> 2 ^ k < 2 * unat size"
proof -
  have n: "unat (size - 1) = unat size - 1" using assms(2) by (intro unat_minus_1) auto
  then have "size - 1 \<noteq> 0" using assms(2) by (metis One_nat_def Suc_1 diff_is_0_eq not_less_eq_eq unat_0)
  from smear_saturated [OF sat this] obtain m where m: "m < LENGTH('a)" "v = mask (Suc m)"
    "bit (size - 1) m" "\<forall>i>m. \<not> bit (size - 1) i" by blast
  note b = high_bit_bounds [OF m(3,4), unfolded n]
  have "2 ^ m < (2 :: nat) ^ (LENGTH('a) - 1)" using b(1) assms(2,3) by linarith
  then have "m < LENGTH('a) - 1" by (simp add: power_strict_increasing_iff)
  then have lt: "Suc m < LENGTH('a)" by simp
  have "v + 1 = 2 ^ Suc m" by (simp add: m(2) mask_eq_exp_minus_1)
  then have "unat (v + 1) = 2 ^ Suc m" using lt by (simp only: unat_two_power)
  moreover have "unat size \<le> 2 ^ Suc m" "2 ^ Suc m < 2 * unat size"
    using b assms(2) by auto
  ultimately show ?thesis using lt by blast
qed

lemma pow2_of_and_zero:
  fixes size :: "'a::len word"
  assumes "size \<noteq> 0" and "size AND (size - 1) = 0"
  shows "\<exists>k<LENGTH('a). unat size = 2 ^ k"
proof -
  from highest_bit [OF assms(1)] obtain m where m: "m < LENGTH('a)" "bit size m"
    "\<forall>i>m. \<not> bit size i" by blast
  note b = high_bit_bounds [OF m(2,3)]
  have "unat size = 2 ^ m"
  proof (rule ccontr)
    assume "unat size \<noteq> 2 ^ m"
    then have "bit (unat (size - 1)) m"
      using b by (intro between_imp_bit) (auto simp: unat_minus_1 [OF assms(1)])
    then have "bit (size AND (size - 1)) m" using m by (simp add: bit_and_iff bit_unsigned_iff)
    with assms(2) show False by simp
  qed
  with m(1) show ?thesis by blast
qed

end
