(* ===== verification/Ring_Spec.thy ===== *)
theory Ring_Spec
  imports Prelude
begin

text \<open>
  The contract of \<^verbatim>\<open>api/ring.go\<close>: a bounded FIFO with \<^verbatim>\<open>Enqueue\<close>, \<^verbatim>\<open>Dequeue\<close>,
  \<^verbatim>\<open>Len\<close> and \<^verbatim>\<open>Cap\<close>.  The reference is a list with a capacity; the locale states what
  an implementation promises of single operations, and its lemmas lift this to every
  sequence of operations.

  The Go methods return from a loop, so an operation is an \<^typ>\<open>'a option\<close> (\<open>None\<close> when
  the loop never returns) of an \<^typ>\<open>'a outcome\<close> (\<open>Panic\<close> on an index out of range).
\<close>

section \<open>The reference: a bounded list\<close>

datatype 'a ring_op = Enq 'a | Deq

datatype 'a ring_res = EnqRes bool | DeqRes "'a option"

fun fifo_op :: "nat \<Rightarrow> 'a list \<Rightarrow> 'a ring_op \<Rightarrow> 'a ring_res \<times> 'a list" where
  "fifo_op n xs (Enq x) = (if length xs < n then (EnqRes True, xs @ [x]) else (EnqRes False, xs))"
| "fifo_op n [] Deq = (DeqRes None, [])"
| "fifo_op n (x # xs) Deq = (DeqRes (Some x), xs)"

fun fifo_run :: "nat \<Rightarrow> 'a list \<Rightarrow> 'a ring_op list \<Rightarrow> 'a ring_res list \<times> 'a list" where
  "fifo_run n xs [] = ([], xs)"
| "fifo_run n xs (op # ops) =
     (let (r, xs') = fifo_op n xs op; (rs, xs'') = fifo_run n xs' ops in (r # rs, xs''))"

text \<open>The items accepted and the items delivered by a run, in order.\<close>

fun accepted :: "'a ring_op list \<Rightarrow> 'a ring_res list \<Rightarrow> 'a list" where
  "accepted (Enq x # ops) (EnqRes True # rs) = x # accepted ops rs"
| "accepted (op # ops) (r # rs) = accepted ops rs"
| "accepted _ _ = []"

fun delivered :: "'a ring_res list \<Rightarrow> 'a list" where
  "delivered (DeqRes (Some x) # rs) = x # delivered rs"
| "delivered (r # rs) = delivered rs"
| "delivered [] = []"

lemma fifo_op_length: "length xs \<le> n \<Longrightarrow> length (snd (fifo_op n xs op)) \<le> n"
  by (induction n xs op rule: fifo_op.induct) auto

lemma fifo_op_order:
  "fifo_op n xs op = (r, ys) \<Longrightarrow> delivered [r] @ ys = xs @ accepted [op] [r]"
  by (induction n xs op rule: fifo_op.induct) (auto split: if_splits)

lemma accepted_Cons: "accepted (op # ops) (r # rs) = accepted [op] [r] @ accepted ops rs"
  by (cases "(op # ops, r # rs)" rule: accepted.cases) auto

lemma delivered_Cons: "delivered (r # rs) = delivered [r] @ delivered rs"
  by (cases "r # rs" rule: delivered.cases) auto

text \<open>Nothing is lost, duplicated or reordered by the reference.\<close>

lemma fifo_run_order:
  "fifo_run n xs ops = (rs, ys) \<Longrightarrow> delivered rs @ ys = xs @ accepted ops rs"
proof (induction ops arbitrary: xs rs)
  case (Cons op ops)
  obtain r xs' where op: "fifo_op n xs op = (r, xs')" by force
  obtain rs' where rs': "fifo_run n xs' ops = (rs', ys)" "rs = r # rs'"
    using Cons.prems op by (auto simp: Let_def split: prod.splits)
  have "delivered rs @ ys = delivered [r] @ xs' @ accepted ops rs'"
    using Cons.IH [OF rs'(1)] delivered_Cons [of r rs'] by (simp only: rs'(2) append.assoc)
  also have "\<dots> = xs @ accepted (op # ops) rs"
    using fifo_op_order [OF op] by (metis accepted_Cons append.assoc rs'(2))
  finally show ?case .
qed simp

section \<open>The contract\<close>

text \<open>
  \<open>inv b r\<close>: the ring is well formed and has counter space for \<open>b\<close> more enqueues (an
  implementation that is exact across counter wrap-around ignores \<open>b\<close>).
\<close>

definition ring_apply ::
  "('s \<Rightarrow> 'a \<Rightarrow> (bool \<times> 's) outcome option) \<Rightarrow> ('s \<Rightarrow> ('a option \<times> 's) outcome option) \<Rightarrow>
   's \<Rightarrow> 'a ring_op \<Rightarrow> ('a ring_res \<times> 's) outcome option" where
  "ring_apply enq deq r op =
     (case op of
        Enq x \<Rightarrow> map_option (\<lambda>out. bind_outcome out (\<lambda>(b, r'). Ok (EnqRes b, r'))) (enq r x)
      | Deq \<Rightarrow> map_option (\<lambda>out. bind_outcome out (\<lambda>(x, r'). Ok (DeqRes x, r'))) (deq r))"

fun ring_run ::
  "('s \<Rightarrow> 'a \<Rightarrow> (bool \<times> 's) outcome option) \<Rightarrow> ('s \<Rightarrow> ('a option \<times> 's) outcome option) \<Rightarrow>
   's \<Rightarrow> 'a ring_op list \<Rightarrow> ('a ring_res list \<times> 's) outcome option" where
  "ring_run enq deq r [] = Some (Ok ([], r))"
| "ring_run enq deq r (op # ops) =
     (case ring_apply enq deq r op of
        Some (Ok (res, r')) \<Rightarrow>
          (case ring_run enq deq r' ops of
             Some (Ok (rs, r'')) \<Rightarrow> Some (Ok (res # rs, r''))
           | other \<Rightarrow> other)
      | Some (Err e) \<Rightarrow> Some (Err e)
      | Some Panic \<Rightarrow> Some Panic
      | None \<Rightarrow> None)"

locale ring =
  fixes inv :: "nat \<Rightarrow> 's \<Rightarrow> bool"
    and items :: "'s \<Rightarrow> 'a list"
    and cap :: "'s \<Rightarrow> nat"
    and enq :: "'s \<Rightarrow> 'a \<Rightarrow> (bool \<times> 's) outcome option"
    and deq :: "'s \<Rightarrow> ('a option \<times> 's) outcome option"
    and len :: "'s \<Rightarrow> int"
  assumes inv_Suc: "inv (Suc b) r \<Longrightarrow> inv b r"
    and items_cap: "inv b r \<Longrightarrow> length (items r) \<le> cap r"
    and enq_room: "inv (Suc b) r \<Longrightarrow> length (items r) < cap r \<Longrightarrow>
          \<exists>r'. enq r x = Some (Ok (True, r')) \<and> inv b r' \<and> items r' = items r @ [x] \<and> cap r' = cap r"
    and enq_full: "inv b r \<Longrightarrow> length (items r) = cap r \<Longrightarrow> enq r x = Some (Ok (False, r))"
    and deq_item: "inv b r \<Longrightarrow> items r = x # xs \<Longrightarrow>
          \<exists>r'. deq r = Some (Ok (Some x, r')) \<and> inv b r' \<and> items r' = xs \<and> cap r' = cap r"
    and deq_empty: "inv b r \<Longrightarrow> items r = [] \<Longrightarrow> deq r = Some (Ok (None, r))"
    and len_items: "inv b r \<Longrightarrow> len r = int (length (items r))"
begin

lemma apply_refines:
  assumes "inv (Suc b) r"
  shows "\<exists>r'. ring_apply enq deq r op = Some (Ok (fst (fifo_op (cap r) (items r) op), r')) \<and>
    inv b r' \<and> items r' = snd (fifo_op (cap r) (items r) op) \<and> cap r' = cap r"
proof (cases op)
  case (Enq x)
  show ?thesis
  proof (cases "length (items r) < cap r")
    case True
    then show ?thesis using enq_room [OF assms True, of x] Enq by (auto simp: ring_apply_def)
  next
    case False
    then have "length (items r) = cap r" using items_cap [OF assms] by simp
    then show ?thesis using enq_full [OF assms, of x] inv_Suc [OF assms] Enq
      by (auto simp: ring_apply_def)
  qed
next
  case Deq
  show ?thesis
  proof (cases "items r")
    case Nil
    then show ?thesis using deq_empty [OF assms] inv_Suc [OF assms] Deq
      by (auto simp: ring_apply_def)
  next
    case (Cons x xs)
    then show ?thesis using deq_item [OF inv_Suc [OF assms] Cons] Deq by (auto simp: ring_apply_def)
  qed
qed

text \<open>Every sequence of operations answers as the reference does.\<close>

lemma run_refines:
  assumes "inv (length ops) r"
  shows "\<exists>r'. ring_run enq deq r ops = Some (Ok (fst (fifo_run (cap r) (items r) ops), r')) \<and>
    inv 0 r' \<and> items r' = snd (fifo_run (cap r) (items r) ops) \<and> cap r' = cap r"
  using assms
proof (induction ops arbitrary: r)
  case (Cons op ops)
  from Cons.prems have "inv (Suc (length ops)) r" by simp
  from apply_refines [OF this, of op] obtain r1 where
    r1: "ring_apply enq deq r op = Some (Ok (fst (fifo_op (cap r) (items r) op), r1))"
      "inv (length ops) r1" "items r1 = snd (fifo_op (cap r) (items r) op)" "cap r1 = cap r"
    by blast
  from Cons.IH [OF r1(2)] r1 show ?case by (auto simp: Let_def split_beta)
qed simp

lemma run_order:
  assumes "inv (length ops) r" and "ring_run enq deq r ops = Some (Ok (rs, r'))"
  shows "delivered rs @ items r' = items r @ accepted ops rs"
  using run_refines [OF assms(1)] assms(2)
  by (auto intro!: fifo_run_order [of "cap r"] simp: prod_eq_iff)

end

end
