(* ===== verification/Ring.thy ===== *)
theory Ring
  imports Pow2 Ring_Spec
begin

unbundle bit_operations_syntax

text \<open>
  \<^verbatim>\<open>core/concurrency/ring.go\<close> and \<^verbatim>\<open>core/concurrency/lock_free_queue.go\<close>: bounded
  queues whose cells carry sequence numbers.  Here each operation runs by itself, with the
  64-bit counters wrapping; the operations meet the contract of \<^verbatim>\<open>api/ring.go\<close> at every
  value of the counters.  Interleaved operations are in the theory \<open>RingMPMC\<close>.
\<close>

section \<open>State and operations\<close>

record 'a cell =
  sequence :: uint64
  cdata :: 'a

record 'a RingBuffer =
  rb_head :: uint64
  rb_tail :: uint64
  rb_mask :: uint64
  rb_cells :: "'a cell list"

text \<open>The rounding of \<^verbatim>\<open>NewRingBuffer\<close>.\<close>

definition ring_size :: "uint64 \<Rightarrow> uint64" where
  "ring_size size0 =
     (let size = (if size0 < 2 then 2 else size0)
      in if size AND (size - 1) \<noteq> 0 then
           smear_step 32 (smear_step 16 (smear_step 8 (smear_step 4 (smear_step 2
             (smear_step 1 (size - 1)))))) + 1
         else size)"

text \<open>
  \<^verbatim>\<open>make\<close> panics beyond the allocation limit of the platform, \<open>alloc_max\<close> cells; the
  cells hold the zero value of the element type.
\<close>

definition NewRingBuffer :: "nat \<Rightarrow> 'a \<Rightarrow> uint64 \<Rightarrow> 'a RingBuffer outcome" where
  "NewRingBuffer alloc_max zero size0 =
     (let size = ring_size size0
      in if alloc_max < unat size then Panic
         else Ok \<lparr>rb_head = 0, rb_tail = 0, rb_mask = size - 1,
                rb_cells = map (\<lambda>i. \<lparr>sequence = of_nat i, cdata = zero\<rparr>) [0..<unat size]\<rparr>)"

partial_function (option) rb_Enqueue ::
  "'a RingBuffer \<Rightarrow> 'a \<Rightarrow> (bool \<times> 'a RingBuffer) outcome option" where
  "rb_Enqueue r item =
     (let tail = rb_tail r;
          index = idx tail (rb_mask r)
      in if \<not> index < length (rb_cells r) then Some Panic
         else
           let seq = sequence (rb_cells r ! index);
               dif = dif64 seq tail
           in if dif = 0 then
                Some (Ok (True, r\<lparr>rb_tail := tail + 1,
                  rb_cells := (rb_cells r)[index := \<lparr>sequence = tail + 1, cdata = item\<rparr>]\<rparr>))
              else if dif < 0 then Some (Ok (False, r))
              else rb_Enqueue r item)"

partial_function (option) rb_Dequeue ::
  "'a RingBuffer \<Rightarrow> ('a option \<times> 'a RingBuffer) outcome option" where
  "rb_Dequeue r =
     (let head = rb_head r;
          index = idx head (rb_mask r)
      in if \<not> index < length (rb_cells r) then Some Panic
         else
           let c = rb_cells r ! index;
               dif = dif64 (sequence c) (head + 1)
           in if dif = 0 then
                Some (Ok (Some (cdata c), r\<lparr>rb_head := head + 1,
                  rb_cells := (rb_cells r)[index := c\<lparr>sequence := head + rb_mask r + 1\<rparr>]\<rparr>))
              else if dif < 0 then Some (Ok (None, r))
              else rb_Dequeue r)"

definition rb_Len :: "'a RingBuffer \<Rightarrow> int" where
  "rb_Len r = sint (rb_tail r - rb_head r)"

definition rb_Cap :: "'a RingBuffer \<Rightarrow> nat" where
  "rb_Cap r = length (rb_cells r)"

declare rb_Enqueue.simps [code] rb_Dequeue.simps [code]

subsection \<open>The queue of the executor\<close>

text \<open>
  \<^verbatim>\<open>LockFreeQueue\<close> has the fields of the ring buffer.  The loop
  \<^verbatim>\<open>for size < capacity { size <<= 1 }\<close> runs on Go's 64-bit \<^verbatim>\<open>int\<close>: past \<open>2 ^ 62\<close> the
  shift overflows to a negative number and then to zero, on which it spins.
\<close>

type_synonym 'a LockFreeQueue = "'a RingBuffer"

definition int_shl1 :: "int \<Rightarrow> int" where
  "int_shl1 n = sint (word_of_int (2 * n) :: uint64)"

partial_function (option) lfq_round :: "int \<Rightarrow> int \<Rightarrow> int option" where
  "lfq_round capacity sz =
     (if sz < capacity then lfq_round capacity (int_shl1 sz) else Some sz)"

definition NewLockFreeQueue :: "nat \<Rightarrow> 'a \<Rightarrow> int \<Rightarrow> 'a LockFreeQueue outcome option" where
  "NewLockFreeQueue alloc_max zero capacity0 =
     map_option (\<lambda>size.
         if int alloc_max < size then Panic
         else Ok \<lparr>rb_head = 0, rb_tail = 0, rb_mask = word_of_int (size - 1),
                rb_cells = map (\<lambda>i. \<lparr>sequence = of_nat i, cdata = zero\<rparr>) [0..<nat size]\<rparr>)
       (lfq_round (if capacity0 < 2 then 2 else capacity0) 1)"

text \<open>\<^verbatim>\<open>enqueueCell\<close> returns the cell it filled, here its index.\<close>

partial_function (option) enqueueCell ::
  "'a LockFreeQueue \<Rightarrow> 'a \<Rightarrow> (nat option \<times> 'a LockFreeQueue) outcome option" where
  "enqueueCell q val =
     (let tail = rb_tail q;
          index = idx tail (rb_mask q)
      in if \<not> index < length (rb_cells q) then Some Panic
         else
           let seq = sequence (rb_cells q ! index);
               dif = dif64 seq tail
           in if dif = 0 then
                Some (Ok (Some index, q\<lparr>rb_tail := tail + 1,
                  rb_cells := (rb_cells q)[index := \<lparr>sequence = tail + 1, cdata = val\<rparr>]\<rparr>))
              else if dif < 0 then Some (Ok (None, q))
              else enqueueCell q val)"

definition lfq_Enqueue ::
  "'a LockFreeQueue \<Rightarrow> 'a \<Rightarrow> (bool \<times> 'a LockFreeQueue) outcome option" where
  "lfq_Enqueue q val =
     map_option (\<lambda>out. bind_outcome out (\<lambda>(c, q'). Ok (c \<noteq> None, q'))) (enqueueCell q val)"

partial_function (option) lfq_Dequeue ::
  "'a LockFreeQueue \<Rightarrow> ('a option \<times> 'a LockFreeQueue) outcome option" where
  "lfq_Dequeue q =
     (let head = rb_head q;
          index = idx head (rb_mask q)
      in if \<not> index < length (rb_cells q) then Some Panic
         else
           let c = rb_cells q ! index;
               dif = dif64 (sequence c) (head + 1)
           in if dif = 0 then
                Some (Ok (Some (cdata c), q\<lparr>rb_head := head + 1,
                  rb_cells := (rb_cells q)[index := c\<lparr>sequence := head + rb_mask q + 1\<rparr>]\<rparr>))
              else if dif < 0 then Some (Ok (None, q))
              else lfq_Dequeue q)"

declare lfq_round.simps [code] enqueueCell.simps [code] lfq_Dequeue.simps [code]

section \<open>The representation\<close>

definition rb_count :: "'a RingBuffer \<Rightarrow> nat" where
  "rb_count r = unat (rb_tail r - rb_head r)"

definition rb_cell :: "'a RingBuffer \<Rightarrow> nat \<Rightarrow> 'a cell" where
  "rb_cell r i = rb_cells r ! idx (rb_head r + of_nat i) (rb_mask r)"

definition rb_items :: "'a RingBuffer \<Rightarrow> 'a list" where
  "rb_items r = map (\<lambda>i. cdata (rb_cell r i)) [0..<rb_count r]"

text \<open>
  The cells of the items carry the number after their ticket, the free cells their next
  ticket; both are counted from the head, modulo \<open>2 ^ 64\<close>.
\<close>

definition rb_wf :: "nat \<Rightarrow> 'a RingBuffer \<Rightarrow> bool" where
  "rb_wf k r \<longleftrightarrow> 0 < k \<and> k \<le> 62 \<and> rb_mask r = of_nat (2 ^ k - 1) \<and>
     length (rb_cells r) = 2 ^ k \<and> rb_count r \<le> 2 ^ k \<and>
     (\<forall>i<2 ^ k. sequence (rb_cell r i) =
        rb_head r + of_nat i + (if i < rb_count r then 1 else 0))"

definition rb_inv :: "nat \<Rightarrow> 'a RingBuffer \<Rightarrow> bool" where
  "rb_inv b r \<longleftrightarrow> (\<exists>k. rb_wf k r)"

section \<open>Lemmas\<close>

lemma rb_wf_idx_inj:
  assumes "rb_wf k r" and "i < 2 ^ k" and "j < 2 ^ k"
  shows "idx (rb_head r + of_nat i) (rb_mask r) = idx (rb_head r + of_nat j) (rb_mask r) \<longleftrightarrow> i = j"
  using assms by (intro idx_add_inj) (auto simp: rb_wf_def)

lemma rb_wf_idx_less:
  assumes "rb_wf k r"
  shows "idx w (rb_mask r) < length (rb_cells r)"
proof -
  have "k \<le> 64" and "rb_mask r = of_nat (2 ^ k - 1)" using assms by (auto simp: rb_wf_def)
  from idx_less [OF this(2,1)] assms show ?thesis by (simp add: rb_wf_def)
qed

lemma rb_wf_idx_wrap:
  assumes "rb_wf k r"
  shows "idx (w + of_nat (2 ^ k)) (rb_mask r) = idx w (rb_mask r)"
proof -
  have k: "k \<le> 64" and m: "rb_mask r = of_nat (2 ^ k - 1)" using assms by (auto simp: rb_wf_def)
  show ?thesis
    using idx_add [OF m k, of w "2 ^ k"] idx_mask [OF m k, of w] by (simp only: mod_add_self2)
qed

lemma rb_tail_eq: "rb_tail r = rb_head r + of_nat (rb_count r)"
  by (simp add: rb_count_def)

lemma rb_wf_seq:
  "rb_wf k r \<Longrightarrow> i < 2 ^ k \<Longrightarrow>
   sequence (rb_cell r i) = rb_head r + of_nat i + (if i < rb_count r then 1 else 0)"
  by (simp add: rb_wf_def)

lemma length_rb_items [simp]: "length (rb_items r) = rb_count r"
  by (simp add: rb_items_def)

subsection \<open>Enqueue\<close>

lemma rb_Enqueue_room:
  assumes wf: "rb_wf k r" and room: "rb_count r < 2 ^ k"
  shows "rb_Enqueue r x = Some (Ok (True, r\<lparr>rb_tail := rb_tail r + 1,
      rb_cells := (rb_cells r)[idx (rb_tail r) (rb_mask r) :=
        \<lparr>sequence = rb_tail r + 1, cdata = x\<rparr>]\<rparr>))"
proof -
  have "sequence (rb_cells r ! idx (rb_tail r) (rb_mask r)) = rb_tail r"
    using rb_wf_seq [OF wf room] by (simp add: rb_cell_def flip: rb_tail_eq)
  then show ?thesis
    using rb_wf_idx_less [OF wf] by (subst rb_Enqueue.simps) (simp add: Let_def)
qed

lemma rb_Enqueue_full:
  assumes wf: "rb_wf k r" and full: "rb_count r = 2 ^ k"
  shows "rb_Enqueue r x = Some (Ok (False, r))"
proof -
  let ?i = "idx (rb_tail r) (rb_mask r)"
  have k: "0 < k" "k \<le> 62" using wf by (auto simp: rb_wf_def)
  have "?i = idx (rb_head r) (rb_mask r)"
    using rb_wf_idx_wrap [OF wf] by (simp only: rb_tail_eq full)
  then have seq: "sequence (rb_cells r ! ?i) = rb_head r + 1"
    using rb_wf_seq [OF wf, of 0] full by (simp add: rb_cell_def)
  have "rb_tail r = (rb_head r + 1) + of_nat (2 ^ k - 1)"
    by (simp add: rb_tail_eq full of_nat_diff)
  moreover have "(2 :: nat) ^ k - 1 \<le> 2 ^ 63" using pow_62_64 [OF k(2)] by simp
  ultimately have "dif64 (rb_head r + 1) (rb_tail r) = - int (2 ^ k - 1)"
    by (simp only: dif64_minus)
  moreover have "0 < (2 :: nat) ^ k - 1" using k(1) one_less_power [of "2 :: nat" k] by simp
  ultimately have "dif64 (rb_head r + 1) (rb_tail r) < 0" by linarith
  then show ?thesis
    using rb_wf_idx_less [OF wf] by (subst rb_Enqueue.simps) (simp add: Let_def seq)
qed

lemma rb_count_Suc:
  assumes "unat (t - h) < 2 ^ 63"
  shows "unat ((t :: uint64) + 1 - h) = Suc (unat (t - h))"
proof -
  have "t + 1 - h = of_nat (Suc (unat (t - h)))" by simp
  moreover have "Suc (unat (t - h)) < 2 ^ 64" using assms by simp
  ultimately show ?thesis by (simp only: unat_of_nat) (simp add: take_bit_nat_eq_self)
qed

lemma rb_Enqueue_state:
  fixes x :: 'a
  assumes wf: "rb_wf k r" and room: "rb_count r < 2 ^ k"
  defines "r' \<equiv> r\<lparr>rb_tail := rb_tail r + 1,
      rb_cells := (rb_cells r)[idx (rb_tail r) (rb_mask r) :=
        \<lparr>sequence = rb_tail r + 1, cdata = x\<rparr>]\<rparr>"
  shows "rb_wf k r'" and "rb_items r' = rb_items r @ [x]"
proof -
  have k: "k \<le> 62" "length (rb_cells r) = 2 ^ k" using wf by (auto simp: rb_wf_def)
  then have "rb_count r < 2 ^ 63" using room pow_62_64 [OF k(1)] by simp
  then have cnt: "rb_count r' = Suc (rb_count r)"
    using rb_count_Suc by (simp add: r'_def rb_count_def)
  have cell: "rb_cell r' i = (if i = rb_count r then \<lparr>sequence = rb_tail r + 1, cdata = x\<rparr>
      else rb_cell r i)" if "i < 2 ^ k" for i
    using that rb_wf_idx_inj [OF wf room that] rb_wf_idx_less [OF wf]
    by (auto simp: r'_def rb_cell_def rb_tail_eq nth_list_update)
  show "rb_wf k r'"
    unfolding rb_wf_def cnt using wf room
    by (auto simp: cell rb_wf_def rb_tail_eq less_Suc_eq) (auto simp: r'_def)
  show "rb_items r' = rb_items r @ [x]"
    using room by (auto simp: rb_items_def cnt cell)
qed

subsection \<open>Dequeue\<close>

lemma rb_cell_0: "rb_cells r ! idx (rb_head r) (rb_mask r) = rb_cell r 0"
  by (simp add: rb_cell_def)

lemma rb_Dequeue_item:
  assumes wf: "rb_wf k r" and "0 < rb_count r"
  shows "rb_Dequeue r = Some (Ok (Some (cdata (rb_cell r 0)), r\<lparr>rb_head := rb_head r + 1,
      rb_cells := (rb_cells r)[idx (rb_head r) (rb_mask r) :=
        (rb_cell r 0)\<lparr>sequence := rb_head r + rb_mask r + 1\<rparr>]\<rparr>))"
proof -
  have "sequence (rb_cell r 0) = rb_head r + 1" using rb_wf_seq [OF wf, of 0] assms by simp
  then show ?thesis
    using rb_wf_idx_less [OF wf] by (subst rb_Dequeue.simps) (simp add: Let_def rb_cell_0)
qed

lemma rb_Dequeue_empty:
  assumes wf: "rb_wf k r" and "rb_count r = 0"
  shows "rb_Dequeue r = Some (Ok (None, r))"
proof -
  have "sequence (rb_cell r 0) = rb_head r" using rb_wf_seq [OF wf, of 0] assms by simp
  moreover have "dif64 (rb_head r) (rb_head r + 1) = - 1"
    using dif64_minus [of 1 "rb_head r"] by simp
  ultimately show ?thesis
    using rb_wf_idx_less [OF wf] by (subst rb_Dequeue.simps) (simp add: Let_def rb_cell_0)
qed

lemma rb_count_pred:
  assumes "0 < unat ((t :: uint64) - h)"
  shows "unat (t - (h + 1)) = unat (t - h) - 1"
  using unat_minus_1 [of "t - h"] assms by (cases "t = h") (simp_all add: algebra_simps)

lemma rb_Dequeue_state:
  assumes wf: "rb_wf k r" and pos: "0 < rb_count r"
  defines "r' \<equiv> r\<lparr>rb_head := rb_head r + 1,
      rb_cells := (rb_cells r)[idx (rb_head r) (rb_mask r) :=
        (rb_cell r 0)\<lparr>sequence := rb_head r + rb_mask r + 1\<rparr>]\<rparr>"
  shows "rb_wf k r'" and "rb_items r' = tl (rb_items r)"
proof -
  have k: "k \<le> 62" "length (rb_cells r) = 2 ^ k" "rb_count r \<le> 2 ^ k"
    and m: "rb_mask r + 1 = of_nat (2 ^ k)"
    using wf by (auto simp: rb_wf_def of_nat_diff)
  have cnt: "rb_count r' = rb_count r - 1"
    using rb_count_pred pos by (simp add: r'_def rb_count_def)
  have old: "rb_cell r' i = rb_cell r (Suc i)" if "Suc i < 2 ^ k" for i
    using that rb_wf_idx_inj [OF wf that, of 0] rb_wf_idx_less [OF wf]
    by (auto simp: r'_def rb_cell_def nth_list_update add.assoc)
  have last: "rb_cell r' i = (rb_cell r 0)\<lparr>sequence := rb_head r + of_nat (2 ^ k)\<rparr>"
    if "Suc i = 2 ^ k" for i
  proof -
    have "idx (rb_head r + 1 + of_nat i) (rb_mask r) = idx (rb_head r) (rb_mask r)"
      using rb_wf_idx_wrap [OF wf, of "rb_head r"]
      by (metis add.assoc of_nat_Suc that)
    then show ?thesis
      using rb_wf_idx_less [OF wf] by (simp add: r'_def rb_cell_def add.assoc m)
  qed
  have "sequence (rb_cell r' i) = rb_head r' + of_nat i + (if i < rb_count r' then 1 else 0)"
    if "i < 2 ^ k" for i
  proof (cases "Suc i = 2 ^ k")
    case True
    then have "rb_head r + of_nat (2 ^ k) = rb_head r' + of_nat i"
      by (metis (no_types, lifting) RingBuffer.select_convs(1) RingBuffer.surjective
          RingBuffer.update_convs(1,4) add.assoc of_nat_Suc r'_def)
    with True k(3) show ?thesis by (simp add: last cnt)
  next
    case False
    then show ?thesis using that rb_wf_seq [OF wf, of "Suc i"]
      by (auto simp: old cnt) (auto simp: r'_def)
  qed
  then show "rb_wf k r'"
    unfolding rb_wf_def using wf cnt by (auto simp: rb_wf_def r'_def)
  show "rb_items r' = tl (rb_items r)"
    using k(3) pos by (auto simp: rb_items_def cnt old map_tl [symmetric] tl_upt simp flip: map_Suc_upt
        intro!: nth_equalityI)
qed

subsection \<open>The contract holds\<close>

interpretation rb: ring rb_inv rb_items rb_Cap rb_Enqueue rb_Dequeue rb_Len
proof unfold_locales
  fix b and r :: "'a RingBuffer" and x :: 'a and xs
  show "rb_inv (Suc b) r \<Longrightarrow> rb_inv b r" by (simp add: rb_inv_def)
  assume "rb_inv b r"
  then obtain k where wf: "rb_wf k r" by (auto simp: rb_inv_def)
  then have cap: "rb_Cap r = 2 ^ k" "rb_count r \<le> 2 ^ k" "k \<le> 62"
    by (auto simp: rb_wf_def rb_Cap_def)
  show "length (rb_items r) \<le> rb_Cap r" using cap by simp
  show "length (rb_items r) = rb_Cap r \<Longrightarrow> rb_Enqueue r x = Some (Ok (False, r))"
    using rb_Enqueue_full [OF wf] cap by simp
  show "rb_items r = [] \<Longrightarrow> rb_Dequeue r = Some (Ok (None, r))"
    using rb_Dequeue_empty [OF wf] length_rb_items [of r] by (simp del: length_rb_items)
  show "rb_Len r = int (length (rb_items r))"
    using cap(2) pow_62_64 [OF cap(3)] sint_of_nat_64 [of "rb_count r"]
    by (simp add: rb_Len_def rb_count_def)
next
  fix b and r :: "'a RingBuffer" and x :: 'a and xs
  assume "rb_inv (Suc b) r" and lt: "length (rb_items r) < rb_Cap r"
  then obtain k where wf: "rb_wf k r" by (auto simp: rb_inv_def)
  then have room: "rb_count r < 2 ^ k" using lt by (simp add: rb_wf_def rb_Cap_def)
  show "\<exists>r'. rb_Enqueue r x = Some (Ok (True, r')) \<and> rb_inv b r' \<and>
      rb_items r' = rb_items r @ [x] \<and> rb_Cap r' = rb_Cap r"
    using rb_Enqueue_room [OF wf room, of x] rb_Enqueue_state [OF wf room, of x]
    by (auto simp: rb_inv_def rb_Cap_def)
next
  fix b and r :: "'a RingBuffer" and x :: 'a and xs
  assume "rb_inv b r" and it: "rb_items r = x # xs"
  then obtain k where wf: "rb_wf k r" by (auto simp: rb_inv_def)
  have pos: "0 < rb_count r" using it length_rb_items [of r] by (simp del: length_rb_items)
  have "cdata (rb_cell r 0) = x" using it pos by (auto simp: rb_items_def upt_rec split: if_splits)
  then show "\<exists>r'. rb_Dequeue r = Some (Ok (Some x, r')) \<and> rb_inv b r' \<and>
      rb_items r' = xs \<and> rb_Cap r' = rb_Cap r"
    using rb_Dequeue_item [OF wf pos] rb_Dequeue_state [OF wf pos] it
    by (auto simp: rb_inv_def rb_Cap_def)
qed

subsection \<open>Construction\<close>

lemma ring_size_round:
  assumes "unat s \<le> 2 ^ 62"
  shows "\<exists>k. 0 < k \<and> k \<le> 62 \<and> unat (ring_size s) = 2 ^ k \<and>
    max 2 (unat s) \<le> 2 ^ k \<and> 2 ^ k < 2 * max 2 (unat s)"
proof -
  define n where "n = (if s < 2 then 2 else s)"
  have n: "unat n = max 2 (unat s)" by (auto simp: n_def word_less_nat_alt max_def)
  have "\<exists>k. 0 < k \<and> k < 64 \<and> unat (ring_size s) = 2 ^ k \<and> unat n \<le> 2 ^ k \<and> 2 ^ k < 2 * unat n"
  proof (cases "n AND (n - 1) = 0")
    case True
    moreover have "n \<noteq> 0" using n by auto
    ultimately obtain k where "k < 64" "unat n = 2 ^ k" using pow2_of_and_zero [of n] by auto
    moreover have "k \<noteq> 0" using n \<open>unat n = 2 ^ k\<close> by (intro notI) simp
    moreover have "ring_size s = n" using True by (simp add: ring_size_def n_def Let_def)
    ultimately show ?thesis by auto
  next
    case False
    then have sz: "ring_size s = smear_step 32 (smear_step 16 (smear_step 8 (smear_step 4
        (smear_step 2 (smear_step 1 (n - 1)))))) + 1"
      by (simp add: ring_size_def n_def Let_def)
    show ?thesis
      using smear_rounds_up [of _ n] smear64 [of "n - 1"] n assms unfolding sz by simp
  qed
  then obtain k where k: "0 < k" "unat (ring_size s) = 2 ^ k" "unat n \<le> 2 ^ k"
    "2 ^ k < 2 * unat n" by blast
  then have "(2 :: nat) ^ k < 2 ^ 63" using assms n by simp
  then have "k \<le> 62" using power_strict_increasing_iff [of "2 :: nat" k 63] by simp
  with k n show ?thesis by auto
qed

definition rb_fresh :: "'a \<Rightarrow> nat \<Rightarrow> 'a RingBuffer" where
  "rb_fresh zero k = \<lparr>rb_head = 0, rb_tail = 0, rb_mask = of_nat (2 ^ k - 1),
     rb_cells = map (\<lambda>i. \<lparr>sequence = of_nat i, cdata = zero\<rparr>) [0..<2 ^ k]\<rparr>"

lemma rb_fresh_wf: "0 < k \<Longrightarrow> k \<le> 62 \<Longrightarrow> rb_wf k (rb_fresh zero k)"
proof -
  assume k: "0 < k" "k \<le> 62"
  have "sequence (rb_cell (rb_fresh zero k) i) = of_nat i" if i: "i < 2 ^ k" for i
  proof -
    have "idx (0 + of_nat i) (of_nat (2 ^ k - 1)) = (unat (0 :: uint64) + i) mod 2 ^ k"
      using k by (intro idx_add) auto
    then show ?thesis using i by (simp add: rb_cell_def rb_fresh_def)
  qed
  then show ?thesis using k by (simp add: rb_wf_def rb_count_def) (simp add: rb_fresh_def)
qed

lemma rb_fresh_inv: "0 < k \<Longrightarrow> k \<le> 62 \<Longrightarrow> rb_inv b (rb_fresh zero k)"
  unfolding rb_inv_def by (intro exI [of _ k] rb_fresh_wf)

lemma rb_fresh_items [simp]: "rb_items (rb_fresh zero k) = []" "rb_Cap (rb_fresh zero k) = 2 ^ k"
  by (simp_all add: rb_items_def rb_count_def rb_fresh_def rb_Cap_def)

lemma NewRingBuffer_fresh:
  assumes "unat (ring_size s) = 2 ^ k" and "2 ^ k \<le> alloc_max"
  shows "NewRingBuffer alloc_max zero s = Ok (rb_fresh zero k)"
proof -
  have "ring_size s = of_nat (2 ^ k)"
    using assms(1) of_nat_unat [of "ring_size s", where 'a = "64 word"] by simp
  then have "ring_size s - 1 = of_nat (2 ^ k - 1)" by (simp add: of_nat_diff)
  then show ?thesis using assms by (simp add: NewRingBuffer_def rb_fresh_def Let_def)
qed

subsection \<open>The executor's queue is the ring buffer\<close>

text \<open>A ring on which the loops would spin for ever; no reachable ring is one.\<close>

definition enq_spins :: "'a RingBuffer \<Rightarrow> bool" where
  "enq_spins q \<longleftrightarrow> idx (rb_tail q) (rb_mask q) < length (rb_cells q) \<and>
     0 < dif64 (sequence (rb_cells q ! idx (rb_tail q) (rb_mask q))) (rb_tail q)"

definition deq_spins :: "'a RingBuffer \<Rightarrow> bool" where
  "deq_spins q \<longleftrightarrow> idx (rb_head q) (rb_mask q) < length (rb_cells q) \<and>
     0 < dif64 (sequence (rb_cells q ! idx (rb_head q) (rb_mask q))) (rb_head q + 1)"

lemma enqueueCell_spins: "enqueueCell q v = Some y \<Longrightarrow> \<not> enq_spins q"
  by (erule enqueueCell.raw_induct [rotated]) (auto simp: enq_spins_def Let_def split: if_splits)

lemma rb_Enqueue_spins: "rb_Enqueue q v = Some y \<Longrightarrow> \<not> enq_spins q"
  by (erule rb_Enqueue.raw_induct [rotated]) (auto simp: enq_spins_def Let_def split: if_splits)

lemma lfq_Dequeue_spins: "lfq_Dequeue q = Some y \<Longrightarrow> \<not> deq_spins q"
  by (erule lfq_Dequeue.raw_induct [rotated]) (auto simp: deq_spins_def Let_def split: if_splits)

lemma rb_Dequeue_spins: "rb_Dequeue q = Some y \<Longrightarrow> \<not> deq_spins q"
  by (erule rb_Dequeue.raw_induct [rotated]) (auto simp: deq_spins_def Let_def split: if_splits)

lemma lfq_Enqueue_eq: "lfq_Enqueue q v = rb_Enqueue q v"
proof (cases "enq_spins q")
  case True
  then have "enqueueCell q v = None" "rb_Enqueue q v = None"
    using enqueueCell_spins rb_Enqueue_spins by fastforce+
  then show ?thesis by (simp add: lfq_Enqueue_def)
next
  case False
  then show ?thesis unfolding lfq_Enqueue_def
    by (subst enqueueCell.simps, subst rb_Enqueue.simps) (auto simp: Let_def enq_spins_def)
qed

lemma lfq_Dequeue_eq: "lfq_Dequeue q = rb_Dequeue q"
proof (cases "deq_spins q")
  case True
  then have "lfq_Dequeue q = None" "rb_Dequeue q = None"
    using lfq_Dequeue_spins rb_Dequeue_spins by fastforce+
  then show ?thesis by simp
next
  case False
  then show ?thesis
    by (subst lfq_Dequeue.simps, subst rb_Dequeue.simps) (auto simp: Let_def deq_spins_def)
qed

interpretation lfq: ring rb_inv rb_items rb_Cap lfq_Enqueue lfq_Dequeue rb_Len
  unfolding lfq_Enqueue_eq [abs_def] lfq_Dequeue_eq [abs_def] by unfold_locales

lemma int_shl1_pow: "j < 62 \<Longrightarrow> int_shl1 (2 ^ j) = 2 ^ Suc j"
proof -
  assume "j < 62"
  then have "(2 :: nat) ^ Suc j < 2 ^ 63" by (intro power_strict_increasing) auto
  from sint_of_nat_64 [OF this] show ?thesis by (simp add: int_shl1_def)
qed

lemma lfq_round_pow:
  assumes "k \<le> 62" and "capacity \<le> 2 ^ k" and "\<And>j. j < k \<Longrightarrow> 2 ^ j < capacity" and "j \<le> k"
  shows "lfq_round capacity (2 ^ j) = Some (2 ^ k)"
  using assms(4)
proof (induction "k - j" arbitrary: j)
  case 0
  with assms(2) show ?case by (subst lfq_round.simps) auto
next
  case (Suc n)
  then have "j < k" by simp
  moreover have "lfq_round capacity (2 ^ Suc j) = Some (2 ^ k)"
    using Suc by (intro Suc.hyps) auto
  ultimately show ?case using assms(1) assms(3) [of j] int_shl1_pow [of j]
    by (subst lfq_round.simps) (simp del: power_Suc)
qed

lemma lfq_round_total:
  assumes "2 \<le> capacity" and "capacity \<le> 2 ^ 62"
  shows "\<exists>k. 0 < k \<and> k \<le> 62 \<and> lfq_round capacity 1 = Some (2 ^ k) \<and>
    capacity \<le> 2 ^ k \<and> 2 ^ k < 2 * capacity"
proof -
  define k where "k = (LEAST k. capacity \<le> 2 ^ k)"
  have le: "capacity \<le> 2 ^ k" and "k \<le> 62"
    unfolding k_def using LeastI [of "\<lambda>k. capacity \<le> 2 ^ k", OF assms(2)]
      Least_le [of "\<lambda>k. capacity \<le> 2 ^ k", OF assms(2)] by auto
  have lt: "2 ^ j < capacity" if "j < k" for j
    using not_less_Least [of j "\<lambda>k. capacity \<le> 2 ^ k"] that by (simp add: k_def not_le)
  have "0 < k" using assms(1) le by (intro gr0I) auto
  have "2 ^ k < 2 * capacity" using lt [of "k - 1"] \<open>0 < k\<close>
    by (metis diff_less mult_less_cancel_left_pos power_eq_if zero_less_numeral zero_less_one
        not_gr_zero)
  then show ?thesis
    using lfq_round_pow [OF \<open>k \<le> 62\<close> le lt, of 0] le \<open>0 < k\<close> \<open>k \<le> 62\<close> by auto
qed

lemma NewLockFreeQueue_fresh:
  assumes "lfq_round (if c < 2 then 2 else c) 1 = Some (2 ^ k)" and "2 ^ k \<le> alloc_max"
  shows "NewLockFreeQueue alloc_max zero c = Some (Ok (rb_fresh zero k))"
proof -
  have "\<not> int alloc_max < 2 ^ k" using assms(2)
    by (metis linorder_not_less of_nat_le_iff of_nat_numeral of_nat_power)
  then show ?thesis using assms(1)
    by (simp add: NewLockFreeQueue_def rb_fresh_def nat_power_eq of_nat_diff)
qed

text \<open>Past \<open>2 ^ 62\<close> the shift overflows and the rounding loop never ends.\<close>

lemma lfq_round_diverges:
  assumes "2 ^ 62 < capacity"
  shows "lfq_round capacity 1 = None"
proof -
  let ?seen = "\<lambda>s. (\<exists>j\<le>62. s = 2 ^ j) \<or> s = - (2 ^ 63) \<or> s = (0 :: int)"
  have step: "?seen (int_shl1 s)" if "?seen s" for s
  proof -
    have "int_shl1 (2 ^ 62) = - (2 ^ 63)" "int_shl1 (- (2 ^ 63)) = 0" "int_shl1 0 = 0"
      by (simp_all add: int_shl1_def)
    then show ?thesis using that int_shl1_pow by (metis Suc_leI le_neq_implies_less)
  qed
  have small: "s \<le> 2 ^ 62" if "?seen s" for s
    using that power_increasing [of _ 62 "2 :: int"] by auto
  have "2 ^ 62 < c \<longrightarrow> \<not> ?seen sz" if "lfq_round c sz = Some y" for c sz y
    using that
  proof (rule lfq_round.raw_induct [rotated])
    fix f c sz y
    assume IH: "\<And>c sz y. f c sz = Some y \<Longrightarrow> 2 ^ 62 < c \<longrightarrow> \<not> ?seen sz"
      and res: "(if sz < c then f c (int_shl1 sz) else Some sz) = Some y"
    show "2 ^ 62 < c \<longrightarrow> \<not> ?seen sz"
    proof (cases "sz < c")
      case True
      with res IH [of c "int_shl1 sz" y] step [of sz] show ?thesis by auto
    next
      case False
      have "\<not> ?seen sz" if "2 ^ 62 < c"
      proof
        assume "?seen sz"
        from small [OF this] that False show False by linarith
      qed
      then show ?thesis by simp
    qed
  qed
  moreover have "?seen 1" by (metis le0 power_0)
  ultimately show ?thesis using assms by (metis not_None_eq)
qed

section \<open>Properties\<close>

text \<open>
  Claim C9 (bounded FIFO, across wrap-around).  From every well-formed ring, whatever the
  values of its 64-bit counters, every sequence of Enqueue and Dequeue calls returns (no
  loop spins, no index is out of range), answers exactly as a list bounded by the capacity
  does, and leaves a well-formed ring holding that list, whose length is what Len reports;
  the delivered items followed by the ones still held are the initial ones followed by the
  accepted ones.
\<close>

theorem ring_bounded_fifo:
  assumes "rb_inv 0 r"
  shows "\<exists>rs r'. ring_run rb_Enqueue rb_Dequeue r ops = Some (Ok (rs, r')) \<and>
    fifo_run (rb_Cap r) (rb_items r) ops = (rs, rb_items r') \<and>
    rb_inv 0 r' \<and> rb_Cap r' = rb_Cap r \<and> rb_Len r' = int (length (rb_items r')) \<and>
    delivered rs @ rb_items r' = rb_items r @ accepted ops rs"
proof -
  have inv: "rb_inv (length ops) r" using assms by (simp add: rb_inv_def)
  from rb.run_refines [OF this] obtain r' where
    r': "ring_run rb_Enqueue rb_Dequeue r ops =
        Some (Ok (fst (fifo_run (rb_Cap r) (rb_items r) ops), r'))"
      "rb_inv 0 r'" "rb_items r' = snd (fifo_run (rb_Cap r) (rb_items r) ops)"
      "rb_Cap r' = rb_Cap r" by blast
  with rb.run_order [OF inv r'(1)] rb.len_items [OF r'(2)] show ?thesis
    by (metis prod.collapse)
qed

text \<open>A ring of four cells whose counters are about to wrap, holding one item.\<close>

definition wrapping_ring :: "nat RingBuffer" where
  "wrapping_ring = \<lparr>rb_head = - 2, rb_tail = - 1, rb_mask = 3,
     rb_cells = [\<lparr>sequence = 0, cdata = 0\<rparr>, \<lparr>sequence = 1, cdata = 0\<rparr>,
       \<lparr>sequence = - 1, cdata = 7\<rparr>, \<lparr>sequence = - 1, cdata = 0\<rparr>]\<rparr>"

lemma wrapping_ring_inv: "rb_inv 0 wrapping_ring"
proof -
  have "rb_wf 2 wrapping_ring"
    by code_simp
  then show ?thesis by (auto simp: rb_inv_def)
qed

theorem ring_bounded_fifo_witness:
  "rb_inv 0 wrapping_ring \<and>
   (\<exists>rs r'. ring_run rb_Enqueue rb_Dequeue wrapping_ring [Enq 8, Enq 9, Deq, Deq] = Some (Ok (rs, r')) \<and>
     fifo_run (rb_Cap wrapping_ring) (rb_items wrapping_ring) [Enq 8, Enq 9, Deq, Deq] = (rs, rb_items r') \<and>
     rb_inv 0 r' \<and> rb_Cap r' = rb_Cap wrapping_ring \<and> rb_Len r' = int (length (rb_items r')) \<and>
     delivered rs @ rb_items r' =
       rb_items wrapping_ring @ accepted [Enq 8, Enq 9, Deq, Deq] rs)"
  using wrapping_ring_inv ring_bounded_fifo [OF wrapping_ring_inv] by blast

text \<open>
  Fact (construction).  For every requested size up to \<open>2 ^ 62\<close> for which the cells can
  be allocated, the ring is created empty and well formed, and its capacity is the least
  power of two that is at least the request (and at least two).
\<close>

theorem ring_new_capacity:
  assumes "unat s \<le> 2 ^ 62" and "2 * max 2 (unat s) \<le> alloc_max"
  shows "\<exists>r k. NewRingBuffer alloc_max zero s = Ok r \<and> rb_inv 0 r \<and> rb_items r = [] \<and>
    rb_Cap r = 2 ^ k \<and> max 2 (unat s) \<le> 2 ^ k \<and> 2 ^ k < 2 * max 2 (unat s)"
proof -
  from ring_size_round [OF assms(1)] obtain k where k: "0 < k" "k \<le> 62"
    "unat (ring_size s) = 2 ^ k" "max 2 (unat s) \<le> 2 ^ k" "2 ^ k < 2 * max 2 (unat s)" by blast
  have "NewRingBuffer alloc_max zero s = Ok (rb_fresh zero k)"
    using assms(2) k(5) by (intro NewRingBuffer_fresh [OF k(3)]) simp
  then show ?thesis using rb_fresh_inv [OF k(1,2)] k(4,5)
    by (intro exI [of _ "rb_fresh zero k"] exI [of _ k]) simp
qed

theorem ring_new_capacity_witness:
  "\<exists>r k. NewRingBuffer 100 (0 :: nat) 5 = Ok r \<and> rb_inv 0 r \<and> rb_items r = [] \<and>
    rb_Cap r = 2 ^ k \<and> max 2 (unat (5 :: uint64)) \<le> 2 ^ k \<and>
    2 ^ k < 2 * max 2 (unat (5 :: uint64))"
  by (rule ring_new_capacity) simp_all



text \<open>
  Claim C37 (the rounding loop).  Making a queue returns, with a queue or a panic of the
  allocation, exactly when the capacity asked for is at most \<open>2 ^ 62\<close>; above that the loop that
  rounds it up to a power of two never ends.
\<close>

theorem new_queue_terminates:
  "(\<exists>r. NewLockFreeQueue alloc_max zero capacity = Some r) \<longleftrightarrow> capacity \<le> 2 ^ 62"
proof (cases "capacity \<le> 2 ^ 62")
  case True
  then have "2 \<le> (if capacity < 2 then 2 else capacity)" "(if capacity < 2 then 2 else capacity) \<le> 2 ^ 62" by simp_all
  from lfq_round_total [OF this] True show ?thesis by (auto simp: NewLockFreeQueue_def Let_def)
next
  case False
  then show ?thesis using lfq_round_diverges [of capacity] by (simp add: NewLockFreeQueue_def)
qed

end
