(* ===== verification/Normalize.thy ===== *)
theory Normalize
  imports Prelude
begin

text \<open>
  \<^verbatim>\<open>internal/normalize/normalizer.go\<close>: NUMA node and CPU indices brought into range.  What
  the platform reports (the number of nodes, the node of the calling thread, the number of
  CPUs) is a parameter; logging is left out.
\<close>

definition NUMANode :: "int \<Rightarrow> int \<Rightarrow> int" where
  "NUMANode requested maxNodes =
     (if maxNodes < 1 then 0
      else if requested < 0 \<or> requested \<ge> maxNodes then 0
      else requested)"

definition NUMANodeAuto :: "int \<Rightarrow> int \<Rightarrow> int \<Rightarrow> int" where
  "NUMANodeAuto numaNodes currentNode requested =
     (if requested < 0 then
        if currentNode \<ge> 0 \<and> currentNode < numaNodes then currentNode else 0
      else NUMANode requested numaNodes)"

definition CPUIndex :: "int \<Rightarrow> int \<Rightarrow> int" where
  "CPUIndex requested maxCPUs =
     (if maxCPUs < 1 then 0
      else if requested < 0 \<or> requested \<ge> maxCPUs then 0
      else requested)"

definition CPUIndexAuto :: "int \<Rightarrow> int \<Rightarrow> int" where
  "CPUIndexAuto numCPU requested = (if requested < 0 then 0 else CPUIndex requested numCPU)"

lemma NUMANode_range: "0 \<le> NUMANode r n" "1 \<le> n \<Longrightarrow> NUMANode r n < n"
  by (auto simp: NUMANode_def)

lemma NUMANode_valid: "0 \<le> r \<Longrightarrow> r < n \<Longrightarrow> NUMANode r n = r"
  by (simp add: NUMANode_def)

lemma NUMANodeAuto_range: "0 \<le> NUMANodeAuto n c r" "1 \<le> n \<Longrightarrow> NUMANodeAuto n c r < n"
  using NUMANode_range by (auto simp: NUMANodeAuto_def)

lemma CPUIndexAuto_range: "0 \<le> CPUIndexAuto n r" "1 \<le> n \<Longrightarrow> CPUIndexAuto n r < n"
  by (auto simp: CPUIndexAuto_def CPUIndex_def)

lemma NUMANodeAuto_idem:
  "1 \<le> n \<Longrightarrow> NUMANodeAuto n c' (NUMANodeAuto n c r) = NUMANodeAuto n c r"
  using NUMANodeAuto_range [of n c r] by (simp add: NUMANodeAuto_def [of n c'] NUMANode_valid)

text \<open>
  Fact (indices in range).  With at least one node and one CPU, every normalised index is
  a valid one, a valid request is kept, and normalising again changes nothing.
\<close>

theorem normalize_in_range:
  assumes "1 \<le> nodes" and "1 \<le> cpus"
  shows "NUMANodeAuto nodes cur r \<in> {0..<nodes} \<and> CPUIndexAuto cpus r \<in> {0..<cpus} \<and>
    (r \<in> {0..<nodes} \<longrightarrow> NUMANodeAuto nodes cur r = r) \<and>
    NUMANodeAuto nodes cur' (NUMANodeAuto nodes cur r) = NUMANodeAuto nodes cur r \<and>
    CPUIndexAuto cpus (CPUIndexAuto cpus r) = CPUIndexAuto cpus r"
  using NUMANodeAuto_range [of nodes cur r] CPUIndexAuto_range [of cpus r]
    NUMANodeAuto_idem [of nodes cur' cur r] assms
  by (auto simp: NUMANodeAuto_def NUMANode_valid CPUIndexAuto_def CPUIndex_def)

theorem normalize_in_range_witness:
  "NUMANodeAuto 2 1 (- 1) \<in> {0..<2} \<and> CPUIndexAuto 8 9 \<in> {0..<8} \<and>
   NUMANodeAuto 2 0 (NUMANodeAuto 2 1 (- 1)) = NUMANodeAuto 2 1 (- 1)"
  using normalize_in_range [of 2 8 1 "- 1" 0] normalize_in_range [of 2 8 1 9 0] by auto

end
