(* ===== verification/Pool.thy ===== *)
theory Pool
  imports Ring Normalize "HOL-Library.Multiset"
begin

text \<open>
  Buffers and buffer pools: \<^verbatim>\<open>api/buffer.go\<close>, \<^verbatim>\<open>pool/slab_pool.go\<close>,
  \<^verbatim>\<open>pool/bufferpool.go\<close>, \<^verbatim>\<open>pool/bufferpool_linux.go\<close> and
  \<^verbatim>\<open>pool/buffer_batch.go\<close> (the package \<^verbatim>\<open>core/buffer\<close> holds the same code).  Byte slices
  are views of arrays in an explicit heap, because a pooled buffer, its slices and the
  buffer a later caller gets can share memory.
\<close>

section \<open>Slices\<close>

type_synonym heap = "bytes list"

record slice =
  sl_arr :: nat
  sl_off :: nat
  sl_len :: nat
  sl_cap :: nat

definition make_bytes :: "heap \<Rightarrow> int \<Rightarrow> (slice \<times> heap) outcome" where
  "make_bytes h n =
     (if n < 0 then Panic
      else Ok (\<lparr>sl_arr = length h, sl_off = 0, sl_len = nat n, sl_cap = nat n\<rparr>,
               h @ [replicate (nat n) 0]))"

definition slice_bytes :: "heap \<Rightarrow> slice \<Rightarrow> bytes" where
  "slice_bytes h s = take (sl_len s) (drop (sl_off s) (h ! sl_arr s))"

text \<open>\<^verbatim>\<open>copy(dst, src)\<close> into a slice: what fits.\<close>

definition copy_into :: "heap \<Rightarrow> slice \<Rightarrow> bytes \<Rightarrow> heap" where
  "copy_into h s bs =
     (let n = min (sl_len s) (length bs);
          a = h ! sl_arr s
      in h[sl_arr s := take (sl_off s) a @ take n bs @ drop (sl_off s + n) a])"

section \<open>Buffers\<close>

text \<open>The pool of a buffer is the name of the \<^verbatim>\<open>slabPool\<close> object it came from.\<close>

record Buffer =
  Data :: "slice option"
  NUMA :: int
  BPool :: "nat option"
  Class :: int

definition zero_Buffer :: Buffer where
  "zero_Buffer = \<lparr>Data = None, NUMA = 0, BPool = None, Class = 0\<rparr>"

definition data_len :: "Buffer \<Rightarrow> nat" where
  "data_len b = (case Data b of None \<Rightarrow> 0 | Some s \<Rightarrow> sl_len s)"

definition Buffer_Copy :: "heap \<Rightarrow> Buffer \<Rightarrow> bytes" where
  "Buffer_Copy h b = (case Data b of None \<Rightarrow> [] | Some s \<Rightarrow> slice_bytes h s)"

definition Buffer_Slice :: "Buffer \<Rightarrow> int \<Rightarrow> int \<Rightarrow> Buffer" where
  "Buffer_Slice b from to =
     (if from < 0 \<or> to > int (data_len b) \<or> from > to
      then \<lparr>Data = None, NUMA = NUMA b, BPool = BPool b, Class = Class b\<rparr>
      else b\<lparr>Data := map_option (\<lambda>s. \<lparr>sl_arr = sl_arr s, sl_off = sl_off s + nat from,
                 sl_len = nat (to - from), sl_cap = sl_cap s - nat from\<rparr>) (Data b)\<rparr>)"

definition Buffer_Capacity :: "Buffer \<Rightarrow> nat" where
  "Buffer_Capacity b = (case Data b of None \<Rightarrow> 0 | Some s \<Rightarrow> sl_cap s)"

section \<open>Slab pools\<close>

definition defaultPoolCapacity :: int where
  "defaultPoolCapacity = 4096"

record slabPool =
  slab_size :: int
  slab_queue :: "Buffer LockFreeQueue"
  slab_totalAlloc :: uint64
  slab_totalFree :: uint64
  slab_numaStats :: "(int \<rightharpoonup> uint64) option"

definition numa_record :: "(int \<rightharpoonup> uint64) \<Rightarrow> int \<Rightarrow> (int \<rightharpoonup> uint64)" where
  "numa_record m n = m(n \<mapsto> (case m n of None \<Rightarrow> 0 | Some c \<Rightarrow> c) + 1)"

text \<open>On Linux a buffer comes from the Go heap and releasing it does nothing.\<close>

definition linuxAlloc :: "heap \<Rightarrow> int \<Rightarrow> int \<Rightarrow> (Buffer \<times> heap) outcome" where
  "linuxAlloc h sz numaNode =
     bind_outcome (make_bytes h sz) (\<lambda>(s, h').
       Ok (\<lparr>Data = Some s, NUMA = numaNode, BPool = None, Class = 0\<rparr>, h'))"

definition newSlabPool :: "nat \<Rightarrow> int \<Rightarrow> slabPool outcome option" where
  "newSlabPool alloc_max sz =
     bind_loop (NewLockFreeQueue alloc_max zero_Buffer defaultPoolCapacity) (\<lambda>q.
       Some (Ok \<lparr>slab_size = sz, slab_queue = q, slab_totalAlloc = 0, slab_totalFree = 0,
                slab_numaStats = None\<rparr>))"

text \<open>\<^verbatim>\<open>Get\<close> ignores the requested size; \<open>self\<close> names the pool.\<close>

definition slab_Get ::
  "nat \<Rightarrow> heap \<Rightarrow> slabPool \<Rightarrow> int \<Rightarrow> int \<Rightarrow> (Buffer \<times> heap \<times> slabPool) outcome option" where
  "slab_Get self h sp size0 numaNode =
     bind_loop (lfq_Dequeue (slab_queue sp)) (\<lambda>(item, q').
       case item of
         Some buf \<Rightarrow> Some (Ok (buf, h, sp\<lparr>slab_queue := q'\<rparr>))
       | None \<Rightarrow>
           (case linuxAlloc h (slab_size sp) numaNode of
              Ok (buf, h') \<Rightarrow>
                let m = (case slab_numaStats sp of None \<Rightarrow> Map.empty | Some m \<Rightarrow> m)
                in Some (Ok (buf\<lparr>BPool := Some self, Class := slab_size sp\<rparr>, h',
                     sp\<lparr>slab_queue := q', slab_totalAlloc := slab_totalAlloc sp + 1,
                        slab_numaStats := Some (numa_record m numaNode)\<rparr>))
            | Err e \<Rightarrow> Some (Err e)
            | Panic \<Rightarrow> Some Panic))"

definition slab_Put :: "slabPool \<Rightarrow> Buffer \<Rightarrow> slabPool outcome option" where
  "slab_Put sp buf =
     bind_loop (lfq_Enqueue (slab_queue sp) buf) (\<lambda>(ok, q').
       if ok then Some (Ok (sp\<lparr>slab_queue := q', slab_totalFree := slab_totalFree sp + 1\<rparr>))
       else Some (Ok (sp\<lparr>slab_queue := q'\<rparr>)))"

record BufferPoolStats =
  TotalAlloc :: int
  TotalFree :: int
  InUse :: int
  NUMAStats :: "int \<rightharpoonup> int"

definition slab_Stats :: "slabPool \<Rightarrow> BufferPoolStats" where
  "slab_Stats sp =
     (let totalAlloc = sint (slab_totalAlloc sp);
          totalFree = sint (slab_totalFree sp)
      in \<lparr>TotalAlloc = totalAlloc, TotalFree = totalFree,
          InUse = sint (word_of_int (totalAlloc - totalFree) :: uint64),
          NUMAStats = (case slab_numaStats sp of None \<Rightarrow> Map.empty
                       | Some m \<Rightarrow> (\<lambda>n. map_option sint (m n)))\<rparr>)"

section \<open>The pool manager\<close>

definition sizeClasses :: "int list" where
  "sizeClasses = [2 * 1024, 4 * 1024, 8 * 1024, 16 * 1024, 32 * 1024, 64 * 1024,
     128 * 1024, 256 * 1024, 512 * 1024, 1 * 1024 * 1024]"

fun first_class :: "int list \<Rightarrow> int \<Rightarrow> int option" where
  "first_class [] sz = None"
| "first_class (c # cs) sz = (if sz \<le> c then Some c else first_class cs sz)"

definition sizeClassUpperBound :: "int \<Rightarrow> int" where
  "sizeClassUpperBound sz =
     (case first_class sizeClasses sz of Some c \<Rightarrow> c | None \<Rightarrow> sizeClasses ! (length sizeClasses - 1))"

text \<open>
  The manager's maps hold references to pools: names into the list of pool objects of the
  process.
\<close>

record pools =
  pl_heap :: heap
  pl_slabs :: "slabPool list"
  pl_nodes :: "(int \<rightharpoonup> nat) list"

definition NewBufferPoolManager :: "int \<Rightarrow> (int \<rightharpoonup> nat) list outcome" where
  "NewBufferPoolManager nodeCnt =
     (if nodeCnt < 0 then Panic else Ok (replicate (nat nodeCnt) Map.empty))"

definition getOrCreatePool :: "nat \<Rightarrow> pools \<Rightarrow> nat \<Rightarrow> int \<Rightarrow> (nat \<times> pools) outcome option" where
  "getOrCreatePool alloc_max w node class =
     (case (pl_nodes w ! node) class of
        Some p \<Rightarrow> Some (Ok (p, w))
      | None \<Rightarrow>
          bind_loop (newSlabPool alloc_max class) (\<lambda>npool.
            let p = length (pl_slabs w)
            in Some (Ok (p, w\<lparr>pl_slabs := pl_slabs w @ [npool],
                 pl_nodes := (pl_nodes w)[node := (pl_nodes w ! node)(class \<mapsto> p)]\<rparr>))))"

definition GetPool :: "nat \<Rightarrow> int \<Rightarrow> int \<Rightarrow> pools \<Rightarrow> int \<Rightarrow> int \<Rightarrow> (nat \<times> pools) outcome option" where
  "GetPool alloc_max numaNodes currentNode w size0 numaPreferred =
     (let node = NUMANodeAuto numaNodes currentNode numaPreferred;
          clz = sizeClassUpperBound size0
      in if 0 \<le> node \<and> nat node < length (pl_nodes w)
         then getOrCreatePool alloc_max w (nat node) clz
         else Some Panic)"

text \<open>\<^verbatim>\<open>Release\<close> goes to the pool the buffer names.\<close>

definition Buffer_Release :: "pools \<Rightarrow> Buffer \<Rightarrow> pools outcome option" where
  "Buffer_Release w b =
     (case BPool b of
        None \<Rightarrow> Some (Ok w)
      | Some p \<Rightarrow>
          bind_loop (slab_Put (pl_slabs w ! p) b) (\<lambda>sp'.
            Some (Ok (w\<lparr>pl_slabs := (pl_slabs w)[p := sp']\<rparr>))))"

definition pool_Get :: "pools \<Rightarrow> nat \<Rightarrow> int \<Rightarrow> int \<Rightarrow> (Buffer \<times> pools) outcome option" where
  "pool_Get w p size0 numa =
     bind_loop (slab_Get p (pl_heap w) (pl_slabs w ! p) size0 numa) (\<lambda>(b, h', sp').
       Some (Ok (b, w\<lparr>pl_heap := h', pl_slabs := (pl_slabs w)[p := sp']\<rparr>)))"

section \<open>Batches\<close>

type_synonym BufferBatch = "Buffer list"

definition NewBufferBatch :: "int \<Rightarrow> BufferBatch outcome" where
  "NewBufferBatch cap = (if cap < 0 then Panic else Ok [])"

definition batch_Append :: "BufferBatch \<Rightarrow> Buffer \<Rightarrow> BufferBatch" where
  "batch_Append bb buf = bb @ [buf]"

definition batch_Get :: "BufferBatch \<Rightarrow> int \<Rightarrow> Buffer outcome" where
  "batch_Get bb i = (if 0 \<le> i \<and> i < int (length bb) then Ok (bb ! nat i) else Panic)"

definition batch_Reset :: "BufferBatch \<Rightarrow> BufferBatch" where
  "batch_Reset bb = []"

section \<open>Clients of a pool\<close>

text \<open>
  A client holds buffers it got; it gives each back at most once, may replace one by a slice
  of it, and writes only through the buffers it holds.
\<close>

datatype client_act = CGet int int | CPut nat | CSlice nat int int | CWrite nat bytes

type_synonym client = "heap \<times> slabPool \<times> Buffer list"

fun client_do :: "nat \<Rightarrow> client_act \<Rightarrow> client \<Rightarrow> client outcome option" where
  "client_do self (CGet sz numa) (h, sp, held) =
     bind_loop (slab_Get self h sp sz numa) (\<lambda>(b, h', sp'). Some (Ok (h', sp', b # held)))"
| "client_do self (CPut i) (h, sp, held) =
     (if i < length held
      then bind_loop (slab_Put sp (held ! i)) (\<lambda>sp'. Some (Ok (h, sp', take i held @ drop (Suc i) held)))
      else Some (Ok (h, sp, held)))"
| "client_do self (CSlice i a b) (h, sp, held) =
     Some (Ok (h, sp, if i < length held then held[i := Buffer_Slice (held ! i) a b] else held))"
| "client_do self (CWrite i bs) (h, sp, held) =
     Some (Ok (if i < length held
               then (case Data (held ! i) of None \<Rightarrow> h | Some s \<Rightarrow> copy_into h s bs) else h, sp, held))"

fun client_run :: "nat \<Rightarrow> client_act list \<Rightarrow> client \<Rightarrow> client outcome option" where
  "client_run self [] c = Some (Ok c)"
| "client_run self (a # as) c = bind_loop (client_do self a c) (client_run self as)"

definition arrays :: "Buffer list \<Rightarrow> nat list" where
  "arrays bs = concat (map (\<lambda>b. case Data b of None \<Rightarrow> [] | Some s \<Rightarrow> [sl_arr s]) bs)"

definition slice_ok :: "heap \<Rightarrow> slice \<Rightarrow> bool" where
  "slice_ok h s \<longleftrightarrow> sl_arr s < length h \<and> sl_len s \<le> sl_cap s \<and>
     sl_off s + sl_cap s \<le> length (h ! sl_arr s)"

definition buf_ok :: "heap \<Rightarrow> Buffer \<Rightarrow> bool" where
  "buf_ok h b \<longleftrightarrow> (\<forall>s. Data b = Some s \<longrightarrow> slice_ok h s)"

definition client_ok :: "client \<Rightarrow> bool" where
  "client_ok c =
     (case c of (h, sp, held) \<Rightarrow>
        rb_inv 0 (slab_queue sp) \<and> 0 \<le> slab_size sp \<and>
        distinct (arrays (held @ rb_items (slab_queue sp))) \<and>
        (\<forall>b\<in>set (held @ rb_items (slab_queue sp)). buf_ok h b))"

definition full_size :: "client \<Rightarrow> bool" where
  "full_size c =
     (case c of (h, sp, held) \<Rightarrow>
        \<forall>b\<in>set (held @ rb_items (slab_queue sp)). int (data_len b) = slab_size sp)"

lemma arrays_simps [simp]:
  "arrays [] = []" "arrays (xs @ ys) = arrays xs @ arrays ys"
  "arrays (b # bs) = (case Data b of None \<Rightarrow> [] | Some s \<Rightarrow> [sl_arr s]) @ arrays bs"
  by (simp_all add: arrays_def)

lemma arrays_mset: "mset (arrays xs) = sum_mset (image_mset (\<lambda>b. mset (arrays [b])) (mset xs))"
  by (induction xs) auto

lemma arrays_perm: "mset xs = mset ys \<Longrightarrow> distinct (arrays xs) = distinct (arrays ys)"
  by (metis arrays_mset mset_eq_imp_distinct_iff)

lemma slice_ok_grow: "slice_ok h s \<Longrightarrow> slice_ok (h @ h') s"
  by (auto simp: slice_ok_def nth_append)

lemma buf_ok_grow: "buf_ok h b \<Longrightarrow> buf_ok (h @ h') b"
  by (simp add: buf_ok_def slice_ok_grow)

lemma arrays_below: "\<forall>b\<in>set bs. buf_ok h b \<Longrightarrow> i \<in> set (arrays bs) \<Longrightarrow> i < length h"
  by (induction bs) (auto simp: buf_ok_def slice_ok_def split: option.splits)

lemma Slice_arr: "Data (Buffer_Slice b i j) = Some s' \<Longrightarrow>
    \<exists>s. Data b = Some s \<and> sl_arr s' = sl_arr s"
  by (auto simp: Buffer_Slice_def split: if_splits)

lemma Slice_ok: "buf_ok h b \<Longrightarrow> buf_ok h (Buffer_Slice b i j)"
  by (auto simp: buf_ok_def slice_ok_def Buffer_Slice_def data_len_def split: if_splits)

lemma length_copy_into [simp]: "length (copy_into h s bs) = length h"
  by (simp add: copy_into_def Let_def)

lemma copy_into_lengths:
  assumes "slice_ok h s"
  shows "length (copy_into h s bs ! i) = length (h ! i)"
proof -
  have "sl_off s + min (sl_len s) (length bs) \<le> length (h ! sl_arr s)"
    using assms by (auto simp: slice_ok_def)
  then have "length (take (sl_off s) (h ! sl_arr s) @ take (min (sl_len s) (length bs)) bs @
      drop (sl_off s + min (sl_len s) (length bs)) (h ! sl_arr s)) = length (h ! sl_arr s)"
    by simp
  then show ?thesis using assms
    by (cases "i = sl_arr s") (simp_all add: copy_into_def Let_def slice_ok_def)
qed

lemma buf_ok_copy: "slice_ok h s \<Longrightarrow> buf_ok (copy_into h s bs) b = buf_ok h b"
  by (simp add: buf_ok_def slice_ok_def [of "copy_into h s bs"] copy_into_lengths)
    (simp add: slice_ok_def)

section \<open>What the operations do\<close>

lemma rb_inv_any: "rb_inv b r \<Longrightarrow> rb_inv b' r"
  by (simp add: rb_inv_def)

lemma slab_Get_pooled:
  assumes "rb_inv 0 (slab_queue sp)" and "rb_items (slab_queue sp) = b # bs"
  shows "\<exists>q'. slab_Get self h sp sz numa = Some (Ok (b, h, sp\<lparr>slab_queue := q'\<rparr>)) \<and>
    rb_inv 0 q' \<and> rb_items q' = bs"
  using lfq.deq_item [OF assms] by (auto simp: slab_Get_def)

definition fresh_buffer :: "nat \<Rightarrow> heap \<Rightarrow> slabPool \<Rightarrow> int \<Rightarrow> Buffer" where
  "fresh_buffer self h sp numa =
     \<lparr>Data = Some \<lparr>sl_arr = length h, sl_off = 0, sl_len = nat (slab_size sp),
        sl_cap = nat (slab_size sp)\<rparr>, NUMA = numa, BPool = Some self, Class = slab_size sp\<rparr>"

lemma slab_Get_fresh:
  assumes "rb_inv 0 (slab_queue sp)" and "rb_items (slab_queue sp) = []" and "0 \<le> slab_size sp"
  shows "\<exists>sp'. slab_Get self h sp sz numa = Some (Ok (fresh_buffer self h sp numa,
      h @ [replicate (nat (slab_size sp)) 0], sp')) \<and>
    slab_queue sp' = slab_queue sp \<and> slab_size sp' = slab_size sp \<and>
    slab_totalAlloc sp' = slab_totalAlloc sp + 1 \<and> slab_totalFree sp' = slab_totalFree sp"
  using lfq.deq_empty [OF assms(1,2)] assms(3)
  by (simp add: slab_Get_def linuxAlloc_def make_bytes_def fresh_buffer_def Let_def)

lemma slab_Put_room:
  assumes "rb_inv 0 (slab_queue sp)" and "length (rb_items (slab_queue sp)) < rb_Cap (slab_queue sp)"
  shows "\<exists>q'. slab_Put sp b = Some (Ok (sp\<lparr>slab_queue := q', slab_totalFree := slab_totalFree sp + 1\<rparr>)) \<and>
    rb_inv 0 q' \<and> rb_items q' = rb_items (slab_queue sp) @ [b] \<and> rb_Cap q' = rb_Cap (slab_queue sp)"
  using lfq.enq_room [OF rb_inv_any [OF assms(1)] assms(2), where x = b and b = 0]
  by (auto simp: slab_Put_def)

lemma slab_Put_full:
  assumes "rb_inv 0 (slab_queue sp)" and "\<not> length (rb_items (slab_queue sp)) < rb_Cap (slab_queue sp)"
  shows "slab_Put sp b = Some (Ok sp)"
  using lfq.enq_full [OF assms(1), of b] lfq.items_cap [OF assms(1)] assms(2)
  by (simp add: slab_Put_def)

fun keeps_size :: "client_act \<Rightarrow> bool" where
  "keeps_size (CSlice i a b) = False"
| "keeps_size _ = True"

lemma take_drop_perm:
  "i < length xs \<Longrightarrow> mset (take i xs @ drop (Suc i) xs) + {#xs ! i#} = mset xs"
  by (metis id_take_nth_drop mset.simps(2) mset_append union_mset_add_mset_right add_mset_add_single)

lemma client_Get:
  assumes "client_ok (h, sp, held)"
  shows "\<exists>c'. client_do self (CGet sz numa) (h, sp, held) = Some (Ok c') \<and> client_ok c' \<and>
    (full_size (h, sp, held) \<longrightarrow> full_size c') \<and> slab_size (fst (snd c')) = slab_size sp"
proof (cases "rb_items (slab_queue sp)")
  case Nil
  let ?b = "fresh_buffer self h sp numa"
  let ?h = "h @ [replicate (nat (slab_size sp)) 0]"
  have ok: "rb_inv 0 (slab_queue sp)" "0 \<le> slab_size sp" "distinct (arrays held)"
    "\<forall>b\<in>set held. buf_ok h b"
    using assms Nil by (auto simp: client_ok_def)
  from slab_Get_fresh [OF ok(1) Nil ok(2), of self h sz numa] obtain sp' where
    sp': "slab_Get self h sp sz numa = Some (Ok (?b, ?h, sp'))"
    "slab_queue sp' = slab_queue sp" "slab_size sp' = slab_size sp" by blast
  have "length h \<notin> set (arrays held)" using arrays_below [OF ok(4)] by blast
  moreover have "buf_ok ?h ?b" by (simp add: buf_ok_def slice_ok_def fresh_buffer_def)
  ultimately have "client_ok (?h, sp', ?b # held)"
    using ok buf_ok_grow by (simp add: client_ok_def sp' Nil fresh_buffer_def)
  moreover have "int (data_len ?b) = slab_size sp"
    using ok(2) by (simp add: data_len_def fresh_buffer_def)
  ultimately show ?thesis using sp' Nil by (auto simp: full_size_def)
next
  case (Cons b bs)
  have ok: "rb_inv 0 (slab_queue sp)" "0 \<le> slab_size sp"
    "distinct (arrays (held @ b # bs))" "\<forall>x\<in>set (held @ b # bs). buf_ok h x"
    using assms Cons by (auto simp: client_ok_def)
  from slab_Get_pooled [OF ok(1) Cons, of self h sz numa] obtain q' where
    q': "slab_Get self h sp sz numa = Some (Ok (b, h, sp\<lparr>slab_queue := q'\<rparr>))" "rb_inv 0 q'"
    "rb_items q' = bs" by blast
  have "distinct (arrays ((b # held) @ bs))"
    using ok(3) arrays_perm [of "(b # held) @ bs" "held @ b # bs"] by simp
  then have "client_ok (h, sp\<lparr>slab_queue := q'\<rparr>, b # held)"
    using ok(2,4) q'(2,3) by (simp add: client_ok_def del: arrays_simps)
  then show ?thesis using q'(1,3) Cons by (auto simp: full_size_def)
qed

lemma client_Put:
  assumes "client_ok (h, sp, held)"
  shows "\<exists>c'. client_do self (CPut i) (h, sp, held) = Some (Ok c') \<and> client_ok c' \<and>
    (full_size (h, sp, held) \<longrightarrow> full_size c') \<and> slab_size (fst (snd c')) = slab_size sp"
proof (cases "i < length held")
  case True
  let ?rest = "take i held @ drop (Suc i) held"
  have ok: "rb_inv 0 (slab_queue sp)" "0 \<le> slab_size sp"
    "distinct (arrays (held @ rb_items (slab_queue sp)))"
    "\<forall>x\<in>set (held @ rb_items (slab_queue sp)). buf_ok h x"
    using assms by (auto simp: client_ok_def)
  have sub: "set ?rest \<subseteq> set held" "held ! i \<in> set held"
    using True set_take_subset [of i held] set_drop_subset [of "Suc i" held] by auto
  have perm: "distinct (arrays (?rest @ rb_items (slab_queue sp) @ [held ! i]))"
    using ok(3) arrays_perm [of "?rest @ rb_items (slab_queue sp) @ [held ! i]"
        "held @ rb_items (slab_queue sp)"] take_drop_perm [OF True] by (simp add: ac_simps)
  show ?thesis
  proof (cases "length (rb_items (slab_queue sp)) < rb_Cap (slab_queue sp)")
    case room: True
    from slab_Put_room [OF ok(1) room, of "held ! i"] obtain q' where
      q': "slab_Put sp (held ! i) = Some (Ok (sp\<lparr>slab_queue := q', slab_totalFree := slab_totalFree sp + 1\<rparr>))"
      "rb_inv 0 q'" "rb_items q' = rb_items (slab_queue sp) @ [held ! i]" by blast
    then have "client_ok (h, sp\<lparr>slab_queue := q', slab_totalFree := slab_totalFree sp + 1\<rparr>, ?rest)"
      using ok(2,4) perm sub by (auto simp: client_ok_def simp del: arrays_simps)
    then show ?thesis using q'(1,3) True sub by (auto simp: full_size_def)
  next
    case False
    from slab_Put_full [OF ok(1) this] have put: "slab_Put sp (held ! i) = Some (Ok sp)" by blast
    have "client_ok (h, sp, ?rest)" using ok perm sub by (auto simp: client_ok_def)
    then show ?thesis using put True sub by (auto simp: full_size_def)
  qed
qed (use assms in auto)

lemma arrays_replace:
  assumes "distinct (arrays (xs @ x # ys))" and "arrays [y] = [] \<or> arrays [y] = arrays [x]"
  shows "distinct (arrays (xs @ y # ys))"
proof -
  have split: "arrays (xs @ z # ys) = arrays xs @ arrays [z] @ arrays ys" for z by simp
  show ?thesis using assms unfolding split by (elim disjE) auto
qed

lemma client_Slice:
  assumes "client_ok (h, sp, held)"
  shows "\<exists>c'. client_do self (CSlice i a b) (h, sp, held) = Some (Ok c') \<and> client_ok c' \<and>
    slab_size (fst (snd c')) = slab_size sp"
proof (cases "i < length held")
  case True
  let ?x = "held ! i"
  let ?y = "Buffer_Slice ?x a b"
  let ?pre = "take i held" and ?post = "drop (Suc i) held @ rb_items (slab_queue sp)"
  have ok: "distinct (arrays (held @ rb_items (slab_queue sp)))"
    "\<forall>x\<in>set (held @ rb_items (slab_queue sp)). buf_ok h x"
    using assms by (auto simp: client_ok_def)
  have split: "held @ rb_items (slab_queue sp) = ?pre @ ?x # ?post"
    using id_take_nth_drop [OF True] by simp
  have upd: "held[i := ?y] @ rb_items (slab_queue sp) = ?pre @ ?y # ?post"
    using upd_conv_take_nth_drop [OF True, of ?y] by simp
  have "arrays [?y] = [] \<or> arrays [?y] = arrays [?x]"
    using Slice_arr [of ?x a b] by (cases "Data ?y") auto
  then have "distinct (arrays (held[i := ?y] @ rb_items (slab_queue sp)))"
    using ok(1) unfolding split upd by (rule arrays_replace [rotated])
  moreover have "\<forall>x\<in>set (held[i := ?y] @ rb_items (slab_queue sp)). buf_ok h x"
    using ok(2) True Slice_ok set_update_subset_insert [of held i ?y] by fastforce
  ultimately have "client_ok (h, sp, held[i := ?y])"
    using assms by (simp add: client_ok_def del: arrays_simps)
  with True show ?thesis by auto
qed (use assms in auto)

lemma client_Write:
  assumes "client_ok (h, sp, held)"
  shows "\<exists>c'. client_do self (CWrite i bs) (h, sp, held) = Some (Ok c') \<and> client_ok c' \<and>
    (full_size (h, sp, held) \<longrightarrow> full_size c') \<and> slab_size (fst (snd c')) = slab_size sp"
proof (cases "i < length held \<and> Data (held ! i) \<noteq> None")
  case True
  then obtain s where s: "Data (held ! i) = Some s" "i < length held" by auto
  have "buf_ok h (held ! i)" using assms s(2) by (simp add: client_ok_def)
  then have "slice_ok h s" using s(1) by (simp add: buf_ok_def)
  then have "client_ok (copy_into h s bs, sp, held)"
    using assms by (simp add: client_ok_def buf_ok_copy)
  with s show ?thesis by (simp add: full_size_def)
next
  case False
  with assms show ?thesis by (auto split: option.splits)
qed

lemma client_step:
  assumes "client_ok c"
  shows "\<exists>c'. client_do self a c = Some (Ok c') \<and> client_ok c' \<and>
    (keeps_size a \<longrightarrow> full_size c \<longrightarrow> full_size c') \<and>
    slab_size (fst (snd c')) = slab_size (fst (snd c))"
proof -
  obtain h sp held where c: "c = (h, sp, held)" by (cases c)
  note ok = assms [unfolded c]
  show ?thesis unfolding c
  proof (cases a)
    case (CSlice i x y)
    then show "\<exists>c'. client_do self a (h, sp, held) = Some (Ok c') \<and> client_ok c' \<and>
        (keeps_size a \<longrightarrow> full_size (h, sp, held) \<longrightarrow> full_size c') \<and>
        slab_size (fst (snd c')) = slab_size (fst (snd (h, sp, held)))"
      using client_Slice [OF ok, of self i x y] by auto
  qed (use client_Get [OF ok] client_Put [OF ok] client_Write [OF ok] in auto)
qed

lemma client_run_ok:
  assumes "client_ok c"
  shows "\<exists>c'. client_run self as c = Some (Ok c') \<and> client_ok c' \<and>
    (list_all keeps_size as \<longrightarrow> full_size c \<longrightarrow> full_size c') \<and>
    slab_size (fst (snd c')) = slab_size (fst (snd c))"
  using assms
proof (induction as arbitrary: c)
  case (Cons a as)
  from client_step [OF Cons.prems, of self a] obtain c1 where
    c1: "client_do self a c = Some (Ok c1)" "client_ok c1"
      "keeps_size a \<longrightarrow> full_size c \<longrightarrow> full_size c1"
      "slab_size (fst (snd c1)) = slab_size (fst (snd c))" by blast
  with Cons.IH [OF c1(2)] show ?case by auto
qed simp

definition empty_slab :: "int \<Rightarrow> slabPool" where
  "empty_slab sz = \<lparr>slab_size = sz, slab_queue = rb_fresh zero_Buffer 12, slab_totalAlloc = 0,
     slab_totalFree = 0, slab_numaStats = None\<rparr>"

lemma newSlabPool_eq:
  assumes "4096 \<le> alloc_max"
  shows "newSlabPool alloc_max sz = Some (Ok (empty_slab sz))"
proof -
  have "lfq_round 4096 1 = Some (2 ^ 12)"
    using lfq_round_pow [of 12 4096 0] power_strict_increasing [of _ 12 "2 :: int"] by simp
  then have "NewLockFreeQueue alloc_max zero_Buffer 4096 = Some (Ok (rb_fresh zero_Buffer 12))"
    using assms by (intro NewLockFreeQueue_fresh) auto
  then show ?thesis by (simp add: newSlabPool_def defaultPoolCapacity_def empty_slab_def)
qed

lemma empty_slab_ok: "0 \<le> sz \<Longrightarrow> client_ok ([], empty_slab sz, []) \<and> full_size ([], empty_slab sz, [])"
  using rb_fresh_inv [of 12] by (simp add: client_ok_def full_size_def empty_slab_def)

text \<open>Get and Put in turn: one buffer circulates and only the count of frees grows.\<close>

definition cycle :: "nat \<Rightarrow> client_act list" where
  "cycle n = concat (replicate n [CGet 0 0, CPut 0])"

lemma client_run_append:
  "client_run self (as @ bs) c = bind_loop (client_run self as c) (client_run self bs)"
proof (induction as arbitrary: c)
  case (Cons a as)
  then show ?case by (cases "(client_do self a c, client_run self as)" rule: bind_loop.cases) auto
qed simp

lemma cycle_circulates:
  assumes "rb_inv 0 (slab_queue sp)" and "rb_items (slab_queue sp) = [b]"
    and "1 < rb_Cap (slab_queue sp)"
  shows "\<exists>sp'. client_run self (cycle n) (h, sp, []) = Some (Ok (h, sp', [])) \<and>
    rb_inv 0 (slab_queue sp') \<and> rb_items (slab_queue sp') = [b] \<and> 1 < rb_Cap (slab_queue sp') \<and>
    slab_totalAlloc sp' = slab_totalAlloc sp \<and> slab_totalFree sp' = slab_totalFree sp + of_nat n"
  using assms
proof (induction n arbitrary: sp)
  case (Suc n)
  from lfq.deq_item [OF Suc.prems(1,2)] obtain q1 where
    q1: "lfq_Dequeue (slab_queue sp) = Some (Ok (Some b, q1))" "rb_inv 0 q1" "rb_items q1 = []"
      "rb_Cap q1 = rb_Cap (slab_queue sp)" by blast
  from lfq.enq_room [OF rb_inv_any [OF q1(2)], where x = b and b = 0] q1 Suc.prems(3) obtain q2 where
    q2: "lfq_Enqueue q1 b = Some (Ok (True, q2))" "rb_inv 0 q2" "rb_items q2 = [b]"
      "rb_Cap q2 = rb_Cap q1" by auto
  let ?sp = "sp\<lparr>slab_queue := q2, slab_totalFree := slab_totalFree sp + 1\<rparr>"
  have "client_run self [CGet 0 0, CPut 0] (h, sp, []) = Some (Ok (h, ?sp, []))"
    using q1(1) q2(1) by (simp add: slab_Get_def slab_Put_def)
  moreover have "cycle (Suc n) = [CGet 0 0, CPut 0] @ cycle n" by (simp add: cycle_def)
  ultimately have "client_run self (cycle (Suc n)) (h, sp, []) = client_run self (cycle n) (h, ?sp, [])"
    by (simp only: client_run_append bind_loop.simps)
  with Suc.IH [of ?sp] q1 q2 Suc.prems(3) show ?case by (auto simp: algebra_simps)
qed (simp add: cycle_def)

lemma first_cycle:
  assumes "0 \<le> sz"
  shows "\<exists>h sp b. client_run self (cycle 1) ([], empty_slab sz, []) = Some (Ok (h, sp, [])) \<and>
    rb_inv 0 (slab_queue sp) \<and> rb_items (slab_queue sp) = [b] \<and> 1 < rb_Cap (slab_queue sp) \<and>
    slab_totalAlloc sp = 1 \<and> slab_totalFree sp = 1"
proof -
  let ?e = "empty_slab sz"
  have e: "rb_inv 0 (slab_queue ?e)" "rb_items (slab_queue ?e) = []" "rb_Cap (slab_queue ?e) = 2 ^ 12"
    using rb_fresh_inv [of 12] by (simp_all add: empty_slab_def)
  from slab_Get_fresh [OF e(1,2), of self "[]" 0 0] assms obtain sp1 h1 b1 where
    sp1: "slab_Get self [] ?e 0 0 = Some (Ok (b1, h1, sp1))" "slab_queue sp1 = slab_queue ?e"
      "slab_totalAlloc sp1 = 1" "slab_totalFree sp1 = 0" by (auto simp: empty_slab_def)
  from slab_Put_room [of sp1 b1] e obtain q' where
    q': "slab_Put sp1 b1 = Some (Ok (sp1\<lparr>slab_queue := q', slab_totalFree := slab_totalFree sp1 + 1\<rparr>))"
      "rb_inv 0 q'" "rb_items q' = [b1]" "rb_Cap q' = 2 ^ 12" by (auto simp: sp1(2))
  then show ?thesis using sp1 by (simp add: cycle_def)
qed

section \<open>Properties\<close>



text \<open>
  Fact (short buffers come back).  A slice returned to an empty pool is what the next Get
  delivers, whatever size the caller asks for: the pool hands out buffers shorter than its
  class.
\<close>

theorem pool_returns_short:
  assumes "rb_inv 0 (slab_queue sp)" and "rb_items (slab_queue sp) = []"
    and "0 < rb_Cap (slab_queue sp)" and "0 \<le> n" and "n \<le> int (data_len b)"
  shows "\<exists>sp1 sp2 b'. slab_Put sp (Buffer_Slice b 0 n) = Some (Ok sp1) \<and>
    slab_Get self h sp1 want numa = Some (Ok (b', h, sp2)) \<and> int (data_len b') = n"
proof -
  from slab_Put_room [OF assms(1), of "Buffer_Slice b 0 n"] assms(2,3) obtain q where
    q: "slab_Put sp (Buffer_Slice b 0 n) = Some (Ok (sp\<lparr>slab_queue := q, slab_totalFree := slab_totalFree sp + 1\<rparr>))"
      "rb_inv 0 q" "rb_items q = [Buffer_Slice b 0 n]" by auto
  let ?sp = "sp\<lparr>slab_queue := q, slab_totalFree := slab_totalFree sp + 1\<rparr>"
  have "\<exists>q'. slab_Get self h ?sp want numa = Some (Ok (Buffer_Slice b 0 n, h, ?sp\<lparr>slab_queue := q'\<rparr>))"
    using slab_Get_pooled [of ?sp "Buffer_Slice b 0 n" "[]" self h want numa] q(2,3) by auto
  moreover have "int (data_len (Buffer_Slice b 0 n)) = n"
    using assms(4,5) by (auto simp: Buffer_Slice_def data_len_def split: option.splits)
  ultimately show ?thesis using q(1) by blast
qed

theorem pool_returns_short_witness:
  "\<exists>sp1 sp2 b'. slab_Put (empty_slab 16) (Buffer_Slice (fresh_buffer 0 [] (empty_slab 16) 0) 0 3) = Some (Ok sp1) \<and>
     slab_Get 0 [] sp1 16 0 = Some (Ok (b', [], sp2)) \<and> int (data_len b') = 3"
  by (rule pool_returns_short)
    (use rb_fresh_inv [of 12] in \<open>simp_all add: empty_slab_def fresh_buffer_def data_len_def\<close>)

text \<open>
  Fact (statistics).  A client that gets a buffer and gives it back \<open>n\<close> times leaves the
  pool reporting \<open>1 - n\<close> buffers in use, although none is: a buffer taken from the queue is
  not counted again, while every return is.
\<close>

theorem pool_in_use_negative:
  assumes "0 \<le> sz" and "0 < n" and "n < 2 ^ 62"
  shows "\<exists>h sp. client_run self (cycle n) ([], empty_slab sz, []) = Some (Ok (h, sp, [])) \<and>
    TotalAlloc (slab_Stats sp) = 1 \<and> TotalFree (slab_Stats sp) = int n \<and>
    InUse (slab_Stats sp) = 1 - int n"
proof -
  from first_cycle [OF assms(1), of self] obtain h1 sp1 b where
    c1: "client_run self (cycle 1) ([], empty_slab sz, []) = Some (Ok (h1, sp1, []))"
    "rb_inv 0 (slab_queue sp1)" "rb_items (slab_queue sp1) = [b]" "1 < rb_Cap (slab_queue sp1)"
    "slab_totalAlloc sp1 = 1" "slab_totalFree sp1 = 1" by blast
  from cycle_circulates [OF c1(2-4), of self "n - 1" h1] obtain sp where
    c2: "client_run self (cycle (n - 1)) (h1, sp1, []) = Some (Ok (h1, sp, []))"
      "slab_totalAlloc sp = 1" "slab_totalFree sp = 1 + of_nat (n - 1)" using c1(5,6) by auto
  have "replicate n x = [x] @ replicate (n - 1) x" for x :: "client_act list"
    using assms(2) by (cases n) auto
  then have split: "cycle n = cycle 1 @ cycle (n - 1)" by (simp add: cycle_def)
  have free: "slab_totalFree sp = of_nat n" using c2(3) assms(2) by (simp add: of_nat_diff)
  have "sint (slab_totalFree sp) = int n" using free sint_of_nat_64 [of n] assms(3) by simp
  moreover have "sint (slab_totalAlloc sp) = 1" using c2(2) by simp
  moreover have "sint (word_of_int (1 - int n) :: uint64) = 1 - int n"
    using assms(3) by (simp only: signed_of_int) (simp add: signed_take_bit_int_eq_self)
  then have "sint (slab_totalAlloc sp - slab_totalFree sp) = 1 - int n"
    using c2(2) free by simp
  ultimately show ?thesis using c1(1) c2(1) client_run_append [of self "cycle 1" "cycle (n - 1)"]
    by (auto simp: slab_Stats_def Let_def split)
qed

theorem pool_in_use_negative_witness:
  "\<exists>h sp. client_run 0 (cycle 3) ([], empty_slab 16, []) = Some (Ok (h, sp, [])) \<and>
    TotalAlloc (slab_Stats sp) = 1 \<and> TotalFree (slab_Stats sp) = 3 \<and> InUse (slab_Stats sp) = 1 - 3"
  using pool_in_use_negative [of 16 3 0] by simp

text \<open>
  Fact (size classes).  Up to one mebibyte the class is the least of the table that holds
  the request; beyond it the largest class is returned although it does not hold it.
\<close>

theorem size_class_least:
  "if n \<le> 1024 * 1024
   then sizeClassUpperBound n \<in> set sizeClasses \<and> n \<le> sizeClassUpperBound n \<and>
        (\<forall>c\<in>set sizeClasses. n \<le> c \<longrightarrow> sizeClassUpperBound n \<le> c)
   else sizeClassUpperBound n = 1024 * 1024"
  by (simp add: sizeClassUpperBound_def sizeClasses_def)

theorem size_class_least_witness:
  "sizeClassUpperBound 5000 \<in> set sizeClasses \<and> 5000 \<le> sizeClassUpperBound 5000 \<and> sizeClassUpperBound 5000 \<le> 8192"
  using size_class_least [of 5000] by (simp add: sizeClassUpperBound_def sizeClasses_def)

subsection \<open>The manager\<close>

definition pools_ok :: "pools \<Rightarrow> bool" where
  "pools_ok w \<longleftrightarrow>
     (\<forall>n<length (pl_nodes w). \<forall>c p. (pl_nodes w ! n) c = Some p \<longrightarrow>
        p < length (pl_slabs w) \<and> slab_size (pl_slabs w ! p) = c) \<and>
     (\<forall>n<length (pl_nodes w). \<forall>n'<length (pl_nodes w). \<forall>c c' p.
        (pl_nodes w ! n) c = Some p \<longrightarrow> (pl_nodes w ! n') c' = Some p \<longrightarrow> n = n' \<and> c = c')"

lemma getOrCreatePool_ok:
  assumes ok: "pools_ok w" and "4096 \<le> alloc_max" and n: "n < length (pl_nodes w)"
  shows "\<exists>p w'. getOrCreatePool alloc_max w n c = Some (Ok (p, w')) \<and> pools_ok w' \<and>
    (pl_nodes w' ! n) c = Some p \<and> p < length (pl_slabs w') \<and> slab_size (pl_slabs w' ! p) = c \<and>
    (\<exists>new. pl_slabs w' = pl_slabs w @ new) \<and> length (pl_nodes w') = length (pl_nodes w) \<and>
    (\<forall>n'<length (pl_nodes w). \<forall>c' p'. (pl_nodes w ! n') c' = Some p' \<longrightarrow> (pl_nodes w' ! n') c' = Some p')"
proof (cases "(pl_nodes w ! n) c")
  case None
  let ?p = "length (pl_slabs w)"
  let ?w = "w\<lparr>pl_slabs := pl_slabs w @ [empty_slab c],
    pl_nodes := (pl_nodes w)[n := (pl_nodes w ! n)(c \<mapsto> ?p)]\<rparr>"
  have "getOrCreatePool alloc_max w n c = Some (Ok (?p, ?w))"
    using None newSlabPool_eq [OF assms(2), of c] by (simp add: getOrCreatePool_def Let_def)
  moreover have "pools_ok ?w"
  proof -
    have lt: "(pl_nodes w ! m) d = Some p \<Longrightarrow> m < length (pl_nodes w) \<Longrightarrow> p < ?p \<and> slab_size (pl_slabs w ! p) = d" for m d p
      using ok unfolding pools_ok_def by blast
    have uniq: "(pl_nodes w ! m) d = Some p \<Longrightarrow> (pl_nodes w ! m') d' = Some p \<Longrightarrow>
        m < length (pl_nodes w) \<Longrightarrow> m' < length (pl_nodes w) \<Longrightarrow> m = m' \<and> d = d'" for m m' d d' p
      using ok unfolding pools_ok_def by blast
    have look: "(pl_nodes ?w ! m) d = (if m = n \<and> d = c then Some ?p else (pl_nodes w ! m) d)" for m d
      using n by (auto simp: nth_list_update)
    have len: "length (pl_nodes ?w) = length (pl_nodes w)" by simp
    have slabs: "pl_slabs ?w = pl_slabs w @ [empty_slab c]" by simp
    show ?thesis unfolding pools_ok_def look len slabs
    proof (intro conjI allI impI)
      fix m d p assume "m < length (pl_nodes w)"
        "(if m = n \<and> d = c then Some ?p else (pl_nodes w ! m) d) = Some p"
      then show "p < length (pl_slabs w @ [empty_slab c])"
        "slab_size ((pl_slabs w @ [empty_slab c]) ! p) = d"
        using lt [of m d p] by (auto simp: nth_append empty_slab_def split: if_splits)
    next
      fix m m' d d' p assume "m < length (pl_nodes w)" "m' < length (pl_nodes w)"
        "(if m = n \<and> d = c then Some ?p else (pl_nodes w ! m) d) = Some p"
        "(if m' = n \<and> d' = c then Some ?p else (pl_nodes w ! m') d') = Some p"
      then show "m = m'" "d = d'"
        using lt [of m d p] lt [of m' d' p] uniq [of m d p m' d'] by (auto split: if_splits)
    qed
  qed
  ultimately show ?thesis using n None
    by (auto simp: empty_slab_def nth_list_update)
next
  case (Some p)
  then have "p < length (pl_slabs w) \<and> slab_size (pl_slabs w ! p) = c"
    using ok n unfolding pools_ok_def by blast
  with Some ok show ?thesis by (auto simp: getOrCreatePool_def)
qed

lemma pools_ok_new:
  "NewBufferPoolManager n = Ok nodes \<Longrightarrow> pools_ok \<lparr>pl_heap = h, pl_slabs = [], pl_nodes = nodes\<rparr>"
  by (auto simp: NewBufferPoolManager_def pools_ok_def split: if_splits)

text \<open>
  Fact (pool lookup).  With one entry per NUMA node, every request finds or creates a pool
  of the class of the requested size, existing pools stay as they are, and the next request
  of the same class and node preference finds the same pool and creates nothing.
\<close>

theorem get_pool_stable:
  assumes "pools_ok w" and "4096 \<le> alloc_max" and "1 \<le> nodes" and "length (pl_nodes w) = nat nodes"
  shows "\<exists>p w'. GetPool alloc_max nodes cur w sz numa = Some (Ok (p, w')) \<and> pools_ok w' \<and>
    p < length (pl_slabs w') \<and> slab_size (pl_slabs w' ! p) = sizeClassUpperBound sz \<and>
    (\<exists>new. pl_slabs w' = pl_slabs w @ new) \<and>
    (\<forall>sz'. sizeClassUpperBound sz' = sizeClassUpperBound sz \<longrightarrow>
       GetPool alloc_max nodes cur w' sz' numa = Some (Ok (p, w')))"
proof -
  let ?n = "NUMANodeAuto nodes cur numa"
  have n: "0 \<le> ?n" "nat ?n < length (pl_nodes w)"
    using NUMANodeAuto_range [of nodes cur numa] assms(3,4) by simp_all
  from getOrCreatePool_ok [OF assms(1,2) n(2), of "sizeClassUpperBound sz"] obtain p w' where
    p: "getOrCreatePool alloc_max w (nat ?n) (sizeClassUpperBound sz) = Some (Ok (p, w'))" "pools_ok w'"
      "(pl_nodes w' ! nat ?n) (sizeClassUpperBound sz) = Some p" "p < length (pl_slabs w')"
      "slab_size (pl_slabs w' ! p) = sizeClassUpperBound sz" "\<exists>new. pl_slabs w' = pl_slabs w @ new"
      "length (pl_nodes w') = length (pl_nodes w)" by blast
  have "GetPool alloc_max nodes cur w' sz' numa = Some (Ok (p, w'))"
    if "sizeClassUpperBound sz' = sizeClassUpperBound sz" for sz'
    using p(3,7) n that by (simp add: GetPool_def getOrCreatePool_def Let_def)
  moreover have "GetPool alloc_max nodes cur w sz numa = Some (Ok (p, w'))"
    using p(1) n by (simp add: GetPool_def Let_def)
  ultimately show ?thesis using p(2,4-6) by blast
qed

theorem get_pool_stable_witness:
  "\<exists>p w'. GetPool 5000 2 0 \<lparr>pl_heap = [], pl_slabs = [], pl_nodes = [Map.empty, Map.empty]\<rparr> 100 1 = Some (Ok (p, w')) \<and>
    slab_size (pl_slabs w' ! p) = sizeClassUpperBound 100"
proof -
  let ?w = "\<lparr>pl_heap = [], pl_slabs = [], pl_nodes = [Map.empty, Map.empty]\<rparr>"
  have "NewBufferPoolManager 2 = Ok [Map.empty, Map.empty]"
    by (simp add: NewBufferPoolManager_def numeral_2_eq_2)
  from pools_ok_new [OF this] have "pools_ok ?w" .
  from get_pool_stable [OF this, of 5000 2 0 100 1] show ?thesis by auto
qed

end
