(* ===== verification/Connection.thy ===== *)
theory Connection
  imports Reassembly Pool
begin

text \<open>
  The connection object of \<^verbatim>\<open>protocol/connection.go\<close> and its receive call in direct mode:
  the transport's answer is an argument, the payloads are copied into buffers of the
  connection's pool.  The goroutines of a started connection are in the theory
  \<^verbatim>\<open>ConnLoops\<close>.
\<close>

section \<open>The connection\<close>

text \<open>
  A frame in the inbox with its \<^verbatim>\<open>Buf.Data\<close>.  The channels are their queued values; both have
  the capacity \<open>chan_size\<close>.  The handler is whether one is registered.  \<open>bufPool\<close> is the
  name of the pool.
\<close>

record inbox_frame =
  in_frame :: WSFrame
  in_Buf :: "bytes option"

record WSConnection =
  bufPool :: nat
  conn_path :: string
  inbox :: "inbox_frame list"
  outbox :: "WSFrame list"
  chan_size :: nat
  conn_handler :: bool
  done_closed :: bool
  conn_closed :: bool
  bytesReceived :: uint64
  bytesSent :: uint64
  framesReceived :: uint64
  framesSent :: uint64
  loopRunning :: bool
  sendRunning :: bool
  readBuf :: bytes

definition NewWSConnectionWithPath :: "nat \<Rightarrow> int \<Rightarrow> string \<Rightarrow> WSConnection outcome" where
  "NewWSConnectionWithPath pool channelSize path =
     (if channelSize < 0 then Panic
      else Ok \<lparr>bufPool = pool, conn_path = path, inbox = [], outbox = [], chan_size = nat channelSize,
               conn_handler = False, done_closed = False, conn_closed = False, bytesReceived = 0,
               bytesSent = 0, framesReceived = 0, framesSent = 0, loopRunning = False,
               sendRunning = False, readBuf = []\<rparr>)"

definition NewWSConnection :: "nat \<Rightarrow> int \<Rightarrow> WSConnection outcome" where
  "NewWSConnection pool channelSize = NewWSConnectionWithPath pool channelSize []"

definition GetStats :: "'a WSConnection_scheme \<Rightarrow> (string \<times> int) list" where
  "GetStats c = [(''bytes_received'', sint (bytesReceived c)), (''bytes_sent'', sint (bytesSent c)),
     (''frames_received'', sint (framesReceived c)), (''frames_sent'', sint (framesSent c))]"

definition count_received :: "WSFrame \<Rightarrow> 'a WSConnection_scheme \<Rightarrow> 'a WSConnection_scheme" where
  "count_received f c = c\<lparr>framesReceived := framesReceived c + 1,
     bytesReceived := bytesReceived c + word_of_int (PayloadLen f)\<rparr>"

section \<open>RecvZeroCopy\<close>

definition trim_payload :: "WSFrame \<Rightarrow> bytes" where
  "trim_payload f =
     (if int (length (Payload f)) > PayloadLen f then take (nat (PayloadLen f)) (Payload f)
      else Payload f)"

text \<open>A buffer of the pool with the payload copied in, cut to what was copied.\<close>

definition payload_buffer :: "pools \<Rightarrow> nat \<Rightarrow> bytes \<Rightarrow> (Buffer \<times> pools) outcome option" where
  "payload_buffer w p payload =
     bind_loop (pool_Get w p (int (length payload)) (- 1)) (\<lambda>(buf, w').
       let n = min (data_len buf) (length payload);
           h = (case Data buf of None \<Rightarrow> pl_heap w' | Some s \<Rightarrow> copy_into (pl_heap w') s (take n payload))
       in Some (Ok (Buffer_Slice buf 0 (int n), w'\<lparr>pl_heap := h\<rparr>)))"

text \<open>Loop mode, once a frame was taken from the inbox: its own buffer, or a pooled copy.\<close>

datatype recv_buffer = Aliased bytes | Pooled Buffer

definition recv_inbox :: "pools \<Rightarrow> nat \<Rightarrow> inbox_frame \<Rightarrow> (recv_buffer list \<times> pools) outcome option" where
  "recv_inbox w p q =
     (if PayloadLen (in_frame q) < 0 \<or> PayloadLen (in_frame q) > MaxFramePayload then Some (Ok ([], w))
      else case in_Buf q of
        Some d \<Rightarrow> Some (Ok ([Aliased d], w))
      | None \<Rightarrow> bind_loop (payload_buffer w p (trim_payload (in_frame q)))
                  (\<lambda>(b, w'). Some (Ok ([Pooled b], w'))))"

text \<open>The contents of a received buffer, and its release: one that aliases the read buffer has no pool to go to.\<close>

definition recv_bytes :: "heap \<Rightarrow> recv_buffer \<Rightarrow> bytes" where
  "recv_bytes h b = (case b of Aliased d \<Rightarrow> d | Pooled b \<Rightarrow> Buffer_Copy h b)"

definition recv_release :: "pools \<Rightarrow> recv_buffer \<Rightarrow> pools outcome option" where
  "recv_release w b = (case b of Aliased d \<Rightarrow> Some (Ok w) | Pooled b \<Rightarrow> Buffer_Release w b)"

text \<open>Direct mode: the decoding loop.  An error discards the buffers gathered so far.\<close>

function recv_frames ::
  "pools \<Rightarrow> 'a WSConnection_scheme \<Rightarrow> Buffer list \<Rightarrow>
     (Buffer list outcome \<times> 'a WSConnection_scheme \<times> pools) option" where
  "recv_frames w c result =
     (if readBuf c = [] then Some (Ok result, c, w)
      else case DecodeFrameFromBytes (readBuf c) of
        (DecodeErr e, b) \<Rightarrow> Some (Err e, c\<lparr>readBuf := b\<rparr>, w)
      | (DecodePanic, b) \<Rightarrow> Some (Panic, c\<lparr>readBuf := b\<rparr>, w)
      | (Incomplete, b) \<Rightarrow> Some (Ok result, c\<lparr>readBuf := b\<rparr>, w)
      | (Decoded f n, b) \<Rightarrow>
          if PayloadLen f < 0 \<or> PayloadLen f > MaxFramePayload
          then recv_frames w (c\<lparr>readBuf := drop n b\<rparr>) result
          else
            (case payload_buffer w (bufPool c) (trim_payload f) of
               None \<Rightarrow> None
             | Some (Ok (buf, w')) \<Rightarrow>
                 recv_frames w' (count_received f c\<lparr>readBuf := drop n b\<rparr>) (result @ [buf])
             | Some (Err e) \<Rightarrow> Some (Err e, count_received f c\<lparr>readBuf := b\<rparr>, w)
             | Some Panic \<Rightarrow> Some (Panic, count_received f c\<lparr>readBuf := b\<rparr>, w)))"
  by pat_completeness auto

termination
proof (relation "measure (\<lambda>(w, c, result). length (readBuf c))", goal_cases)
  case 1
  then show ?case by simp
next
  case (2 w c result d b f n)
  then have "DecodeFrameFromBytes (readBuf c) = (Decoded f n, b)" by simp
  from Decoded_bounds [OF this] show ?case by (simp add: count_received_def)
next
  case (3 w c result d b f n)
  then have "DecodeFrameFromBytes (readBuf c) = (Decoded f n, b)" by simp
  from Decoded_bounds [OF this] show ?case by (simp add: count_received_def)
qed

declare recv_frames.simps [simp del]

definition RecvZeroCopy_direct ::
  "pools \<Rightarrow> 'a WSConnection_scheme \<Rightarrow> bytes list outcome \<Rightarrow>
     (Buffer list outcome \<times> 'a WSConnection_scheme \<times> pools) option" where
  "RecvZeroCopy_direct w c transport_Recv =
     (case transport_Recv of
        Err e \<Rightarrow> Some (Err e, c, w)
      | Panic \<Rightarrow> Some (Panic, c, w)
      | Ok raws \<Rightarrow> recv_frames w (c\<lparr>readBuf := readBuf c @ concat raws\<rparr>) [])"

section \<open>Lemmas\<close>

lemma recv_frames_Decoded:
  assumes "fst (DecodeFrameFromBytes (readBuf c)) = Decoded f n"
  shows "recv_frames w c result =
    (case payload_buffer w (bufPool c) (Payload f) of
       None \<Rightarrow> None
     | Some (Ok (buf, w')) \<Rightarrow>
         recv_frames w' (count_received f c\<lparr>readBuf := drop n (readBuf c)\<rparr>) (result @ [buf])
     | Some (Err e) \<Rightarrow> Some (Err e, count_received f c\<lparr>readBuf := snd (DecodeFrameFromBytes (readBuf c))\<rparr>, w)
     | Some Panic \<Rightarrow> Some (Panic, count_received f c\<lparr>readBuf := snd (DecodeFrameFromBytes (readBuf c))\<rparr>, w))"
proof -
  obtain b where d: "DecodeFrameFromBytes (readBuf c) = (Decoded f n, b)"
    using assms by (metis prod.collapse)
  note bd = Decoded_bounds [OF d]
  have "readBuf c \<noteq> []" using bd by auto
  moreover have "trim_payload f = Payload f" "\<not> PayloadLen f < 0" "\<not> PayloadLen f > MaxFramePayload"
    using bd(5,6) by (auto simp: trim_payload_def)
  ultimately show ?thesis using d bd(4)
    by (subst recv_frames.simps) (simp split: option.split outcome.split)
qed

text \<open>
  A pool in good order, with the buffers \<open>held\<close> outside it: nothing shares memory and what the
  pool keeps has the size of its class.
\<close>

definition pool_ok :: "pools \<Rightarrow> nat \<Rightarrow> Buffer list \<Rightarrow> bool" where
  "pool_ok w p held \<longleftrightarrow> p < length (pl_slabs w) \<and> client_ok (pl_heap w, pl_slabs w ! p, held) \<and>
     (\<forall>b\<in>set (rb_items (slab_queue (pl_slabs w ! p))). int (data_len b) = slab_size (pl_slabs w ! p))"

lemma Buffer_Copy_grow: "buf_ok h b \<Longrightarrow> Buffer_Copy (h @ h') b = Buffer_Copy h b"
  by (auto simp: Buffer_Copy_def buf_ok_def slice_ok_def slice_bytes_def nth_append split: option.splits)

lemma Buffer_Copy_other:
  assumes "distinct (arrays (b # held))" "x \<in> set held" "Data b = Some s"
  shows "Buffer_Copy (copy_into h s bs) x = Buffer_Copy h x"
proof (cases "Data x")
  case (Some t)
  have "sl_arr t \<in> set (arrays held)" using assms(2) Some by (force simp: arrays_def)
  with assms(1,3) have "sl_arr s \<noteq> sl_arr t" by auto
  then show ?thesis using Some by (simp add: Buffer_Copy_def slice_bytes_def copy_into_def Let_def)
qed (simp add: Buffer_Copy_def)

lemma Buffer_Copy_written:
  assumes "buf_ok h b" "Data b = Some s" "n = min (data_len b) (length bs)"
  shows "Buffer_Copy (copy_into h s (take n bs)) (Buffer_Slice b 0 (int n)) = take (data_len b) bs"
proof -
  let ?a = "h ! sl_arr s"
  have s: "sl_arr s < length h" "sl_off s + sl_len s \<le> length ?a"
    using assms(1,2) by (auto simp: buf_ok_def slice_ok_def)
  have n: "n \<le> sl_len s" "n \<le> length bs" "data_len b = sl_len s"
    using assms(2,3) by (auto simp: data_len_def)
  have min: "min (sl_len s) (length (take n bs)) = n" using n by simp
  have "copy_into h s (take n bs) ! sl_arr s = take (sl_off s) ?a @ take n bs @ drop (sl_off s + n) ?a"
    using s(1) by (simp only: copy_into_def Let_def min nth_list_update_eq take_take min.idem)
  moreover have "take n (drop (sl_off s) (take (sl_off s) ?a @ take n bs @ drop (sl_off s + n) ?a)) = take n bs"
    using s(2) n by simp
  ultimately have "Buffer_Copy (copy_into h s (take n bs)) (Buffer_Slice b 0 (int n)) = take n bs"
    using n assms(2) by (simp add: Buffer_Copy_def Buffer_Slice_def slice_bytes_def)
  also have "take n bs = take (data_len b) bs" using assms(3) by (simp add: min_def)
  finally show ?thesis .
qed

lemma pool_Get_ok:
  assumes "pool_ok w p held"
  shows "\<exists>b w'. pool_Get w p sz numa = Some (Ok (b, w')) \<and> pool_ok w' p (b # held) \<and>
    int (data_len b) = slab_size (pl_slabs w ! p) \<and> slab_size (pl_slabs w' ! p) = slab_size (pl_slabs w ! p) \<and>
    (\<forall>x\<in>set held. Buffer_Copy (pl_heap w') x = Buffer_Copy (pl_heap w) x) \<and>
    length (pl_slabs w') = length (pl_slabs w) \<and> pl_nodes w' = pl_nodes w"
proof -
  let ?sp = "pl_slabs w ! p" and ?h = "pl_heap w"
  have p: "p < length (pl_slabs w)" and ok: "client_ok (?h, ?sp, held)"
    and full: "\<forall>b\<in>set (rb_items (slab_queue ?sp)). int (data_len b) = slab_size ?sp"
    using assms by (auto simp: pool_ok_def)
  from ok have inv: "rb_inv 0 (slab_queue ?sp)" "0 \<le> slab_size ?sp" and held: "\<forall>x\<in>set held. buf_ok ?h x"
    by (auto simp: client_ok_def)
  from client_Get [OF ok, of p sz numa] obtain h' sp' b where
    get: "slab_Get p ?h ?sp sz numa = Some (Ok (b, h', sp'))" "client_ok (h', sp', b # held)"
    "slab_size sp' = slab_size ?sp" by (auto simp: bind_loop_eq_Ok)
  have new: "int (data_len b) = slab_size ?sp \<and> set (rb_items (slab_queue sp')) \<subseteq> set (rb_items (slab_queue ?sp)) \<and>
      (\<exists>g. h' = ?h @ g)"
  proof (cases "rb_items (slab_queue ?sp)")
    case Nil
    from slab_Get_fresh [OF inv(1) Nil inv(2), of p ?h sz numa] get(1) inv(2) show ?thesis
      by (auto simp: fresh_buffer_def data_len_def)
  next
    case (Cons x xs)
    from slab_Get_pooled [OF inv(1) Cons, of p ?h sz numa] get(1) Cons full show ?thesis by auto
  qed
  let ?w = "w\<lparr>pl_heap := h', pl_slabs := (pl_slabs w)[p := sp']\<rparr>"
  have "pool_Get w p sz numa = Some (Ok (b, ?w))" using get(1) by (simp add: pool_Get_def)
  moreover have "pool_ok ?w p (b # held)" using new get p full by (auto simp: pool_ok_def)
  moreover have "\<forall>x\<in>set held. Buffer_Copy h' x = Buffer_Copy ?h x"
    using new held Buffer_Copy_grow by blast
  ultimately show ?thesis using new get(3) p by (intro exI [of _ b] exI [of _ ?w]) simp
qed

lemma payload_buffer_ok:
  assumes "pool_ok w p held"
  shows "\<exists>b w'. payload_buffer w p bs = Some (Ok (b, w')) \<and> pool_ok w' p (b # held) \<and>
    Buffer_Copy (pl_heap w') b = take (nat (slab_size (pl_slabs w ! p))) bs \<and>
    (\<forall>x\<in>set held. Buffer_Copy (pl_heap w') x = Buffer_Copy (pl_heap w) x) \<and>
    slab_size (pl_slabs w' ! p) = slab_size (pl_slabs w ! p)"
proof -
  from pool_Get_ok [OF assms, of "int (length bs)" "- 1"] obtain b w1 where
    get: "pool_Get w p (int (length bs)) (- 1) = Some (Ok (b, w1))" "pool_ok w1 p (b # held)"
    "int (data_len b) = slab_size (pl_slabs w ! p)" "slab_size (pl_slabs w1 ! p) = slab_size (pl_slabs w ! p)"
    "\<forall>x\<in>set held. Buffer_Copy (pl_heap w1) x = Buffer_Copy (pl_heap w) x" by blast
  let ?n = "min (data_len b) (length bs)" and ?sp = "pl_slabs w1 ! p"
  let ?h = "case Data b of None \<Rightarrow> pl_heap w1 | Some s \<Rightarrow> copy_into (pl_heap w1) s (take ?n bs)"
  let ?b = "Buffer_Slice b 0 (int ?n)"
  have ok1: "client_ok (pl_heap w1, ?sp, b # held)" using get(2) by (simp add: pool_ok_def)
  then have b_ok: "buf_ok (pl_heap w1) b" and dist: "distinct (arrays (b # held))" by (auto simp: client_ok_def)
  from client_Write [OF ok1, of p 0 "take ?n bs"] have "client_ok (?h, ?sp, b # held)" by auto
  from client_Slice [OF this, of p 0 0 "int ?n"] have "client_ok (?h, ?sp, ?b # held)" by auto
  then have "pool_ok (w1\<lparr>pl_heap := ?h\<rparr>) p (?b # held)" using get(2) by (simp add: pool_ok_def)
  moreover have "Buffer_Copy ?h ?b = take (data_len b) bs"
  proof (cases "Data b")
    case (Some s)
    then show ?thesis using Buffer_Copy_written [OF b_ok Some refl, of bs] by simp
  qed (simp add: Buffer_Copy_def Buffer_Slice_def data_len_def)
  moreover have "\<forall>x\<in>set held. Buffer_Copy ?h x = Buffer_Copy (pl_heap w) x"
    using get(5) Buffer_Copy_other [OF dist] by (auto split: option.split)
  moreover have "nat (slab_size (pl_slabs w ! p)) = data_len b" using get(3) by simp
  moreover have "payload_buffer w p bs = Some (Ok (?b, w1\<lparr>pl_heap := ?h\<rparr>))"
    using get(1) by (simp add: payload_buffer_def Let_def)
  ultimately show ?thesis using get(4) by (intro exI [of _ ?b] exI [of _ "w1\<lparr>pl_heap := ?h\<rparr>"]) simp
qed

definition recv_result :: "stop \<Rightarrow> Buffer list \<Rightarrow> Buffer list outcome" where
  "recv_result st bufs = (case st of Waiting \<Rightarrow> Ok bufs | Failed e \<Rightarrow> Err e | Crashed \<Rightarrow> Panic)"

lemma recv_frames_stuck:
  assumes "\<And>f n. fst (DecodeFrameFromBytes (readBuf c)) \<noteq> Decoded f n"
  shows "\<exists>rest st. drain (readBuf c) = ([], rest, st) \<and>
    recv_frames w c result = Some (recv_result st result, c\<lparr>readBuf := rest\<rparr>, w)"
proof (cases "readBuf c = []")
  case True
  then show ?thesis by (subst recv_frames.simps) (simp add: recv_result_def)
next
  case False
  obtain d b where d: "DecodeFrameFromBytes (readBuf c) = (d, b)" by fastforce
  define st where "st = (case d of DecodeErr e \<Rightarrow> Failed e | DecodePanic \<Rightarrow> Crashed | _ \<Rightarrow> Waiting)"
  have nd: "\<nexists>f n. d = Decoded f n" using assms d by (metis fst_conv)
  have "drain (readBuf c) = ([], b, st)"
    using False d nd by (subst drain.simps) (cases d; simp add: st_def)
  moreover have "recv_frames w c result = Some (recv_result st result, c\<lparr>readBuf := b\<rparr>, w)"
    using False d nd by (subst recv_frames.simps) (cases d; simp add: st_def recv_result_def)
  ultimately show ?thesis by (intro exI conjI)
qed

lemma recv_frames_drain_full:
  assumes "pool_ok w (bufPool c) (rev result @ held)" and "drain (readBuf c) = (fs, rest, st)"
  shows "\<exists>bufs c' w'. recv_frames w c result = Some (recv_result st (result @ bufs), c', w') \<and>
    map (Buffer_Copy (pl_heap w')) bufs = map (\<lambda>f. take (nat (slab_size (pl_slabs w ! bufPool c))) (Payload f)) fs \<and>
    pool_ok w' (bufPool c) (rev (result @ bufs) @ held) \<and>
    (\<forall>x\<in>set (result @ held). Buffer_Copy (pl_heap w') x = Buffer_Copy (pl_heap w) x) \<and>
    readBuf c' = rest \<and> framesReceived c' = framesReceived c + of_nat (length fs) \<and>
    bytesReceived c' = bytesReceived c + of_nat (sum_list (map (\<lambda>f. length (Payload f)) fs)) \<and>
    bufPool c' = bufPool c \<and> slab_size (pl_slabs w' ! bufPool c) = slab_size (pl_slabs w ! bufPool c)"
  using assms
proof (induction "length (readBuf c)" arbitrary: w c result fs rule: less_induct)
  case less
  show ?case
  proof (cases "\<exists>f n. fst (DecodeFrameFromBytes (readBuf c)) = Decoded f n")
    case False
    then have "\<And>f n. fst (DecodeFrameFromBytes (readBuf c)) \<noteq> Decoded f n" by blast
    from recv_frames_stuck [OF this, of w result] less.prems(2)
    have "recv_frames w c result = Some (recv_result st (result @ []), c\<lparr>readBuf := rest\<rparr>, w)" "fs = []"
      by auto
    with less.prems(1) show ?thesis
      by (intro exI [of _ "[]"] exI [of _ "c\<lparr>readBuf := rest\<rparr>"] exI [of _ w]) simp
  next
    case True
    then obtain f n b where d: "DecodeFrameFromBytes (readBuf c) = (Decoded f n, b)"
      by (metis prod.collapse)
    note bd = Decoded_bounds [OF d]
    have dec: "fst (DecodeFrameFromBytes (readBuf c)) = Decoded f n" using d by simp
    obtain fs' where fs: "fs = f # fs'" "drain (drop n (readBuf c)) = (fs', rest, st)"
      using drain_Decoded [OF dec] less.prems(2) by (auto simp: Let_def split: prod.splits)
    from payload_buffer_ok [OF less.prems(1), of "Payload f"] obtain x w1 where
      x: "payload_buffer w (bufPool c) (Payload f) = Some (Ok (x, w1))"
        "pool_ok w1 (bufPool c) (rev (result @ [x]) @ held)"
        "Buffer_Copy (pl_heap w1) x = take (nat (slab_size (pl_slabs w ! bufPool c))) (Payload f)"
        "\<forall>y\<in>set (rev result @ held). Buffer_Copy (pl_heap w1) y = Buffer_Copy (pl_heap w) y"
        "slab_size (pl_slabs w1 ! bufPool c) = slab_size (pl_slabs w ! bufPool c)" by auto
    let ?c = "count_received f c\<lparr>readBuf := drop n (readBuf c)\<rparr>"
    have c: "bufPool ?c = bufPool c" "readBuf ?c = drop n (readBuf c)"
      "framesReceived ?c = framesReceived c + 1"
      "bytesReceived ?c = bytesReceived c + of_nat (length (Payload f))"
      using bd(5) by (simp_all add: count_received_def)
    have "length (readBuf ?c) < length (readBuf c)" using bd c(2) by simp
    note hyp = less.hyps [OF this, of w1 "result @ [x]" fs', unfolded c, OF x(2) fs(2)]
    then obtain bufs c' w' where IH:
      "recv_frames w1 ?c (result @ [x]) = Some (recv_result st ((result @ [x]) @ bufs), c', w')"
      "map (Buffer_Copy (pl_heap w')) bufs = map (\<lambda>f. take (nat (slab_size (pl_slabs w1 ! bufPool c))) (Payload f)) fs'"
      "pool_ok w' (bufPool c) (rev ((result @ [x]) @ bufs) @ held)"
      "\<forall>y\<in>set ((result @ [x]) @ held). Buffer_Copy (pl_heap w') y = Buffer_Copy (pl_heap w1) y"
      "readBuf c' = rest" "framesReceived c' = framesReceived c + 1 + of_nat (length fs')"
      "bytesReceived c' = bytesReceived c + of_nat (length (Payload f)) + of_nat (sum_list (map (\<lambda>f. length (Payload f)) fs'))"
      "bufPool c' = bufPool c" "slab_size (pl_slabs w' ! bufPool c) = slab_size (pl_slabs w1 ! bufPool c)"
      by (elim exE conjE) (rule that)
    have "recv_frames w c result = Some (recv_result st (result @ x # bufs), c', w')"
      using recv_frames_Decoded [OF dec] x(1) IH(1) by simp
    moreover have "map (Buffer_Copy (pl_heap w')) (x # bufs) =
        map (\<lambda>f. take (nat (slab_size (pl_slabs w ! bufPool c))) (Payload f)) fs"
      using IH(2,4) x(3,5) fs(1) by simp
    moreover have "bytesReceived c' = bytesReceived c + of_nat (sum_list (map (\<lambda>f. length (Payload f)) fs))"
      using IH(7) fs(1) by simp
    moreover have "slab_size (pl_slabs w' ! bufPool c) = slab_size (pl_slabs w ! bufPool c)" using IH(9) x(5) by simp
    moreover have "framesReceived c' = framesReceived c + of_nat (length fs)"
      using IH(6) fs(1) by simp
    moreover have "\<forall>y\<in>set (result @ held). Buffer_Copy (pl_heap w') y = Buffer_Copy (pl_heap w) y"
      using IH(4) x(4) by simp
    moreover have "pool_ok w' (bufPool c) (rev (result @ x # bufs) @ held)" using IH(3) by simp
    ultimately show ?thesis using IH(5,8)
      by (intro exI [of _ "x # bufs"] exI [of _ c'] exI [of _ w'] conjI)
  qed
qed

lemma recv_frames_drain:
  assumes "pool_ok w (bufPool c) (rev result @ held)" and "drain (readBuf c) = (fs, rest, st)"
  shows "\<exists>bufs c' w'. recv_frames w c result = Some (recv_result st (result @ bufs), c', w') \<and>
    map (Buffer_Copy (pl_heap w')) bufs = map (\<lambda>f. take (nat (slab_size (pl_slabs w ! bufPool c))) (Payload f)) fs \<and>
    pool_ok w' (bufPool c) (rev (result @ bufs) @ held) \<and>
    (\<forall>x\<in>set (result @ held). Buffer_Copy (pl_heap w') x = Buffer_Copy (pl_heap w) x) \<and>
    readBuf c' = rest \<and> framesReceived c' = framesReceived c + of_nat (length fs) \<and>
    bytesReceived c' = bytesReceived c + of_nat (sum_list (map (\<lambda>f. length (Payload f)) fs))"
  using recv_frames_drain_full [OF assms] by (elim exE conjE) (intro exI conjI; assumption)

section \<open>Properties\<close>


definition one_pool :: pools where
  "one_pool = \<lparr>pl_heap = [], pl_slabs = [empty_slab 4096], pl_nodes = []\<rparr>"

definition idle_conn :: WSConnection where
  "idle_conn = \<lparr>bufPool = 0, conn_path = [], inbox = [], outbox = [], chan_size = 1,
     conn_handler = False, done_closed = False, conn_closed = False, bytesReceived = 0,
     bytesSent = 0, framesReceived = 0, framesSent = 0, loopRunning = False,
     sendRunning = False, readBuf = []\<rparr>"

lemma one_pool_ok: "pool_ok one_pool 0 []"
  using empty_slab_ok [of 4096] rb_fresh_inv [of 12]
  by (simp add: pool_ok_def one_pool_def client_ok_def empty_slab_def)


end
