(* ===== verification/GoStrings.thy ===== *)
theory GoStrings
  imports Prelude
begin

text \<open>
  The routines of the standard packages \<^verbatim>\<open>strings\<close> and \<^verbatim>\<open>regexp\<close> that the handshake and the router
  call, on ASCII strings, and their laws.
\<close>

section \<open>Package strings\<close>

definition char_code :: "char \<Rightarrow> nat" where
  "char_code c = of_char c"

definition lower_char :: "char \<Rightarrow> char" where
  "lower_char c = (if 65 \<le> char_code c \<and> char_code c \<le> 90 then char_of (char_code c + 32) else c)"

definition upper_char :: "char \<Rightarrow> char" where
  "upper_char c = (if 97 \<le> char_code c \<and> char_code c \<le> 122 then char_of (char_code c - 32) else c)"

definition ToLower :: "string \<Rightarrow> string" where
  "ToLower s = map lower_char s"

definition is_space :: "char \<Rightarrow> bool" where
  "is_space c \<longleftrightarrow> char_code c = 32 \<or> 9 \<le> char_code c \<and> char_code c \<le> 13"

definition TrimSpace :: "string \<Rightarrow> string" where
  "TrimSpace s = rev (dropWhile is_space (rev (dropWhile is_space s)))"

text \<open>\<^verbatim>\<open>strings.Split\<close> at one character: always at least one part.\<close>

fun split_at_char :: "char \<Rightarrow> string \<Rightarrow> string list" where
  "split_at_char sep [] = [[]]"
| "split_at_char sep (c # cs) =
     (if c = sep then [] # split_at_char sep cs
      else (case split_at_char sep cs of
              part # parts \<Rightarrow> (c # part) # parts
            | [] \<Rightarrow> [[c]]))"

text \<open>\<^verbatim>\<open>strings.Join\<close> with one character.\<close>

fun join_char :: "char \<Rightarrow> string list \<Rightarrow> string" where
  "join_char sep [] = []"
| "join_char sep [s] = s"
| "join_char sep (s # t # ss) = s @ sep # join_char sep (t # ss)"

definition HasPrefix :: "string \<Rightarrow> string \<Rightarrow> bool" where
  "HasPrefix s p \<longleftrightarrow> take (length p) s = p"

definition HasSuffix :: "string \<Rightarrow> string \<Rightarrow> bool" where
  "HasSuffix s p \<longleftrightarrow> length p \<le> length s \<and> drop (length s - length p) s = p"

lemma split_at_char_ne [simp]: "split_at_char c s \<noteq> []"
  by (induction s) (auto split: list.split)

lemma split_at_char_no_sep: "c \<notin> set s \<Longrightarrow> split_at_char c s = [s]"
  by (induction s) auto

lemma split_at_char_append: "c \<notin> set s \<Longrightarrow> split_at_char c (s @ c # t) = s # split_at_char c t"
  by (induction s) auto

lemma split_at_char_parts: "part \<in> set (split_at_char c s) \<Longrightarrow> c \<notin> set part"
proof (induction s arbitrary: part)
  case (Cons d s)
  obtain q qs where q: "split_at_char c s = q # qs" by (cases "split_at_char c s") simp_all
  show ?case
  proof (cases "d = c")
    case True
    then show ?thesis using Cons by auto
  next
    case False
    then have "part = d # q \<or> part \<in> set qs" using Cons.prems q by auto
    then show ?thesis using Cons.IH q False by auto
  qed
qed simp

lemma join_split: "join_char c (split_at_char c s) = s"
proof (induction s)
  case (Cons d s)
  obtain q qs where q: "split_at_char c s = q # qs" by (cases "split_at_char c s") simp_all
  then show ?case using Cons by (cases qs) auto
qed simp

lemma split_join:
  "ss \<noteq> [] \<Longrightarrow> \<forall>s\<in>set ss. c \<notin> set s \<Longrightarrow> split_at_char c (join_char c ss) = ss"
  by (induction c ss rule: join_char.induct) (simp_all add: split_at_char_no_sep split_at_char_append)

lemma HasPrefix_char: "HasPrefix s [c] \<longleftrightarrow> (\<exists>t. s = c # t)"
  by (cases s) (auto simp: HasPrefix_def)

lemma HasSuffix_char: "HasSuffix s [c] \<longleftrightarrow> (\<exists>t. s = t @ [c])"
  by (cases s rule: rev_cases) (auto simp: HasSuffix_def)

section \<open>Package regexp\<close>

text \<open>
  The expressions the router builds itself are literals and the group \<^verbatim>\<open>([^/]+)\<close>, anchored at both
  ends.  \<open>re_parse\<close> reads such an expression; \<open>re_match\<close> is the leftmost greedy match of the
  whole text and its groups.
\<close>

datatype re_item = ReLit char | ReSeg

function re_parse :: "string \<Rightarrow> re_item list" where
  "re_parse [] = []"
| "re_parse (c # s) =
     (if take 7 (c # s) = ''([^/]+)'' then ReSeg # re_parse (drop 6 s)
      else if c = CHR 0x5C then (case s of [] \<Rightarrow> [] | d # t \<Rightarrow> ReLit d # re_parse t)
      else ReLit c # re_parse s)"
  by pat_completeness auto
termination
  by (relation "measure length") auto

fun re_seg :: "(string \<Rightarrow> string list option) \<Rightarrow> nat \<Rightarrow> string \<Rightarrow> string list option" where
  "re_seg k 0 s = None"
| "re_seg k (Suc n) s =
     (case k (drop (Suc n) s) of
        Some caps \<Rightarrow> Some (take (Suc n) s # caps)
      | None \<Rightarrow> re_seg k n s)"

primrec re_match :: "re_item list \<Rightarrow> string \<Rightarrow> string list option" where
  "re_match [] = (\<lambda>s. if s = [] then Some [] else None)"
| "re_match (i # r) = (\<lambda>s.
     case i of
       ReLit c \<Rightarrow> (case s of d # t \<Rightarrow> if c = d then re_match r t else None | [] \<Rightarrow> None)
     | ReSeg \<Rightarrow> re_seg (re_match r) (length (takeWhile (\<lambda>c. c \<noteq> CHR ''/'') s)) s)"

definition re_special :: string where
  "re_special = CHR 0x5C # ''.+*?()|[]{}^$''"

definition QuoteMeta :: "string \<Rightarrow> string" where
  "QuoteMeta s = concat (map (\<lambda>c. if c \<in> set re_special then [CHR 0x5C, c] else [c]) s)"

lemma QuoteMeta_simps [simp]:
  "QuoteMeta [] = []"
  "QuoteMeta (c # s) = (if c \<in> set re_special then [CHR 0x5C, c] else [c]) @ QuoteMeta s"
  by (simp_all add: QuoteMeta_def)

lemma re_parse_lit: "c \<notin> set re_special \<Longrightarrow> re_parse (c # s) = ReLit c # re_parse s"
  by (auto simp: re_special_def)

lemma re_parse_esc: "re_parse (CHR 0x5C # c # s) = ReLit c # re_parse s"
  by simp

lemma re_parse_seg: "re_parse (''([^/]+)'' @ s) = ReSeg # re_parse s"
  by simp

lemma re_parse_quote: "re_parse (QuoteMeta s @ u) = map ReLit s @ re_parse u"
  by (induction s) (simp_all add: re_parse_lit re_parse_esc del: re_parse.simps)

lemma re_match_lits: "re_match (map ReLit s @ r) t =
    (if take (length s) t = s \<and> length s \<le> length t then re_match r (drop (length s) t) else None)"
  by (induction s arbitrary: t) (auto split: list.split)

lemma quoted_matches_only_itself: "re_match (re_parse (QuoteMeta s)) t \<noteq> None \<longleftrightarrow> t = s"
proof -
  have "re_parse (QuoteMeta s) = map ReLit s" using re_parse_quote [of s "[]"] by simp
  then show ?thesis using re_match_lits [of s "[]" t] by (auto dest: take_all)
qed

lemma re_seg_exact:
  assumes "CHR ''/'' \<notin> set t" and "\<And>c w. c \<noteq> CHR ''/'' \<Longrightarrow> k (c # w) = None"
  shows "re_seg k (length t) (t @ u) = (if t = [] then None else map_option (Cons t) (k u))"
proof -
  have low: "re_seg k n (t @ u) = None" if "n < length t" for n
    using that
  proof (induction n)
    case (Suc n)
    have "drop (Suc n) (t @ u) = (t ! Suc n) # drop (Suc (Suc n)) t @ u"
      using Suc.prems by (simp add: Cons_nth_drop_Suc)
    moreover have "t ! Suc n \<noteq> CHR ''/''" using assms(1) Suc.prems by (metis nth_mem)
    ultimately have "k (drop (Suc n) (t @ u)) = None" using assms(2) by simp
    then show ?case using Suc by simp
  qed simp
  show ?thesis
  proof (cases t rule: rev_cases)
    case (snoc t' c)
    then have "length t = Suc (length t')" by simp
    then show ?thesis using low [of "length t'"] by (auto split: option.split)
  qed simp
qed

end
