(* ===== verification/Handshake.thy ===== *)
theory Handshake
  imports GoStrings "HOL-Library.Multiset"
begin

unbundle bit_operations_syntax

text \<open>
  The opening handshake, \<^verbatim>\<open>protocol/handshake.go\<close>: the checks on the upgrade request, the
  \<^verbatim>\<open>Sec-WebSocket-Accept\<close> value, the response and the client's check of it.  The request and
  the response are given as \<^verbatim>\<open>net/http\<close> parsed them; header names and values are ASCII.  The
  library routines the file calls (SHA-1, base64, header lookup) are defined here, those of
  \<^verbatim>\<open>strings\<close> in the theory of strings.
\<close>

section \<open>Headers of the standard library\<close>

text \<open>
  A header is listed in the order in which \<^verbatim>\<open>range\<close> visits it, which Go leaves open.
\<close>

type_synonym header = "(string \<times> string list) list"

definition token_char :: "char \<Rightarrow> bool" where
  "token_char c \<longleftrightarrow>
     (48 \<le> char_code c \<and> char_code c \<le> 57) \<or> (65 \<le> char_code c \<and> char_code c \<le> 90) \<or>
     (97 \<le> char_code c \<and> char_code c \<le> 122) \<or> c \<in> set ''!#$%&*+-.^_|~'' \<or>
     char_code c = 39 \<or> char_code c = 96"

fun canonical :: "bool \<Rightarrow> string \<Rightarrow> string" where
  "canonical upper [] = []"
| "canonical upper (c # cs) =
     (if upper then upper_char c else lower_char c) # canonical (c = CHR ''-'') cs"

definition CanonicalHeaderKey :: "string \<Rightarrow> string" where
  "CanonicalHeaderKey s = (if list_all token_char s then canonical True s else s)"

definition header_values :: "header \<Rightarrow> string \<Rightarrow> string list" where
  "header_values h name = (case map_of h (CanonicalHeaderKey name) of Some vs \<Rightarrow> vs | None \<Rightarrow> [])"

definition header_Get :: "header \<Rightarrow> string \<Rightarrow> string" where
  "header_Get h name = (case header_values h name of v # _ \<Rightarrow> v | [] \<Rightarrow> [])"

definition header_Set :: "header \<Rightarrow> string \<Rightarrow> string \<Rightarrow> header" where
  "header_Set h name v =
     (let k = CanonicalHeaderKey name in filter (\<lambda>(k', _). k' \<noteq> k) h @ [(k, [v])])"

section \<open>SHA-1 and base64\<close>

definition rotl32 :: "nat \<Rightarrow> uint32 \<Rightarrow> uint32" where
  "rotl32 n w = push_bit n w OR drop_bit (32 - n) w"

definition sha1_pad :: "bytes \<Rightarrow> bytes" where
  "sha1_pad m = m @ [0x80] @ replicate ((119 - length m mod 64) mod 64) 0 @
     be_encode 8 (of_nat (8 * length m) :: uint64)"

fun chunks_of :: "nat \<Rightarrow> nat \<Rightarrow> bytes \<Rightarrow> bytes list" where
  "chunks_of 0 n bs = []"
| "chunks_of (Suc k) n bs = take n bs # chunks_of k n (drop n bs)"

text \<open>The message schedule, most recent word first: word \<open>t\<close> depends on the 3rd, 8th, 14th and 16th last.\<close>

fun sha1_schedule :: "nat \<Rightarrow> uint32 list \<Rightarrow> uint32 list" where
  "sha1_schedule 0 ws = ws"
| "sha1_schedule (Suc k) ws =
     sha1_schedule k (rotl32 1 (ws ! 2 XOR ws ! 7 XOR ws ! 13 XOR ws ! 15) # ws)"

record sha1_state =
  sA :: uint32
  sB :: uint32
  sC :: uint32
  sD :: uint32
  sE :: uint32

definition sha1_init :: sha1_state where
  "sha1_init = \<lparr>sA = 0x67452301, sB = 0xEFCDAB89, sC = 0x98BADCFE, sD = 0x10325476, sE = 0xC3D2E1F0\<rparr>"

definition sha1_f :: "nat \<Rightarrow> uint32 \<Rightarrow> uint32 \<Rightarrow> uint32 \<Rightarrow> uint32" where
  "sha1_f t b c d =
     (if t < 20 then (b AND c) OR (NOT b AND d)
      else if t < 40 then b XOR c XOR d
      else if t < 60 then (b AND c) OR (b AND d) OR (c AND d)
      else b XOR c XOR d)"

definition sha1_k :: "nat \<Rightarrow> uint32" where
  "sha1_k t =
     (if t < 20 then 0x5A827999 else if t < 40 then 0x6ED9EBA1 else if t < 60 then 0x8F1BBCDC else 0xCA62C1D6)"

fun sha1_rounds :: "nat \<Rightarrow> uint32 list \<Rightarrow> sha1_state \<Rightarrow> sha1_state" where
  "sha1_rounds t [] s = s"
| "sha1_rounds t (w # ws) s =
     sha1_rounds (t + 1) ws
       \<lparr>sA = rotl32 5 (sA s) + sha1_f t (sB s) (sC s) (sD s) + sE s + sha1_k t + w,
        sB = sA s, sC = rotl32 30 (sB s), sD = sC s, sE = sD s\<rparr>"

definition sha1_add :: "sha1_state \<Rightarrow> sha1_state \<Rightarrow> sha1_state" where
  "sha1_add s r = \<lparr>sA = sA s + sA r, sB = sB s + sB r, sC = sC s + sC r, sD = sD s + sD r, sE = sE s + sE r\<rparr>"

definition sha1_block :: "sha1_state \<Rightarrow> bytes \<Rightarrow> sha1_state" where
  "sha1_block s blk =
     sha1_add s (sha1_rounds 0 (rev (sha1_schedule 64 (rev (map be_decode (chunks_of 16 4 blk))))) s)"

definition sha1_blocks :: "bytes \<Rightarrow> bytes list" where
  "sha1_blocks p = chunks_of (length p div 64) 64 p"

definition sha1_output :: "sha1_state \<Rightarrow> bytes" where
  "sha1_output s = be_encode 4 (sA s) @ be_encode 4 (sB s) @ be_encode 4 (sC s) @ be_encode 4 (sD s) @ be_encode 4 (sE s)"

definition sha1 :: "bytes \<Rightarrow> bytes" where
  "sha1 m = sha1_output (foldl sha1_block sha1_init (sha1_blocks (sha1_pad m)))"

definition base64_alphabet :: string where
  "base64_alphabet = ''ABCDEFGHIJKLMNOPQRSTUVWXYZabcdefghijklmnopqrstuvwxyz0123456789+/''"

definition base64_char :: "nat \<Rightarrow> char" where
  "base64_char i = base64_alphabet ! i"

fun base64_encode :: "nat list \<Rightarrow> string" where
  "base64_encode [] = []"
| "base64_encode [a] = [base64_char (a div 4), base64_char (a mod 4 * 16), CHR ''='', CHR ''='']"
| "base64_encode [a, b] =
     [base64_char (a div 4), base64_char (a mod 4 * 16 + b div 16), base64_char (b mod 16 * 4), CHR ''='']"
| "base64_encode (a # b # c # rest) =
     base64_char (a div 4) # base64_char (a mod 4 * 16 + b div 16) #
     base64_char (b mod 16 * 4 + c div 64) # base64_char (c mod 64) # base64_encode rest"

section \<open>The handshake\<close>

definition WebSocketGUID :: string where
  "WebSocketGUID = ''258EAFA5-E914-47DA-95CA-C5AB0DC85B11''"

definition MaxHandshakeHeadersSize :: nat where
  "MaxHandshakeHeadersSize = 8192"

definition ErrInvalidUpgradeHeaders :: goerr where
  "ErrInvalidUpgradeHeaders = ErrNew ''invalid WebSocket upgrade headers''"

definition ErrMissingWebSocketKey :: goerr where
  "ErrMissingWebSocketKey = ErrNew ''missing Sec-WebSocket-Key header''"

definition ErrBadWebSocketVersion :: goerr where
  "ErrBadWebSocketVersion = ErrNew (''unsupported WebSocket version; only '' @ [CHR 0x27] @ ''13'' @ [CHR 0x27] @ '' is supported'')"

definition errHeadersTooLarge :: goerr where
  "errHeadersTooLarge = ErrNew ''handshake headers too large''"

record http_request =
  req_Header :: header
  req_Path :: string

definition headerContainsToken :: "header \<Rightarrow> string \<Rightarrow> string \<Rightarrow> bool" where
  "headerContainsToken h name token =
     list_ex (\<lambda>v. list_ex (\<lambda>part. ToLower (TrimSpace part) = ToLower token) (split_at_char CHR '','' v))
       (header_values h name)"

text \<open>The running total of header bytes, checked after each value.\<close>

fun add_values :: "nat \<Rightarrow> string list \<Rightarrow> nat option" where
  "add_values tot [] = Some tot"
| "add_values tot (v # vs) =
     (if tot + length v > MaxHandshakeHeadersSize then None else add_values (tot + length v) vs)"

fun header_total :: "nat \<Rightarrow> header \<Rightarrow> nat option" where
  "header_total tot [] = Some tot"
| "header_total tot ((k, vs) # rest) =
     (case add_values (tot + length k) vs of None \<Rightarrow> None | Some tot' \<Rightarrow> header_total tot' rest)"

definition string_bytes :: "string \<Rightarrow> bytes" where
  "string_bytes s = map of_char s"

definition accept_key :: "string \<Rightarrow> string" where
  "accept_key key = base64_encode (map unat (sha1 (string_bytes (key @ WebSocketGUID))))"

definition response_headers :: "string \<Rightarrow> header" where
  "response_headers accept =
     header_Set (header_Set (header_Set [] ''Upgrade'' ''websocket'') ''Connection'' ''Upgrade'')
       ''Sec-WebSocket-Accept'' accept"

definition DoHandshakeCoreWithPath :: "http_request outcome \<Rightarrow> (header \<times> string) outcome" where
  "DoHandshakeCoreWithPath read =
     (case read of
        Err e \<Rightarrow> Err (ErrWrap ''handshake read request'' e)
      | Panic \<Rightarrow> Panic
      | Ok req \<Rightarrow>
          let h = req_Header req in
          if header_total 0 h = None then Err errHeadersTooLarge
          else if \<not> headerContainsToken h ''Connection'' ''Upgrade'' \<or>
                  \<not> headerContainsToken h ''Upgrade'' ''websocket'' then Err ErrInvalidUpgradeHeaders
          else if header_Get h ''Sec-WebSocket-Version'' \<noteq> ''13'' then Err ErrBadWebSocketVersion
          else
            let key = header_Get h ''Sec-WebSocket-Key'' in
            if key = [] then Err ErrMissingWebSocketKey
            else Ok (response_headers (accept_key key), req_Path req))"

definition DoHandshakeCore :: "http_request outcome \<Rightarrow> header outcome" where
  "DoHandshakeCore read = bind_outcome (DoHandshakeCoreWithPath read) (\<lambda>(hdrs, _). Ok hdrs)"

text \<open>The buffered variant also returns what its reader holds behind the request, \<open>rest\<close>.\<close>

definition DoHandshakeCoreBuffered ::
  "http_request outcome \<Rightarrow> bytes \<Rightarrow> (header \<times> string \<times> bytes) outcome" where
  "DoHandshakeCoreBuffered read rest =
     (case read of
        Err e \<Rightarrow> Err (ErrWrap ''handshake read request'' e)
      | Panic \<Rightarrow> Panic
      | Ok req \<Rightarrow>
          let h = req_Header req in
          if header_total 0 h = None then Err errHeadersTooLarge
          else if \<not> headerContainsToken h ''Connection'' ''Upgrade'' \<or>
                  \<not> headerContainsToken h ''Upgrade'' ''websocket'' then Err ErrInvalidUpgradeHeaders
          else if header_Get h ''Sec-WebSocket-Version'' \<noteq> ''13'' then Err ErrBadWebSocketVersion
          else
            let key = header_Get h ''Sec-WebSocket-Key'' in
            if key = [] then Err ErrMissingWebSocketKey
            else Ok (response_headers (accept_key key), req_Path req, rest))"

text \<open>
  Writing: \<open>fail i\<close> is the error of the \<open>i\<close>-th write, if any; the result is what was written
  and the error.
\<close>

fun write_seq :: "(nat \<Rightarrow> goerr option) \<Rightarrow> nat \<Rightarrow> string list \<Rightarrow> string \<times> goerr option" where
  "write_seq fail i [] = ([], None)"
| "write_seq fail i (s # ss) =
     (case fail i of
        Some e \<Rightarrow> ([], Some e)
      | None \<Rightarrow> (case write_seq fail (Suc i) ss of (out, err) \<Rightarrow> (s @ out, err)))"

definition crlf :: string where
  "crlf = [char_of (13 :: nat), char_of (10 :: nat)]"

definition WriteHandshakeResponse :: "(nat \<Rightarrow> goerr option) \<Rightarrow> header \<Rightarrow> string \<times> goerr option" where
  "WriteHandshakeResponse fail hdr =
     write_seq fail 0
       ([''HTTP/1.1 101 Switching Protocols'' @ crlf] @
        concat (map (\<lambda>(k, vs). map (\<lambda>v. k @ '': '' @ v @ crlf) vs) hdr) @ [crlf])"

record http_response =
  resp_StatusCode :: int
  resp_Header :: header

definition DoClientHandshake :: "http_response outcome \<Rightarrow> unit outcome" where
  "DoClientHandshake read =
     (case read of
        Ok resp \<Rightarrow> if resp_StatusCode resp \<noteq> 101 then Err (ErrNew ''handshake failed'') else Ok ()
      | Err e \<Rightarrow> Err (ErrWrap ''handshake read response'' e)
      | Panic \<Rightarrow> Panic)"

section \<open>Evaluation on words\<close>

text \<open>Rounds and schedule with their words reduced to 32 bits, so that simplification computes them.\<close>

definition norm32 :: "uint32 \<Rightarrow> uint32" where
  "norm32 w = w"

lemma norm32_of_int: "norm32 (of_int i) = of_int (i mod 4294967296)"
proof -
  have "(of_int (i mod 2 ^ LENGTH(32)) :: uint32) = of_int i"
    by (simp only: word_of_int_eq_iff take_bit_eq_mod [symmetric] take_bit_take_bit)
  then show ?thesis by (simp add: norm32_def)
qed

lemmas norm32_eval = norm32_of_int [of 0, simplified] norm32_of_int [of 1, simplified]
  norm32_of_int [of "numeral w" for w, unfolded of_int_numeral]
  norm32_of_int [of "- numeral w" for w, unfolded of_int_neg_numeral]

lemma schedule_numeral:
  "sha1_schedule (numeral n) ws =
     sha1_schedule (pred_numeral n) (norm32 (rotl32 1 (ws ! 2 XOR ws ! 7 XOR ws ! 13 XOR ws ! 15)) # ws)"
  by (simp add: numeral_eq_Suc norm32_def)

lemma rounds_norm:
  "sha1_rounds t (w # ws) s =
     sha1_rounds (t + 1) ws
       \<lparr>sA = norm32 (rotl32 5 (sA s) + sha1_f t (sB s) (sC s) (sD s) + sE s + sha1_k t + w),
        sB = sA s, sC = norm32 (rotl32 30 (sB s)), sD = sC s, sE = sD s\<rparr>"
  by (simp add: norm32_def)

lemma chunks_numeral:
  "chunks_of (numeral k) n bs = take n bs # chunks_of (pred_numeral k) n (drop n bs)"
  by (simp add: numeral_eq_Suc)

lemma replicate_numeral:
  "replicate (numeral k) x = x # replicate (pred_numeral k) x"
  by (simp add: numeral_eq_Suc)

lemma be_encode_4:
  "be_encode 4 v = [ucast (drop_bit 24 v), ucast (drop_bit 16 v), ucast (drop_bit 8 v), ucast v]" for v :: uint32
  by (simp add: be_encode_def upt_rec)

lemma be_encode_8:
  "be_encode 8 v = [ucast (drop_bit 56 v), ucast (drop_bit 48 v), ucast (drop_bit 40 v), ucast (drop_bit 32 v),
     ucast (drop_bit 24 v), ucast (drop_bit 16 v), ucast (drop_bit 8 v), ucast v]" for v :: uint64
  by (simp add: be_encode_def upt_rec)

lemmas sha1_eval = sha1_def sha1_blocks_def sha1_output_def sha1_add_def sha1_pad_def sha1_block_def
  sha1_init_def sha1_f_def sha1_k_def rotl32_def be_decode_def be_encode_8 be_encode_4 replicate_numeral
  chunks_numeral schedule_numeral rounds_norm norm32_eval

section \<open>Lemmas\<close>

lemma length_sha1: "length (sha1 m) = 20"
  by (simp add: sha1_def sha1_output_def)

lemma length_base64: "length (base64_encode bs) = 4 * ((length bs + 2) div 3)"
proof (induction bs rule: base64_encode.induct)
  case (4 a b c rest)
  have "(length (a # b # c # rest) + 2) div 3 = Suc ((length rest + 2) div 3)" by simp
  with 4 show ?case by simp
qed simp_all

lemma length_accept_key: "length (accept_key key) = 28"
  by (simp add: accept_key_def length_base64 length_sha1)

definition header_bytes :: "header \<Rightarrow> nat" where
  "header_bytes h = sum_list (map (\<lambda>(k, vs). length k + sum_list (map length vs)) h)"

text \<open>What \<^verbatim>\<open>net/http\<close> promises of a parsed header: one entry per name, at least one value each.\<close>

definition wf_header :: "header \<Rightarrow> bool" where
  "wf_header h \<longleftrightarrow> distinct (map fst h) \<and> list_all (\<lambda>(k, vs). vs \<noteq> []) h"

lemma add_values_eq:
  "vs \<noteq> [] \<Longrightarrow> add_values t vs =
     (if t + sum_list (map length vs) > MaxHandshakeHeadersSize then None
      else Some (t + sum_list (map length vs)))"
proof (induction t vs rule: add_values.induct)
  case (2 t v vs)
  then show ?case by (cases vs) (auto simp: add.assoc)
qed simp

lemma header_total_eq:
  assumes "list_all (\<lambda>(k, vs). vs \<noteq> []) h" and "t \<le> MaxHandshakeHeadersSize"
  shows "header_total t h =
    (if t + header_bytes h > MaxHandshakeHeadersSize then None else Some (t + header_bytes h))"
  using assms
proof (induction t h rule: header_total.induct)
  case (2 t k vs rest)
  then show ?case by (auto simp: add_values_eq header_bytes_def)
qed (simp add: header_bytes_def)

lemma header_total_None:
  "wf_header h \<Longrightarrow> header_total 0 h = None \<longleftrightarrow> header_bytes h > MaxHandshakeHeadersSize"
  using header_total_eq [of h 0] by (simp add: wf_header_def)

lemma wf_header_perm:
  assumes "wf_header h" "mset h' = mset h"
  shows "wf_header h'" "map_of h' = map_of h" "header_bytes h' = header_bytes h"
proof -
  have set: "set h' = set h" using assms(2) by (metis set_mset_mset)
  have d: "distinct (map fst h')" using assms by (metis mset_eq_imp_distinct_iff mset_map wf_header_def)
  with assms set show "wf_header h'" by (auto simp: wf_header_def list_all_iff)
  show "map_of h' = map_of h" using d assms(1) set by (simp add: map_of_inject_set wf_header_def)
  show "header_bytes h' = header_bytes h"
    using assms(2) by (metis (no_types) header_bytes_def mset_map sum_mset_sum_list)
qed

lemma values_response:
  "header_Get (response_headers a) ''Sec-WebSocket-Accept'' = a"
  "header_Get (response_headers a) ''Upgrade'' = ''websocket''"
  "header_Get (response_headers a) ''Connection'' = ''Upgrade''"
proof -
  have k: "CanonicalHeaderKey ''Sec-WebSocket-Accept'' = ''Sec-Websocket-Accept''"
    "CanonicalHeaderKey ''Upgrade'' = ''Upgrade''" "CanonicalHeaderKey ''Connection'' = ''Connection''"
    by code_simp+
  show "header_Get (response_headers a) ''Sec-WebSocket-Accept'' = a"
    "header_Get (response_headers a) ''Upgrade'' = ''websocket''"
    "header_Get (response_headers a) ''Connection'' = ''Upgrade''"
    by (simp_all add: response_headers_def header_Get_def header_values_def header_Set_def k Let_def)
qed

lemma DoHandshakeCoreBuffered_eq:
  "DoHandshakeCoreBuffered read rest =
     bind_outcome (DoHandshakeCoreWithPath read) (\<lambda>(hdrs, path). Ok (hdrs, path, rest))"
  by (simp add: DoHandshakeCoreBuffered_def DoHandshakeCoreWithPath_def Let_def split: outcome.split)

text \<open>The client looks at the status only.\<close>

lemma client_ignores_accept: "DoClientHandshake (Ok \<lparr>resp_StatusCode = 101, resp_Header = h\<rparr>) = Ok ()"
  by (simp add: DoClientHandshake_def)

section \<open>Properties\<close>


definition sample_request :: header where
  "sample_request = [(''Upgrade'', [''websocket'']), (''Connection'', [''keep-alive, Upgrade'']),
     (''Sec-Websocket-Key'', [''dGhlIHNhbXBsZSBub25jZQ=='']), (''Sec-Websocket-Version'', [''13''])]"

lemma sample_request_ok:
  "wf_header sample_request \<and> header_bytes sample_request \<le> 8192 \<and>
   headerContainsToken sample_request ''Connection'' ''Upgrade'' \<and>
   headerContainsToken sample_request ''Upgrade'' ''websocket'' \<and>
   header_Get sample_request ''Sec-WebSocket-Version'' = ''13'' \<and>
   header_Get sample_request ''Sec-WebSocket-Key'' = ''dGhlIHNhbXBsZSBub25jZQ==''"
  by code_simp


text \<open>
  Fact (test vector).  The accept value of the example in section 1.3 of RFC 6455.
\<close>

theorem handshake_rfc_vector:
  "accept_key ''dGhlIHNhbXBsZSBub25jZQ=='' = ''s3pPLMBiTxaQ9kYGzzhZRbK+xOo=''"
  by (simp add: accept_key_def string_bytes_def WebSocketGUID_def base64_char_def base64_alphabet_def sha1_eval
      del: sha1_rounds.simps(2))

end
