(* ===== verification/CoreConn.thy ===== *)
theory CoreConn
  imports CoreFrame Connection Handshake "HOL-Library.Sublist"
begin

text \<open>
  The connection and the handshake of \<^verbatim>\<open>core/protocol\<close> (\<^verbatim>\<open>connection.go\<close>, \<^verbatim>\<open>handshake.go\<close>), the variant
  that takes every slice the transport delivers for one whole frame.  Receive loop, send loop,
  callers and Close are interleaved at their channel operations.  Frames are objects: the receive
  loop keeps a pointer to a frame it has put in the inbox and may shorten its payload afterwards,
  so the inbox holds names into a store of frames.  Channels are buffered.
\<close>

section \<open>State\<close>

text \<open>
  \<open>kc_frames\<close> is the store of decoded frames.  The \<open>kg_\<close> fields record the slices the receive loop
  has decoded, the frames as decoded, what the application took from the inbox, the payloads given to
  handlers, the frames accepted for sending and those written, and the bytes written.
\<close>

datatype krecv_pc = K_Off | K_Top | K_Recv | K_Raws "bytes list" | K_Put nat "bytes list" | K_Handler nat "bytes list"
  | K_Exit | K_Gone | K_Crashed

datatype ksend_pc = T_Off | T_Wait | T_Send WSFrame | T_Gone | T_Crashed

record kconn =
  kc_pool :: nat
  kc_size :: nat
  kc_inbox :: "nat list"
  kc_outbox :: "WSFrame list"
  kc_handler :: bool
  kc_done :: bool
  kc_closed :: bool
  kc_trClosed :: bool
  kc_bytesReceived :: uint64
  kc_bytesSent :: uint64
  kc_framesReceived :: uint64
  kc_framesSent :: uint64
  kc_frames :: "WSFrame list"
  kc_rpc :: krecv_pc
  kc_spc :: ksend_pc
  kg_raws :: "bytes list"
  kg_decoded :: "WSFrame list"
  kg_taken :: "nat list"
  kg_calls :: "bytes list"
  kg_accepted :: "WSFrame list"
  kg_written :: "WSFrame list"
  kg_wire :: bytes

definition core_NewWSConnection :: "nat \<Rightarrow> int \<Rightarrow> kconn outcome" where
  "core_NewWSConnection pool channelSize =
     (if channelSize < 0 then Panic
      else Ok \<lparr>kc_pool = pool, kc_size = nat channelSize, kc_inbox = [], kc_outbox = [], kc_handler = False,
        kc_done = False, kc_closed = False, kc_trClosed = False, kc_bytesReceived = 0, kc_bytesSent = 0,
        kc_framesReceived = 0, kc_framesSent = 0, kc_frames = [], kc_rpc = K_Off, kc_spc = T_Off,
        kg_raws = [], kg_decoded = [], kg_taken = [], kg_calls = [], kg_accepted = [], kg_written = [], kg_wire = []\<rparr>)"

definition core_Start :: "kconn \<Rightarrow> kconn" where
  "core_Start c = c\<lparr>kc_rpc := K_Top, kc_spc := T_Wait\<rparr>"

definition core_SetHandler :: "bool \<Rightarrow> kconn \<Rightarrow> kconn" where
  "core_SetHandler h c = c\<lparr>kc_handler := h\<rparr>"

definition core_GetStats :: "kconn \<Rightarrow> (string \<times> int) list" where
  "core_GetStats c = [(''bytes_received'', sint (kc_bytesReceived c)), (''bytes_sent'', sint (kc_bytesSent c)),
     (''frames_received'', sint (kc_framesReceived c)), (''frames_sent'', sint (kc_framesSent c))]"

text \<open>\<^verbatim>\<open>Close\<close>: the winner of the flag closes \<^verbatim>\<open>done\<close>, then the transport, in later steps.\<close>

definition core_Close :: "kconn \<Rightarrow> kconn" where
  "core_Close c = c\<lparr>kc_closed := True\<rparr>"

definition core_close_done :: "kconn \<Rightarrow> kconn option" where
  "core_close_done c = (if kc_closed c \<and> \<not> kc_done c then Some (c\<lparr>kc_done := True\<rparr>) else None)"

definition core_close_transport :: "kconn \<Rightarrow> kconn option" where
  "core_close_transport c = (if kc_done c \<and> \<not> kc_trClosed c then Some (c\<lparr>kc_trClosed := True\<rparr>) else None)"

section \<open>Sending\<close>

text \<open>\<open>sel\<close> says which case the select takes when both are ready; the default only when none is.\<close>

definition core_SendFrame :: "bool \<Rightarrow> WSFrame \<Rightarrow> kconn \<Rightarrow> goerr option \<times> kconn" where
  "core_SendFrame sel frame c =
     (if kc_closed c then (Some ErrTransportClosed, c)
      else if length (kc_outbox c) < kc_size c \<and> (\<not> kc_done c \<or> sel) then
        (None, c\<lparr>kc_outbox := kc_outbox c @ [frame], kc_framesSent := kc_framesSent c + 1,
                 kc_bytesSent := kc_bytesSent c + word_of_int (PayloadLen frame),
                 kg_accepted := kg_accepted c @ [frame]\<rparr>)
      else if kc_done c then (Some ErrTransportClosed, c)
      else (Some (ErrNew ''outbox is full''), c))"

datatype kchoice = KGo | KDone | KRawsOf "bytes list" | KIOErr | KBuf nat

definition core_sendLoop :: "kchoice \<Rightarrow> kconn \<Rightarrow> kconn option" where
  "core_sendLoop ch c =
     (case kc_spc c of
        T_Wait \<Rightarrow>
          (case ch of
             KDone \<Rightarrow> if kc_done c then Some (c\<lparr>kc_spc := T_Gone\<rparr>) else None
           | KGo \<Rightarrow> (case kc_outbox c of [] \<Rightarrow> None | f # fs \<Rightarrow> Some (c\<lparr>kc_outbox := fs, kc_spc := T_Send f\<rparr>))
           | _ \<Rightarrow> None)
      | T_Send f \<Rightarrow>
          (case core_EncodeFrameToBytes f of
             Err e \<Rightarrow> Some ((core_Close c)\<lparr>kc_spc := T_Gone\<rparr>)
           | Panic \<Rightarrow> Some (c\<lparr>kc_spc := T_Crashed\<rparr>)
           | Ok d \<Rightarrow>
               (case ch of
                  KGo \<Rightarrow> Some (c\<lparr>kg_wire := kg_wire c @ d, kg_written := kg_written c @ [f], kc_spc := T_Wait\<rparr>)
                | KIOErr \<Rightarrow> Some ((core_Close c)\<lparr>kc_spc := T_Gone\<rparr>)
                | _ \<Rightarrow> None))
      | _ \<Rightarrow> None)"

section \<open>Receiving\<close>

definition core_pong :: "WSFrame \<Rightarrow> WSFrame" where
  "core_pong f =
     \<lparr>IsFinal = True, Opcode = OpcodePong, Masked = False, PayloadLen = PayloadLen f, MaskKey = [0, 0, 0, 0], Payload = Payload f\<rparr>"

definition core_handleControl :: "bool \<Rightarrow> WSFrame \<Rightarrow> kconn \<Rightarrow> bool \<times> kconn" where
  "core_handleControl sel f c =
     (if Opcode f = OpcodePing then (True, snd (core_SendFrame sel (core_pong f) c))
      else if Opcode f = OpcodePong then (True, c)
      else if Opcode f = OpcodeClose then (True, core_Close (snd (core_SendFrame sel f c)))
      else (False, c))"

text \<open>One slice: undecodable ones are skipped; a control frame is handled; others go to the inbox.\<close>

definition core_frame :: "bool \<Rightarrow> bytes \<Rightarrow> bytes list \<Rightarrow> kconn \<Rightarrow> kconn" where
  "core_frame sel raw raws c0 =
     (let c = c0\<lparr>kg_raws := kg_raws c0 @ [raw]\<rparr>
      in case core_DecodeFrameFromBytes raw of
           Err e \<Rightarrow> c\<lparr>kc_rpc := K_Raws raws\<rparr>
         | Panic \<Rightarrow> c\<lparr>kc_rpc := K_Crashed\<rparr>
         | Ok f \<Rightarrow>
             (let c1 = c\<lparr>kc_framesReceived := kc_framesReceived c + 1,
                        kc_bytesReceived := kc_bytesReceived c + word_of_int (PayloadLen f),
                        kc_frames := kc_frames c @ [f], kg_decoded := kg_decoded c @ [f]\<rparr>
              in case core_handleControl sel f c1 of
                   (handled, c2) \<Rightarrow>
                     if handled then c2\<lparr>kc_rpc := K_Raws raws\<rparr> else c2\<lparr>kc_rpc := K_Put (length (kc_frames c)) raws\<rparr>))"

text \<open>
  With a handler the payload is copied into a pooled buffer, \<open>KBuf n\<close> of \<open>n\<close> bytes; a payload that does
  not fit is cut first, in the frame itself.
\<close>

definition cut_payload :: "nat \<Rightarrow> WSFrame \<Rightarrow> WSFrame" where
  "cut_payload n f = (if n < length (Payload f) then f\<lparr>Payload := take n (Payload f)\<rparr> else f)"

definition core_call_handler :: "nat \<Rightarrow> nat \<Rightarrow> kconn \<Rightarrow> kconn" where
  "core_call_handler n i c =
     c\<lparr>kc_frames := (kc_frames c)[i := cut_payload n (kc_frames c ! i)],
       kg_calls := kg_calls c @ [Payload (cut_payload n (kc_frames c ! i))]\<rparr>"

definition core_recvLoop :: "bool \<Rightarrow> kchoice \<Rightarrow> kconn \<Rightarrow> kconn option" where
  "core_recvLoop sel ch c =
     (case kc_rpc c of
        K_Top \<Rightarrow> Some (c\<lparr>kc_rpc := (if kc_done c then K_Exit else K_Recv)\<rparr>)
      | K_Recv \<Rightarrow>
          (case ch of
             KRawsOf raws \<Rightarrow> Some (c\<lparr>kc_rpc := K_Raws raws\<rparr>)
           | KIOErr \<Rightarrow> Some (c\<lparr>kc_rpc := K_Exit\<rparr>)
           | _ \<Rightarrow> None)
      | K_Raws [] \<Rightarrow> Some (c\<lparr>kc_rpc := K_Top\<rparr>)
      | K_Raws (raw # raws) \<Rightarrow> Some (core_frame sel raw raws c)
      | K_Put i raws \<Rightarrow>
          (case ch of
             KGo \<Rightarrow> if length (kc_inbox c) < kc_size c then Some (c\<lparr>kc_inbox := kc_inbox c @ [i], kc_rpc := K_Handler i raws\<rparr>) else None
           | KDone \<Rightarrow> if kc_done c then Some (c\<lparr>kc_rpc := K_Exit\<rparr>) else None
           | _ \<Rightarrow> None)
      | K_Handler i raws \<Rightarrow>
          (if kc_handler c \<and> PayloadLen (kc_frames c ! i) \<le> MaxFramePayload \<and> PayloadLen (kc_frames c ! i) \<ge> 0
           then (case ch of KBuf n \<Rightarrow> Some ((core_call_handler n i c)\<lparr>kc_rpc := K_Raws raws\<rparr>) | _ \<Rightarrow> None)
           else Some (c\<lparr>kc_rpc := K_Raws raws\<rparr>))
      | K_Exit \<Rightarrow> Some ((core_Close c)\<lparr>kc_rpc := K_Gone\<rparr>)
      | _ \<Rightarrow> None)"

text \<open>
  \<^verbatim>\<open>RecvZeroCopy\<close> reads the transport itself: a whole pooled buffer per decodable slice, with the payload
  at its front.
\<close>

definition core_payload_buffer :: "pools \<Rightarrow> nat \<Rightarrow> WSFrame \<Rightarrow> (Buffer \<times> pools) outcome option" where
  "core_payload_buffer w p f =
     bind_loop (pool_Get w p (PayloadLen f) (- 1)) (\<lambda>(buf, w').
       let d = Payload (cut_payload (data_len buf) f)
       in Some (Ok (buf, case Data buf of None \<Rightarrow> w' | Some s \<Rightarrow> w'\<lparr>pl_heap := copy_into (pl_heap w') s d\<rparr>)))"

fun core_recv_raws :: "pools \<Rightarrow> kconn \<Rightarrow> bytes list \<Rightarrow> Buffer list \<Rightarrow> (Buffer list outcome \<times> kconn \<times> pools) option" where
  "core_recv_raws w c [] result = Some (Ok result, c, w)"
| "core_recv_raws w c (raw # raws) result =
     (case core_DecodeFrameFromBytes raw of
        Err e \<Rightarrow> core_recv_raws w c raws result
      | Panic \<Rightarrow> Some (Panic, c, w)
      | Ok f \<Rightarrow>
          if PayloadLen f < 0 \<or> PayloadLen f > MaxFramePayload then core_recv_raws w c raws result
          else (case core_payload_buffer w (kc_pool c) f of
                  None \<Rightarrow> None
                | Some (Err e) \<Rightarrow> Some (Err e, c, w)
                | Some Panic \<Rightarrow> Some (Panic, c, w)
                | Some (Ok (buf, w')) \<Rightarrow>
                    core_recv_raws w'
                      (c\<lparr>kc_framesReceived := kc_framesReceived c + 1,
                         kc_bytesReceived := kc_bytesReceived c + word_of_int (PayloadLen f)\<rparr>) raws (result @ [buf])))"

definition core_RecvZeroCopy :: "pools \<Rightarrow> kconn \<Rightarrow> bytes list outcome \<Rightarrow> (Buffer list outcome \<times> kconn \<times> pools) option" where
  "core_RecvZeroCopy w c recv =
     (case recv of Err e \<Rightarrow> Some (Err e, c, w) | Panic \<Rightarrow> Some (Panic, c, w) | Ok raws \<Rightarrow> core_recv_raws w c raws [])"

section \<open>Runs\<close>

datatype kact = KRecvStep bool kchoice | KSendStep kchoice | KAppSend bool WSFrame | KTake | KClose | KCloseDone | KCloseTransport
  | KStart | KHandlerSet bool

fun k_step :: "kact \<Rightarrow> kconn \<Rightarrow> kconn option" where
  "k_step (KRecvStep sel ch) c = core_recvLoop sel ch c"
| "k_step (KSendStep ch) c = core_sendLoop ch c"
| "k_step (KAppSend sel f) c = Some (snd (core_SendFrame sel f c))"
| "k_step KTake c = (case kc_inbox c of [] \<Rightarrow> None | i # q \<Rightarrow> Some (c\<lparr>kc_inbox := q, kg_taken := kg_taken c @ [i]\<rparr>))"
| "k_step KClose c = Some (core_Close c)"
| "k_step KCloseDone c = core_close_done c"
| "k_step KCloseTransport c = core_close_transport c"
| "k_step KStart c = (if kc_rpc c = K_Off \<and> kc_spc c = T_Off then Some (core_Start c) else None)"
| "k_step (KHandlerSet h) c = Some (core_SetHandler h c)"

fun k_run :: "kact list \<Rightarrow> kconn \<Rightarrow> kconn option" where
  "k_run [] c = Some c"
| "k_run (a # as) c = (case k_step a c of None \<Rightarrow> None | Some c' \<Rightarrow> k_run as c')"

section \<open>The handshake\<close>

definition core_DoHandshakeCore :: "http_request outcome \<Rightarrow> header outcome" where
  "core_DoHandshakeCore read =
     (case read of
        Err e \<Rightarrow> Err (ErrWrap ''handshake read request'' e)
      | Panic \<Rightarrow> Panic
      | Ok req \<Rightarrow>
          let h = req_Header req in
          if header_total 0 h = None then Err errHeadersTooLarge
          else if \<not> headerContainsToken h ''Connection'' ''Upgrade'' \<or>
                  \<not> headerContainsToken h ''Upgrade'' ''websocket'' then Err ErrInvalidUpgradeHeaders
          else if header_Get h ''Sec-WebSocket-Version'' \<noteq> ''13'' then Err ErrBadWebSocketVersion
          else
            let key = header_Get h ''Sec-WebSocket-Key'' in
            if key = [] then Err ErrMissingWebSocketKey
            else Ok (response_headers (accept_key key)))"

text \<open>
  \<^verbatim>\<open>DoClientHandshake\<close> reads to the end of the stream after the response: it returns only when the
  server has closed its side (\<open>eof\<close>), with everything behind the response dropped.
\<close>

definition core_DoClientHandshake :: "http_response outcome \<Rightarrow> bytes \<Rightarrow> bool \<Rightarrow> (unit outcome \<times> bytes) option" where
  "core_DoClientHandshake read net eof =
     (case read of
        Err e \<Rightarrow> Some (Err (ErrWrap ''handshake read response'' e), net)
      | Panic \<Rightarrow> Some (Panic, net)
      | Ok resp \<Rightarrow>
          if resp_StatusCode resp \<noteq> 101 then Some (Err (ErrNew ''handshake failed''), net)
          else if eof then Some (Ok (), []) else None)"

section \<open>Invariants\<close>

definition kdata :: "WSFrame \<Rightarrow> bool" where
  "kdata f \<longleftrightarrow> Opcode f \<noteq> OpcodePing \<and> Opcode f \<noteq> OpcodePong \<and> Opcode f \<noteq> OpcodeClose"

definition dec :: "bytes \<Rightarrow> WSFrame list" where
  "dec raw = (case core_DecodeFrameFromBytes raw of Ok f \<Rightarrow> [f] | _ \<Rightarrow> [])"

definition enc :: "WSFrame \<Rightarrow> bytes" where
  "enc f = (case core_EncodeFrameToBytes f of Ok d \<Rightarrow> d | _ \<Rightarrow> [])"

definition data_ids :: "WSFrame list \<Rightarrow> nat list" where
  "data_ids fs = filter (\<lambda>i. kdata (fs ! i)) [0..<length fs]"

fun put_ids :: "krecv_pc \<Rightarrow> nat list" where
  "put_ids (K_Put i raws) = [i]"
| "put_ids _ = []"

fun stopped :: "krecv_pc \<Rightarrow> bool" where
  "stopped K_Exit = True"
| "stopped K_Gone = True"
| "stopped _ = False"

definition shortened :: "WSFrame \<Rightarrow> WSFrame \<Rightarrow> bool" where
  "shortened f g \<longleftrightarrow> (\<exists>n. f = g\<lparr>Payload := take n (Payload g)\<rparr>)"

definition kr_inv :: "kconn \<Rightarrow> bool" where
  "kr_inv c \<longleftrightarrow>
     kg_decoded c = concat (map dec (kg_raws c)) \<and> list_all2 shortened (kc_frames c) (kg_decoded c) \<and>
     kc_framesReceived c = of_nat (length (kg_decoded c)) \<and>
     kc_bytesReceived c = word_of_int (sum_list (map PayloadLen (kg_decoded c))) \<and>
     (\<exists>lost. data_ids (kg_decoded c) = kg_taken c @ kc_inbox c @ put_ids (kc_rpc c) @ lost \<and>
        (\<not> stopped (kc_rpc c) \<longrightarrow> lost = []))"

fun in_hand :: "ksend_pc \<Rightarrow> WSFrame list" where
  "in_hand (T_Send f) = [f]"
| "in_hand _ = []"

fun sender_ended :: "ksend_pc \<Rightarrow> bool" where
  "sender_ended T_Gone = True"
| "sender_ended T_Crashed = True"
| "sender_ended _ = False"

definition ks_inv :: "kconn \<Rightarrow> bool" where
  "ks_inv c \<longleftrightarrow>
     (\<exists>lost. kg_accepted c = kg_written c @ in_hand (kc_spc c) @ lost @ kc_outbox c \<and>
        (\<not> sender_ended (kc_spc c) \<longrightarrow> lost = [])) \<and>
     length (kc_outbox c) \<le> kc_size c \<and> kg_wire c = concat (map enc (kg_written c)) \<and>
     kc_framesSent c = of_nat (length (kg_accepted c)) \<and>
     kc_bytesSent c = word_of_int (sum_list (map PayloadLen (kg_accepted c)))"

lemma shortened_refl [simp]: "shortened f f"
  unfolding shortened_def by (rule exI [of _ "length (Payload f)"]) simp

lemma shortened_cut: "shortened f g \<Longrightarrow> shortened (cut_payload n f) g"
  by (auto simp: shortened_def cut_payload_def)

lemma data_ids_snoc: "data_ids (fs @ [f]) = data_ids fs @ (if kdata f then [length fs] else [])"
proof -
  have "filter (\<lambda>i. kdata ((fs @ [f]) ! i)) [0..<length fs] = filter (\<lambda>i. kdata (fs ! i)) [0..<length fs]"
    by (rule filter_cong) (simp_all add: nth_append)
  then show ?thesis by (simp add: data_ids_def)
qed

lemma data_ids_nth: "map (\<lambda>i. fs ! i) (data_ids fs) = filter kdata fs"
proof (induction fs rule: rev_induct)
  case (snoc f fs)
  have "map (\<lambda>i. (fs @ [f]) ! i) (data_ids fs) = map (\<lambda>i. fs ! i) (data_ids fs)"
    by (rule map_cong) (auto simp: data_ids_def nth_append)
  with snoc show ?case by (simp add: data_ids_snoc)
qed (simp add: data_ids_def)

lemma SendFrame_rx [simp]:
  "kg_raws (snd (core_SendFrame sel f c)) = kg_raws c" "kg_decoded (snd (core_SendFrame sel f c)) = kg_decoded c"
  "kc_frames (snd (core_SendFrame sel f c)) = kc_frames c" "kc_inbox (snd (core_SendFrame sel f c)) = kc_inbox c"
  "kc_framesReceived (snd (core_SendFrame sel f c)) = kc_framesReceived c"
  "kc_bytesReceived (snd (core_SendFrame sel f c)) = kc_bytesReceived c"
  "kg_taken (snd (core_SendFrame sel f c)) = kg_taken c" "kc_rpc (snd (core_SendFrame sel f c)) = kc_rpc c"
  by (simp_all add: core_SendFrame_def)

lemma Close_fields [simp]:
  "kr_inv (core_Close c) = kr_inv c" "ks_inv (core_Close c) = ks_inv c"
  by (simp_all add: core_Close_def kr_inv_def ks_inv_def)

lemma ks_inv_SendFrame: "ks_inv c \<Longrightarrow> ks_inv (snd (core_SendFrame sel f c))"
  by (auto simp: ks_inv_def core_SendFrame_def of_int_add)

lemma handleControl_rx:
  assumes "core_handleControl sel f c = (h, c')"
  shows "kg_raws c' = kg_raws c" "kg_decoded c' = kg_decoded c" "kc_frames c' = kc_frames c" "kc_inbox c' = kc_inbox c"
    "kc_framesReceived c' = kc_framesReceived c" "kc_bytesReceived c' = kc_bytesReceived c" "kg_taken c' = kg_taken c"
    "h \<longleftrightarrow> \<not> kdata f" "ks_inv c \<Longrightarrow> ks_inv c'"
  using assms ks_inv_SendFrame
  by (auto simp: core_handleControl_def core_Close_def kdata_def ks_inv_def split: if_splits)

text \<open>A field of the receiving side changes nothing for the sending side.\<close>

lemma ks_inv_rx [simp]:
  "ks_inv (c\<lparr>kc_rpc := r\<rparr>) = ks_inv c" "ks_inv (c\<lparr>kc_inbox := q\<rparr>) = ks_inv c" "ks_inv (c\<lparr>kc_frames := fs\<rparr>) = ks_inv c"
  "ks_inv (c\<lparr>kg_raws := rs\<rparr>) = ks_inv c" "ks_inv (c\<lparr>kg_decoded := fs\<rparr>) = ks_inv c" "ks_inv (c\<lparr>kg_taken := is\<rparr>) = ks_inv c"
  "ks_inv (c\<lparr>kg_calls := ps\<rparr>) = ks_inv c" "ks_inv (c\<lparr>kc_framesReceived := v\<rparr>) = ks_inv c"
  "ks_inv (c\<lparr>kc_bytesReceived := v\<rparr>) = ks_inv c" "ks_inv (c\<lparr>kc_done := d\<rparr>) = ks_inv c"
  "ks_inv (c\<lparr>kc_trClosed := d\<rparr>) = ks_inv c" "ks_inv (c\<lparr>kc_handler := d\<rparr>) = ks_inv c"
  by (simp_all add: ks_inv_def)

lemma kr_inv_other [simp]:
  "kr_inv (c\<lparr>kc_done := d\<rparr>) = kr_inv c" "kr_inv (c\<lparr>kc_trClosed := d\<rparr>) = kr_inv c" "kr_inv (c\<lparr>kc_handler := d\<rparr>) = kr_inv c"
  by (simp_all add: kr_inv_def)

lemma frame_inv:
  assumes inv: "kr_inv c" and rpc: "kc_rpc c = K_Raws (raw # raws)" and tx: "ks_inv c"
  shows "kr_inv (core_frame sel raw raws c) \<and> ks_inv (core_frame sel raw raws c)"
proof (cases "core_DecodeFrameFromBytes raw")
  case (Ok f)
  let ?c1 = "c\<lparr>kg_raws := kg_raws c @ [raw], kc_framesReceived := kc_framesReceived c + 1,
     kc_bytesReceived := kc_bytesReceived c + word_of_int (PayloadLen f),
     kc_frames := kc_frames c @ [f], kg_decoded := kg_decoded c @ [f]\<rparr>"
  obtain h c2 where h: "core_handleControl sel f ?c1 = (h, c2)" by fastforce
  note e = handleControl_rx [OF h]
  have "core_frame sel raw raws c = c2\<lparr>kc_rpc := (if h then K_Raws raws else K_Put (length (kc_frames c)) raws)\<rparr>"
    using Ok h by (simp add: core_frame_def Let_def)
  moreover have "length (kc_frames c) = length (kg_decoded c)" using inv by (auto simp: kr_inv_def dest: list_all2_lengthD)
  ultimately show ?thesis using inv rpc e tx Ok
    by (auto simp: kr_inv_def dec_def data_ids_snoc list_all2_appendI)
qed (use inv rpc tx in \<open>auto simp: core_frame_def kr_inv_def dec_def Let_def\<close>)

lemma recvLoop_inv:
  assumes "kr_inv c" "ks_inv c" and st: "core_recvLoop sel ch c = Some c'"
  shows "kr_inv c' \<and> ks_inv c'"
proof (cases "kc_rpc c")
  case (K_Raws rs)
  show ?thesis
  proof (cases rs)
    case Nil
    then show ?thesis using assms K_Raws by (auto simp: core_recvLoop_def kr_inv_def)
  next
    case (Cons raw raws)
    then have "c' = core_frame sel raw raws c" using st K_Raws by (simp add: core_recvLoop_def)
    then show ?thesis using frame_inv [OF assms(1) _ assms(2)] K_Raws Cons by simp
  qed
next
  case (K_Put i raws)
  then show ?thesis using assms by (cases ch) (auto simp: core_recvLoop_def kr_inv_def split: if_splits)
next
  case (K_Handler i raws)
  show ?thesis
  proof (cases "c' = c\<lparr>kc_rpc := K_Raws raws\<rparr>")
    case False
    then obtain n where c': "c' = (core_call_handler n i c)\<lparr>kc_rpc := K_Raws raws\<rparr>"
      using st K_Handler by (auto simp: core_recvLoop_def split: if_splits kchoice.splits)
    have "list_all2 shortened (kc_frames c) (kg_decoded c)" using assms(1) unfolding kr_inv_def by blast
    then have "list_all2 shortened ((kc_frames c)[i := cut_payload n (kc_frames c ! i)]) (kg_decoded c)"
      by (cases "i < length (kc_frames c)") (simp_all add: list_all2_conv_all_nth nth_list_update shortened_cut)
    then show ?thesis using assms(1,2) K_Handler by (auto simp: c' core_call_handler_def kr_inv_def)
  qed (use assms(1,2) K_Handler in \<open>auto simp: kr_inv_def\<close>)
next
  case K_Exit
  then show ?thesis using assms by (auto simp: core_recvLoop_def core_Close_def kr_inv_def ks_inv_def)
next
  case K_Recv
  then show ?thesis using assms by (cases ch) (auto simp: core_recvLoop_def kr_inv_def)
qed (use assms in \<open>auto simp: core_recvLoop_def kr_inv_def\<close>)

lemma sendLoop_inv:
  assumes "kr_inv c" "ks_inv c" and st: "core_sendLoop ch c = Some c'"
  shows "kr_inv c' \<and> ks_inv c'"
proof (cases "kc_spc c")
  case T_Wait
  then show ?thesis using assms
    by (cases ch; cases "kc_outbox c") (auto simp: core_sendLoop_def kr_inv_def ks_inv_def split: if_splits)
next
  case (T_Send f)
  then show ?thesis using assms
    by (cases "core_EncodeFrameToBytes f"; cases ch) (auto simp: core_sendLoop_def kr_inv_def ks_inv_def core_Close_def enc_def)
qed (use st in \<open>auto simp: core_sendLoop_def\<close>)

lemma k_step_inv:
  assumes "kr_inv c \<and> ks_inv c" and "k_step a c = Some c'"
  shows "kr_inv c' \<and> ks_inv c'"
proof (cases a)
  case (KRecvStep sel ch)
  then show ?thesis using assms recvLoop_inv [of c sel ch c'] by simp
next
  case (KSendStep ch)
  then show ?thesis using assms sendLoop_inv [of c ch c'] by simp
next
  case (KAppSend sel f)
  then show ?thesis using assms ks_inv_SendFrame [of c sel f] by (auto simp: kr_inv_def)
next
  case KTake
  then show ?thesis using assms by (cases "kc_inbox c") (auto simp: kr_inv_def)
next
  case KStart
  then show ?thesis using assms by (auto simp: kr_inv_def ks_inv_def core_Start_def split: if_splits)
qed (use assms in \<open>auto simp: core_close_done_def core_close_transport_def core_SetHandler_def split: if_splits\<close>)

lemma k_run_invariant:
  assumes "\<And>a c c'. J c \<Longrightarrow> k_step a c = Some c' \<Longrightarrow> J c'"
  shows "k_run as c = Some c' \<Longrightarrow> J c \<Longrightarrow> J c'"
  by (induction as arbitrary: c) (auto split: option.splits dest: assms)

lemma k_inv_run:
  assumes "core_NewWSConnection p n = Ok c0" and "k_run as c0 = Some c"
  shows "kr_inv c" "ks_inv c"
proof -
  have "kr_inv c0 \<and> ks_inv c0"
    using assms(1) by (auto simp: core_NewWSConnection_def kr_inv_def ks_inv_def data_ids_def split: if_splits)
  from k_run_invariant [of "\<lambda>c. kr_inv c \<and> ks_inv c", OF _ assms(2) this] k_step_inv show "kr_inv c" "ks_inv c" by blast+
qed

text \<open>The decoder on an encoded frame, on a part of one, and on one with more behind it.\<close>

lemma dec_message:
  assumes "fst (DecodeFrameFromBytes (raw @ rest)) = Decoded f n"
  shows "dec (raw @ rest) = [f]" "length raw < n \<Longrightarrow> dec raw = []"
proof -
  show "dec (raw @ rest) = [f]"
    using core_decode_cases [of "raw @ rest"] assms by (simp add: as_message_def dec_def)
  assume "length raw < n"
  then have "fst (DecodeFrameFromBytes raw) = Incomplete"
    using DecodeFrameFromBytes_prefix [OF assms] by simp
  then show "dec raw = []" using core_decode_cases [of raw] by (auto simp: as_message_def dec_def)
qed

lemma core_encode_dec:
  assumes "wf_frame f" and "IsFinal f"
  shows "core_EncodeFrameToBytes f = Ok (enc f)" "dec (enc f) = [on_wire f False]"
proof -
  obtain e where e: "EncodeFrameToBufferWithMask f False [] = Ok e"
    using EncodeFrameToBufferWithMask_wf [OF assms(1)] by blast
  then have "core_EncodeFrameToBytes f = Ok e" by (simp add: core_encode_eq [OF assms] EncodeFrameToBytesWithMask_def)
  moreover from this have "enc f = e" by (simp add: enc_def)
  ultimately show "core_EncodeFrameToBytes f = Ok (enc f)" by simp
  show "dec (enc f) = [on_wire f False]"
    using dec_message(1) [of e "[]"] Decode_of_Encode [OF assms(1) e, of "[]"] \<open>enc f = e\<close> by simp
qed

section \<open>Properties\<close>


definition core_run :: "kact list" where
  "core_run = [KStart, KRecvStep True KGo, KRecvStep True (KRawsOf [enc hello_frame, [0x89, 0]]), KRecvStep True KGo,
     KRecvStep True KGo, KRecvStep True KGo, KRecvStep True KGo, KRecvStep True KGo, KRecvStep True KGo, KTake,
     KSendStep KGo, KSendStep KGo]"

definition core_conn0 :: kconn where
  "core_conn0 = (case core_NewWSConnection 0 4 of Ok c \<Rightarrow> c)"

definition core_conn1 :: kconn where
  "core_conn1 = the (k_run core_run core_conn0)"

lemma core_run_state:
  "core_NewWSConnection 0 4 = Ok core_conn0" "k_run core_run core_conn0 = Some core_conn1"
  "kc_rpc core_conn1 = K_Recv" "kc_inbox core_conn1 = []" "kg_raws core_conn1 = [enc hello_frame, [0x89, 0]]"
  "kg_written core_conn1 = [core_pong \<lparr>IsFinal = True, Opcode = OpcodePing, Masked = False, PayloadLen = 0, MaskKey = [0, 0, 0, 0], Payload = []\<rparr>]"
  by code_simp+


text \<open>
  Fact (whole frames only).  A first part of a frame is dropped without a trace, and of two frames in
  one slice only the first is seen: the connection needs a transport that keeps frames apart.
\<close>

theorem core_needs_whole_frames:
  assumes "wf_frame f" and "IsFinal f"
  shows "k < length (enc f) \<Longrightarrow> dec (take k (enc f)) = []" "dec (enc f @ enc g) = [on_wire f False]"
proof -
  obtain e where e: "EncodeFrameToBufferWithMask f False [] = Ok e"
    using EncodeFrameToBufferWithMask_wf [OF assms(1)] by blast
  have ef: "enc f = e"
    using e core_encode_dec(1) [OF assms] by (simp add: core_encode_eq [OF assms] EncodeFrameToBytesWithMask_def)
  have d: "fst (DecodeFrameFromBytes (e @ r)) = Decoded (on_wire f False) (length e)" for r
    by (rule Decode_of_Encode [OF assms(1) e])
  show "dec (enc f @ enc g) = [on_wire f False]" using dec_message(1) [OF d] ef by simp
  assume "k < length (enc f)"
  then show "dec (take k (enc f)) = []"
    using dec_message(2) [of "take k e" "drop k e"] d [of "[]"] ef by simp
qed

text \<open>
  Fact (received buffers are not cut).  \<^verbatim>\<open>RecvZeroCopy\<close> returns a buffer of the whole class size
  for a message: its bytes are the payload followed by whatever the memory held.
\<close>

theorem core_recv_padded:
  assumes "pool_ok w (kc_pool c) held" and "0 < slab_size (pl_slabs w ! kc_pool c)"
    and "core_DecodeFrameFromBytes raw = Ok f" and "0 \<le> PayloadLen f" and "PayloadLen f \<le> MaxFramePayload"
    and "int (length (Payload f)) \<le> slab_size (pl_slabs w ! kc_pool c)"
  shows "\<exists>b c' w'. core_RecvZeroCopy w c (Ok [raw]) = Some (Ok [b], c', w') \<and>
    int (length (Buffer_Copy (pl_heap w') b)) = slab_size (pl_slabs w ! kc_pool c) \<and>
    take (length (Payload f)) (Buffer_Copy (pl_heap w') b) = Payload f"
proof -
  from pool_Get_ok [OF assms(1), of "PayloadLen f" "- 1"] obtain b w1 where
    g: "pool_Get w (kc_pool c) (PayloadLen f) (- 1) = Some (Ok (b, w1))" "pool_ok w1 (kc_pool c) (b # held)"
    "int (data_len b) = slab_size (pl_slabs w ! kc_pool c)" by blast
  obtain s where s: "Data b = Some s" using g(3) assms(2) by (cases "Data b") (auto simp: data_len_def)
  have ok: "slice_ok (pl_heap w1) s" using g(2) s by (auto simp: pool_ok_def client_ok_def buf_ok_def)
  have len: "length (Payload f) \<le> sl_len s" using g(3) assms(6) s by (simp add: data_len_def)
  let ?h = "copy_into (pl_heap w1) s (Payload f)"
  have bytes: "slice_bytes ?h s = Payload f @ take (sl_len s - length (Payload f)) (drop (sl_off s + length (Payload f)) (pl_heap w1 ! sl_arr s))"
    using ok len by (simp add: slice_bytes_def copy_into_def Let_def slice_ok_def min_absorb2)
  have "core_payload_buffer w (kc_pool c) f = Some (Ok (b, w1\<lparr>pl_heap := ?h\<rparr>))"
    using g(1) s len by (simp add: core_payload_buffer_def cut_payload_def data_len_def)
  then show ?thesis using assms(3-5) s g(3) bytes ok len
    by (auto simp: core_RecvZeroCopy_def Buffer_Copy_def data_len_def slice_ok_def)
qed

text \<open>
  Fact (the same server handshake).  The checks and the answer are those of \<^verbatim>\<open>protocol\<close>; the client's
  part does not return while the server keeps the connection open.
\<close>

theorem core_handshake_same: "core_DoHandshakeCore read = DoHandshakeCore read"
  by (cases read) (simp_all add: core_DoHandshakeCore_def DoHandshakeCore_def DoHandshakeCoreWithPath_def Let_def)

theorem core_client_handshake_waits:
  "DoClientHandshake read = Ok () \<Longrightarrow> core_DoClientHandshake read net False = None"
  by (cases read) (auto simp: DoClientHandshake_def core_DoClientHandshake_def split: if_splits)

end
