(* ===== verification/TicketQueue.thy ===== *)
theory TicketQueue
  imports Prelude
begin

text \<open>
  The sequence-number protocol of the core ring under arbitrary interleaving, with
  unbounded counters: the abstract machine that the 64-bit ring of \<open>RingMPMC\<close> refines.
  A thread's program counter names the next atomic access of \<^verbatim>\<open>Enqueue\<close> or
  \<^verbatim>\<open>Dequeue\<close> in \<^verbatim>\<open>core/concurrency/ring.go\<close>; the counter type is a parameter, so the
  two machines share it.
\<close>

section \<open>Threads\<close>

datatype ('c, 'a) pc =
    Idle
  | E_LoadTail 'a | E_LoadSeq 'a 'c | E_Cas 'a 'c | E_Write 'a 'c | E_Publish 'c | E_Done bool
  | D_LoadHead | D_LoadSeq 'c | D_Cas 'c | D_Read 'c | D_Publish 'c 'a | D_Done "'a option"
  | Panicked

text \<open>The ticket a thread has won and is still writing, or still reading.\<close>

fun writing :: "('c, 'a) pc \<Rightarrow> 'c option" where
  "writing (E_Write x t) = Some t"
| "writing (E_Publish t) = Some t"
| "writing _ = None"

fun reading :: "('c, 'a) pc \<Rightarrow> 'c option" where
  "reading (D_Read h) = Some h"
| "reading (D_Publish h x) = Some h"
| "reading _ = None"

fun ready :: "('c, 'a) pc \<Rightarrow> bool" where
  "ready Idle = False"
| "ready (E_Done b) = False"
| "ready (D_Done x) = False"
| "ready Panicked = False"
| "ready _ = True"

section \<open>The abstract machine\<close>

record 'a tq =
  tq_head :: nat
  tq_tail :: nat
  tq_seq :: "nat \<Rightarrow> nat"
  tq_dat :: "nat \<Rightarrow> 'a"
  tq_pcs :: "nat \<Rightarrow> (nat, 'a) pc"
  tq_pushed :: "'a list"
  tq_popped :: "(nat \<times> 'a) list"

text \<open>
  One step of thread \<open>t\<close> in a ring of \<open>n\<close> cells.  \<open>tq_pushed\<close> records the items in the
  order of the tickets won by producers, \<open>tq_popped\<close> the tickets and items of the
  consumers that finished.
\<close>

fun tq_step :: "nat \<Rightarrow> nat \<Rightarrow> (nat, 'a) pc \<Rightarrow> 'a tq \<Rightarrow> 'a tq" where
  "tq_step n t (E_LoadTail x) q = q\<lparr>tq_pcs := (tq_pcs q)(t := E_LoadSeq x (tq_tail q))\<rparr>"
| "tq_step n t (E_LoadSeq x w) q = q\<lparr>tq_pcs := (tq_pcs q)(t :=
     (if tq_seq q (w mod n) = w then E_Cas x w
      else if tq_seq q (w mod n) < w then E_Done False else E_LoadTail x))\<rparr>"
| "tq_step n t (E_Cas x w) q =
     (if tq_tail q = w
      then q\<lparr>tq_tail := Suc w, tq_pushed := tq_pushed q @ [x], tq_pcs := (tq_pcs q)(t := E_Write x w)\<rparr>
      else q\<lparr>tq_pcs := (tq_pcs q)(t := E_LoadTail x)\<rparr>)"
| "tq_step n t (E_Write x w) q =
     q\<lparr>tq_dat := (tq_dat q)(w mod n := x), tq_pcs := (tq_pcs q)(t := E_Publish w)\<rparr>"
| "tq_step n t (E_Publish w) q =
     q\<lparr>tq_seq := (tq_seq q)(w mod n := Suc w), tq_pcs := (tq_pcs q)(t := E_Done True)\<rparr>"
| "tq_step n t D_LoadHead q = q\<lparr>tq_pcs := (tq_pcs q)(t := D_LoadSeq (tq_head q))\<rparr>"
| "tq_step n t (D_LoadSeq w) q = q\<lparr>tq_pcs := (tq_pcs q)(t :=
     (if tq_seq q (w mod n) = Suc w then D_Cas w
      else if tq_seq q (w mod n) < Suc w then D_Done None else D_LoadHead))\<rparr>"
| "tq_step n t (D_Cas w) q =
     (if tq_head q = w
      then q\<lparr>tq_head := Suc w, tq_pcs := (tq_pcs q)(t := D_Read w)\<rparr>
      else q\<lparr>tq_pcs := (tq_pcs q)(t := D_LoadHead)\<rparr>)"
| "tq_step n t (D_Read w) q = q\<lparr>tq_pcs := (tq_pcs q)(t := D_Publish w (tq_dat q (w mod n)))\<rparr>"
| "tq_step n t (D_Publish w x) q =
     q\<lparr>tq_seq := (tq_seq q)(w mod n := w + n), tq_popped := tq_popped q @ [(w, x)],
       tq_pcs := (tq_pcs q)(t := D_Done (Some x))\<rparr>"
| "tq_step n t pc q = q"

section \<open>The invariant\<close>

fun pc_ok :: "nat \<Rightarrow> 'a tq \<Rightarrow> (nat, 'a) pc \<Rightarrow> bool" where
  "pc_ok n q (E_LoadSeq x w) \<longleftrightarrow> w \<le> tq_tail q"
| "pc_ok n q (E_Cas x w) \<longleftrightarrow> w \<le> tq_tail q \<and> (w = tq_tail q \<longrightarrow> tq_seq q (w mod n) = w)"
| "pc_ok n q (E_Write x w) \<longleftrightarrow> w < tq_tail q \<and> tq_head q \<le> w \<and> tq_seq q (w mod n) = w \<and>
     tq_pushed q ! w = x"
| "pc_ok n q (E_Publish w) \<longleftrightarrow> w < tq_tail q \<and> tq_head q \<le> w \<and> tq_seq q (w mod n) = w \<and>
     tq_dat q (w mod n) = tq_pushed q ! w"
| "pc_ok n q (D_LoadSeq w) \<longleftrightarrow> w \<le> tq_head q"
| "pc_ok n q (D_Cas w) \<longleftrightarrow> w \<le> tq_head q \<and> (w = tq_head q \<longrightarrow> tq_seq q (w mod n) = Suc w)"
| "pc_ok n q (D_Read w) \<longleftrightarrow> w < tq_head q \<and> tq_tail q \<le> w + n \<and> tq_seq q (w mod n) = Suc w"
| "pc_ok n q (D_Publish w x) \<longleftrightarrow> w < tq_head q \<and> tq_tail q \<le> w + n \<and>
     tq_seq q (w mod n) = Suc w \<and> x = tq_pushed q ! w"
| "pc_ok n q Panicked \<longleftrightarrow> False"
| "pc_ok n q _ \<longleftrightarrow> True"

text \<open>A cell is free for a ticket, or holds the item of the ticket before its number.\<close>

definition cell_ok :: "nat \<Rightarrow> 'a tq \<Rightarrow> nat \<Rightarrow> bool" where
  "cell_ok n q i \<longleftrightarrow> (tq_seq q i mod n = i \<and> tq_seq q i < tq_head q + n) \<or>
     (\<exists>j. tq_seq q i = Suc j \<and> j mod n = i \<and> j < tq_tail q \<and> tq_dat q i = tq_pushed q ! j)"

definition write_tickets :: "'a tq \<Rightarrow> nat set" where
  "write_tickets q = {j. \<exists>t. writing (tq_pcs q t) = Some j}"

definition read_tickets :: "'a tq \<Rightarrow> nat set" where
  "read_tickets q = {j. \<exists>t. reading (tq_pcs q t) = Some j}"

definition held_ok :: "nat \<Rightarrow> 'a tq \<Rightarrow> nat \<Rightarrow> bool" where
  "held_ok n q j \<longleftrightarrow> tq_seq q (j mod n) = Suc j \<or> j \<in> write_tickets q"

definition free_ok :: "nat \<Rightarrow> 'a tq \<Rightarrow> nat \<Rightarrow> bool" where
  "free_ok n q j \<longleftrightarrow> tq_seq q (j mod n) = j \<or> (\<exists>i\<in>read_tickets q. j = i + n)"

definition uniq_ok :: "'a tq \<Rightarrow> bool" where
  "uniq_ok q \<longleftrightarrow>
     (\<forall>t t' j. writing (tq_pcs q t) = Some j \<longrightarrow> writing (tq_pcs q t') = Some j \<longrightarrow> t = t') \<and>
     (\<forall>t t' j. reading (tq_pcs q t) = Some j \<longrightarrow> reading (tq_pcs q t') = Some j \<longrightarrow> t = t')"

text \<open>Every ticket below the head is being read or was delivered, once, with its item.\<close>

definition popped_ok :: "'a tq \<Rightarrow> bool" where
  "popped_ok q \<longleftrightarrow>
     (\<forall>(j, x)\<in>set (tq_popped q). x = tq_pushed q ! j) \<and>
     distinct (map fst (tq_popped q)) \<and>
     set (map fst (tq_popped q)) \<inter> read_tickets q = {} \<and>
     set (map fst (tq_popped q)) \<union> read_tickets q = {..<tq_head q}"

definition tq_inv :: "nat \<Rightarrow> 'a tq \<Rightarrow> bool" where
  "tq_inv n q \<longleftrightarrow>
     (2 \<le> n \<and> length (tq_pushed q) = tq_tail q \<and> tq_head q \<le> tq_tail q \<and> tq_tail q \<le> tq_head q + n) \<and>
     (\<forall>i<n. cell_ok n q i) \<and>
     (\<forall>j. tq_head q \<le> j \<longrightarrow> j < tq_tail q \<longrightarrow> held_ok n q j) \<and>
     (\<forall>j. tq_tail q \<le> j \<longrightarrow> j < tq_head q + n \<longrightarrow> free_ok n q j) \<and>
     (\<forall>t. pc_ok n q (tq_pcs q t)) \<and> uniq_ok q \<and> popped_ok q"

section \<open>Preservation\<close>

lemma Suc_mod_neq: "2 \<le> n \<Longrightarrow> Suc j mod n \<noteq> j mod n"
  by (simp add: mod_Suc)

text \<open>Two numbers in one cell: \<open>w\<close> and \<open>Suc j\<close> with equal indices of \<open>w\<close> and \<open>j\<close> differ.\<close>

lemma same_cell_neq: "2 \<le> n \<Longrightarrow> w mod n = j mod n \<Longrightarrow> w \<noteq> Suc j"
  using Suc_mod_neq by metis

lemma tq_invI:
  assumes "2 \<le> n \<and> length (tq_pushed q) = tq_tail q \<and> tq_head q \<le> tq_tail q \<and> tq_tail q \<le> tq_head q + n"
    "\<And>i. i < n \<Longrightarrow> cell_ok n q i"
    "\<And>j. tq_head q \<le> j \<Longrightarrow> j < tq_tail q \<Longrightarrow> held_ok n q j"
    "\<And>j. tq_tail q \<le> j \<Longrightarrow> j < tq_head q + n \<Longrightarrow> free_ok n q j"
    "\<And>t. pc_ok n q (tq_pcs q t)" "uniq_ok q" "popped_ok q"
  shows "tq_inv n q"
  unfolding tq_inv_def using assms by blast

lemma tq_invD:
  assumes "tq_inv n q"
  shows "2 \<le> n" "length (tq_pushed q) = tq_tail q" "tq_head q \<le> tq_tail q"
    "tq_tail q \<le> tq_head q + n"
    "\<And>i. i < n \<Longrightarrow> cell_ok n q i"
    "\<And>j. tq_head q \<le> j \<Longrightarrow> j < tq_tail q \<Longrightarrow> held_ok n q j"
    "\<And>j. tq_tail q \<le> j \<Longrightarrow> j < tq_head q + n \<Longrightarrow> free_ok n q j"
    "\<And>t. pc_ok n q (tq_pcs q t)" "uniq_ok q" "popped_ok q"
  using assms unfolding tq_inv_def by blast+

lemma uniq_upd:
  assumes "uniq_ok q" and "tq_pcs q' = (tq_pcs q)(t := p)"
    and "\<And>u j. writing p = Some j \<Longrightarrow> writing (tq_pcs q u) = Some j \<Longrightarrow> u = t"
    and "\<And>u j. reading p = Some j \<Longrightarrow> reading (tq_pcs q u) = Some j \<Longrightarrow> u = t"
  shows "uniq_ok q'"
  using assms(1) unfolding uniq_ok_def assms(2) fun_upd_apply
  using assms(3,4) by (smt (verit))

lemma popped_same:
  assumes "popped_ok q" and "tq_popped q' = tq_popped q" and "read_tickets q' = read_tickets q"
    and "tq_head q' = tq_head q" and "\<And>j. j < tq_head q \<Longrightarrow> tq_pushed q' ! j = tq_pushed q ! j"
  shows "popped_ok q'"
proof -
  have "j < tq_head q" if "(j, x) \<in> set (tq_popped q)" for j x
  proof -
    have "j \<in> set (map fst (tq_popped q)) \<union> read_tickets q" using that by force
    with assms(1) show ?thesis by (auto simp: popped_ok_def)
  qed
  with assms show ?thesis unfolding popped_ok_def by auto
qed

text \<open>The cell of a ticket \<open>w\<close> being written is not the cell of another ticket in use.\<close>

lemma other_cell:
  assumes "2 \<le> n" and "tq_seq q (w mod n) = w"
  shows "tq_seq q (v mod n) = v \<Longrightarrow> v \<noteq> w \<Longrightarrow> v mod n \<noteq> w mod n"
    and "tq_seq q (v mod n) = Suc v \<Longrightarrow> v mod n \<noteq> w mod n"
  using assms same_cell_neq [OF assms(1), of w v] by (metis, metis)

lemma writer_ok:
  "pc_ok n q pc \<Longrightarrow> writing pc = Some j \<Longrightarrow>
   j < tq_tail q \<and> tq_head q \<le> j \<and> tq_seq q (j mod n) = j"
  by (cases pc) auto

lemma reader_ok:
  "pc_ok n q pc \<Longrightarrow> reading pc = Some j \<Longrightarrow>
   j < tq_head q \<and> tq_tail q \<le> j + n \<and> tq_seq q (j mod n) = Suc j"
  by (cases pc) auto

lemma pc_ok_pcs [simp]: "pc_ok n (q\<lparr>tq_pcs := p\<rparr>) pc = pc_ok n q pc"
  by (cases pc) auto

lemma not_both: "writing pc = Some i \<Longrightarrow> reading pc = None"
  by (cases pc) auto

lemma tickets_upd:
  assumes "tq_pcs q' = (tq_pcs q)(t := p)"
  shows "write_tickets q' =
     {j. \<exists>u. u \<noteq> t \<and> writing (tq_pcs q u) = Some j} \<union> {j. writing p = Some j}"
  "read_tickets q' =
     {j. \<exists>u. u \<noteq> t \<and> reading (tq_pcs q u) = Some j} \<union> {j. reading p = Some j}"
  using assms by (auto simp: write_tickets_def read_tickets_def)

lemma tickets_split:
  "write_tickets q = {j. \<exists>u. u \<noteq> t \<and> writing (tq_pcs q u) = Some j} \<union> {j. writing (tq_pcs q t) = Some j}"
  "read_tickets q = {j. \<exists>u. u \<noteq> t \<and> reading (tq_pcs q u) = Some j} \<union> {j. reading (tq_pcs q t) = Some j}"
  by (auto simp: write_tickets_def read_tickets_def)

text \<open>A step that changes only the thread, and neither wins nor gives up a ticket.\<close>

lemma tq_inv_local:
  assumes inv: "tq_inv n q" and same: "writing p = writing (tq_pcs q t)" "reading p = reading (tq_pcs q t)"
    and ok: "pc_ok n q p"
  shows "tq_inv n (q\<lparr>tq_pcs := (tq_pcs q)(t := p)\<rparr>)"
proof -
  let ?q = "q\<lparr>tq_pcs := (tq_pcs q)(t := p)\<rparr>"
  have tick: "write_tickets ?q = write_tickets q" "read_tickets ?q = read_tickets q"
    using tickets_upd [of ?q q t p] tickets_split [of q t] same by simp_all
  have oks: "held_ok n ?q = held_ok n q" "free_ok n ?q = free_ok n q" "cell_ok n ?q = cell_ok n q"
    by (simp_all add: fun_eq_iff held_ok_def free_ok_def cell_ok_def tick)
  have thr: "writing (tq_pcs ?q u) = writing (tq_pcs q u)" "reading (tq_pcs ?q u) = reading (tq_pcs q u)" for u
    by (simp_all add: same)
  show ?thesis
  proof (rule tq_invI)
    show "uniq_ok ?q" using tq_invD(9) [OF inv] unfolding uniq_ok_def thr .
    show "popped_ok ?q" by (rule popped_same [OF tq_invD(10) [OF inv]]) (simp_all add: tick)
  qed (use tq_invD(1-8) [OF inv] ok in \<open>simp_all add: oks\<close>)
qed

text \<open>A producer wins the next ticket.\<close>

lemma tq_inv_enq_cas:
  assumes inv: "tq_inv n q" and pc: "tq_pcs q t = E_Cas x (tq_tail q)"
  shows "tq_inv n (q\<lparr>tq_tail := Suc (tq_tail q), tq_pushed := tq_pushed q @ [x],
    tq_pcs := (tq_pcs q)(t := E_Write x (tq_tail q))\<rparr>)" (is "tq_inv n ?q")
proof -
  note D = tq_invD [OF inv]
  let ?T = "tq_tail q"
  have seq: "tq_seq q (?T mod n) = ?T" using D(8) [of t] pc by simp
  have room: "?T < tq_head q + n"
  proof -
    have "cell_ok n q (?T mod n)" using D(1,5) by simp
    then show ?thesis using same_cell_neq [OF D(1)] seq by (auto simp: cell_ok_def)
  qed
  have wt: "write_tickets ?q = insert ?T (write_tickets q)" and rt: "read_tickets ?q = read_tickets q"
    using tickets_upd [of ?q q t "E_Write x (tq_tail q)"] tickets_split [of q t] pc by auto
  have lt: "j < ?T \<Longrightarrow> (tq_pushed q @ [x]) ! j = tq_pushed q ! j" for j
    using D(2) by (simp add: nth_append)
  have wlt: "writing (tq_pcs q u) = Some j \<Longrightarrow> j < ?T" for u j using writer_ok D(8) by blast
  have far: "tq_tail q \<noteq> j + n" if "tq_seq q (j mod n) = Suc j" for j
    using that seq same_cell_neq [OF D(1), of "j + n" j] by auto
  show ?thesis
  proof (rule tq_invI)
    fix u
    have "pc_ok n ?q (tq_pcs q u)"
      using D(8) [of u] D(3) far
      by (cases "tq_pcs q u") (auto simp: lt Suc_le_eq le_neq_implies_less)
    then show "pc_ok n ?q (tq_pcs ?q u)"
      using room D(2,3) seq by (simp add: nth_append)
  next
    fix i assume "i < n"
    from D(5) [OF this] show "cell_ok n ?q i"
      by (auto simp: cell_ok_def nth_append D(2) less_Suc_eq)
  next
    fix j assume "tq_head ?q \<le> j" "j < tq_tail ?q"
    then show "held_ok n ?q j" using D(6) [of j] by (auto simp: held_ok_def wt less_Suc_eq)
  next
    fix j assume "tq_tail ?q \<le> j" "j < tq_head ?q + n"
    then show "free_ok n ?q j" using D(7) [of j] by (auto simp: free_ok_def rt)
  next
    show "uniq_ok ?q" by (rule uniq_upd [OF D(9)]) (use wlt in force)+
    show "popped_ok ?q" by (rule popped_same [OF D(10)]) (use D(3) in \<open>auto simp: rt lt\<close>)
  qed (use D(1-4) room in simp)
qed

text \<open>A producer writes its item.\<close>

lemma tq_inv_enq_write:
  assumes inv: "tq_inv n q" and pc: "tq_pcs q t = E_Write x w"
  shows "tq_inv n (q\<lparr>tq_dat := (tq_dat q)(w mod n := x), tq_pcs := (tq_pcs q)(t := E_Publish w)\<rparr>)"
    (is "tq_inv n ?q")
proof -
  note D = tq_invD [OF inv]
  have w: "w < tq_tail q" "tq_head q \<le> w" "tq_seq q (w mod n) = w" "tq_pushed q ! w = x"
    using D(8) [of t] pc by simp_all
  have wt: "write_tickets ?q = write_tickets q" and rt: "read_tickets ?q = read_tickets q"
    using tickets_upd [of ?q q t "E_Publish w"] tickets_split [of q t] pc by auto
  have uniq: "writing (tq_pcs q u) = Some w \<Longrightarrow> u = t" for u
    using D(9) pc unfolding uniq_ok_def by (metis writing.simps(1,2))
  show ?thesis
  proof (rule tq_invI)
    fix u
    have "pc_ok n ?q (tq_pcs q u)" if "u \<noteq> t"
      using D(8) [of u] uniq [of u] that other_cell(1) [OF D(1) w(3)]
      by (cases "tq_pcs q u") auto
    then show "pc_ok n ?q (tq_pcs ?q u)" using w by simp
  next
    fix i assume "i < n"
    from D(5) [OF this] w(3) show "cell_ok n ?q i"
      using Suc_mod_neq [OF D(1), THEN not_sym] by (auto simp: cell_ok_def)
  next
    fix j assume "tq_head ?q \<le> j" "j < tq_tail ?q"
    then show "held_ok n ?q j" using D(6) [of j] by (simp add: held_ok_def wt)
  next
    fix j assume "tq_tail ?q \<le> j" "j < tq_head ?q + n"
    then show "free_ok n ?q j" using D(7) [of j] by (simp add: free_ok_def rt)
  next
    show "uniq_ok ?q" by (rule uniq_upd [OF D(9)]) (use uniq in auto)
    show "popped_ok ?q" by (rule popped_same [OF D(10)]) (simp_all add: rt)
  qed (use D(1-4) in simp)
qed

text \<open>A producer publishes its cell.\<close>

lemma tq_inv_enq_publish:
  assumes inv: "tq_inv n q" and pc: "tq_pcs q t = E_Publish w"
  shows "tq_inv n (q\<lparr>tq_seq := (tq_seq q)(w mod n := Suc w), tq_pcs := (tq_pcs q)(t := E_Done True)\<rparr>)"
    (is "tq_inv n ?q")
proof -
  note D = tq_invD [OF inv]
  have w: "w < tq_tail q" "tq_head q \<le> w" "tq_seq q (w mod n) = w"
    "tq_dat q (w mod n) = tq_pushed q ! w"
    using D(8) [of t] pc by simp_all
  have uniq: "writing (tq_pcs q u) = Some w \<Longrightarrow> u = t" for u
    using D(9) pc unfolding uniq_ok_def by (metis writing.simps(1,2))
  have wt: "write_tickets ?q = write_tickets q - {w}" and rt: "read_tickets ?q = read_tickets q"
    using tickets_upd [of ?q q t "E_Done True"] tickets_split [of q t] pc uniq by auto
  note ne = same_cell_neq [OF D(1), of w]
  show ?thesis
  proof (rule tq_invI)
    fix u
    have "pc_ok n ?q (tq_pcs q u)" if "u \<noteq> t"
      using D(8) [of u] uniq [of u] that w(1) other_cell [OF D(1) w(3)]
      by (cases "tq_pcs q u") auto
    then show "pc_ok n ?q (tq_pcs ?q u)" by simp
  next
    fix i assume "i < n"
    from D(5) [OF this] w show "cell_ok n ?q i" by (auto simp: cell_ok_def)
  next
    fix j assume "tq_head ?q \<le> j" "j < tq_tail ?q"
    then have "held_ok n q j" using D(6) by simp
    moreover have "j \<in> write_tickets q \<Longrightarrow> tq_seq q (j mod n) = j"
      using writer_ok D(8) by (force simp: write_tickets_def)
    ultimately show "held_ok n ?q j" using ne [of j] w(3) by (auto simp: held_ok_def wt)
  next
    fix j assume j: "tq_tail ?q \<le> j" "j < tq_head ?q + n"
    then have "free_ok n q j" using D(7) by simp
    moreover have "i \<in> read_tickets q \<Longrightarrow> tq_seq q (i mod n) = Suc i" for i
      using reader_ok D(8) by (force simp: read_tickets_def)
    ultimately show "free_ok n ?q j" using ne w j by (auto simp: free_ok_def rt)
  next
    show "uniq_ok ?q" by (rule uniq_upd [OF D(9)]) (use uniq in auto)
    show "popped_ok ?q" by (rule popped_same [OF D(10)]) (simp_all add: rt)
  qed (use D(1-4) in simp)
qed

text \<open>A consumer wins the next ticket.\<close>

lemma tq_inv_deq_cas:
  assumes inv: "tq_inv n q" and pc: "tq_pcs q t = D_Cas (tq_head q)"
  shows "tq_inv n (q\<lparr>tq_head := Suc (tq_head q), tq_pcs := (tq_pcs q)(t := D_Read (tq_head q))\<rparr>)"
    (is "tq_inv n ?q")
proof -
  note D = tq_invD [OF inv]
  let ?H = "tq_head q"
  have seq: "tq_seq q (?H mod n) = Suc ?H" using D(8) [of t] pc by simp
  have some: "?H < tq_tail q"
  proof -
    have "cell_ok n q (?H mod n)" using D(1,5) by simp
    then show ?thesis using Suc_mod_neq [OF D(1), of ?H] seq by (auto simp: cell_ok_def)
  qed
  have wt: "write_tickets ?q = write_tickets q" and rt: "read_tickets ?q = insert ?H (read_tickets q)"
    using tickets_upd [of ?q q t "D_Read ?H"] tickets_split [of q t] pc by auto
  have rlt: "reading (tq_pcs q u) = Some j \<Longrightarrow> j < ?H" for u j using reader_ok D(8) by blast
  have ne: "?H \<noteq> w" if "tq_seq q (w mod n) = w" for w using that seq by auto
  show ?thesis
  proof (rule tq_invI)
    fix u
    have "pc_ok n ?q (tq_pcs q u)"
      using D(8) [of u] ne by (cases "tq_pcs q u") (auto simp: Suc_le_eq le_neq_implies_less)
    then show "pc_ok n ?q (tq_pcs ?q u)" using D(4) seq by simp
  next
    fix i assume "i < n"
    from D(5) [OF this] show "cell_ok n ?q i" by (auto simp: cell_ok_def)
  next
    fix j assume "tq_head ?q \<le> j" "j < tq_tail ?q"
    then show "held_ok n ?q j" using D(6) [of j] by (simp add: held_ok_def wt)
  next
    fix j assume "tq_tail ?q \<le> j" "j < tq_head ?q + n"
    then show "free_ok n ?q j"
      using D(7) [of j] by (cases "j = ?H + n") (auto simp: free_ok_def rt)
  next
    show "uniq_ok ?q" by (rule uniq_upd [OF D(9)]) (use rlt in force)+
    show "popped_ok ?q" using D(10) unfolding popped_ok_def rt by (auto simp: lessThan_Suc)
  qed (use D(1-4) some in simp)
qed

text \<open>A consumer frees its cell for the next round.\<close>

lemma tq_inv_deq_publish:
  assumes inv: "tq_inv n q" and pc: "tq_pcs q t = D_Publish w x"
  shows "tq_inv n (q\<lparr>tq_seq := (tq_seq q)(w mod n := w + n), tq_popped := tq_popped q @ [(w, x)],
       tq_pcs := (tq_pcs q)(t := D_Done (Some x))\<rparr>)" (is "tq_inv n ?q")
proof -
  note D = tq_invD [OF inv]
  have w: "w < tq_head q" "tq_tail q \<le> w + n" "tq_seq q (w mod n) = Suc w" "x = tq_pushed q ! w"
    using D(8) [of t] pc by simp_all
  have uniq: "reading (tq_pcs q u) = Some w \<Longrightarrow> u = t" for u
    using D(9) pc unfolding uniq_ok_def by (metis reading.simps(1,2))
  have mem: "w \<in> read_tickets q" using pc by (auto simp: read_tickets_def intro!: exI [of _ t])
  have wt: "write_tickets ?q = write_tickets q" and rt: "read_tickets ?q = read_tickets q - {w}"
    using tickets_upd [of ?q q t "D_Done (Some x)"] tickets_split [of q t] pc uniq by auto
  have ne: "tq_seq q (v mod n) = v \<Longrightarrow> v mod n \<noteq> w mod n"
    "tq_seq q (v mod n) = Suc v \<Longrightarrow> v \<noteq> w \<Longrightarrow> v mod n \<noteq> w mod n" for v
    using w(3) same_cell_neq [OF D(1), of v w] by (metis, metis nat.inject)
  have reader: "i \<in> read_tickets q \<Longrightarrow> tq_seq q (i mod n) = Suc i" for i
    using reader_ok D(8) by (force simp: read_tickets_def)
  have writer: "i \<in> write_tickets q \<Longrightarrow> tq_seq q (i mod n) = i" for i
    using writer_ok D(8) by (force simp: write_tickets_def)
  show ?thesis
  proof (rule tq_invI)
    fix u
    have "pc_ok n ?q (tq_pcs q u)" if "u \<noteq> t"
      using D(8) [of u] uniq [of u] that w(1) ne by (cases "tq_pcs q u") auto
    then show "pc_ok n ?q (tq_pcs ?q u)" by simp
  next
    fix i assume "i < n"
    from D(5) [OF this] w(1) show "cell_ok n ?q i" by (auto simp: cell_ok_def)
  next
    fix j assume "tq_head ?q \<le> j" "j < tq_tail ?q"
    then show "held_ok n ?q j" using D(6) [of j] ne(2) [of j] w(1) by (auto simp: held_ok_def wt)
  next
    fix j assume j: "tq_tail ?q \<le> j" "j < tq_head ?q + n"
    show "free_ok n ?q j"
    proof (cases "j = w + n")
      case True
      then show ?thesis by (simp add: free_ok_def)
    next
      case False
      have "free_ok n q j" using D(7) j by simp
      with False ne(1) [of j] reader ne(2) show ?thesis by (auto simp: free_ok_def rt)
    qed
  next
    show "uniq_ok ?q" by (rule uniq_upd [OF D(9)]) auto
    show "popped_ok ?q" using D(10) mem w(1,4) unfolding popped_ok_def rt by auto
  qed (use D(1-4) in simp)
qed

text \<open>Every step keeps the invariant.\<close>

lemma tq_step_inv:
  assumes inv: "tq_inv n q"
  shows "tq_inv n (tq_step n t (tq_pcs q t) q)"
proof -
  note D = tq_invD [OF inv]
  note ok = D(8) [of t]
  have read: "tq_dat q (w mod n) = tq_pushed q ! w" if "tq_seq q (w mod n) = Suc w" for w
  proof -
    have "cell_ok n q (w mod n)" using D(1,5) by simp
    then show ?thesis using that Suc_mod_neq [OF D(1), of w] by (auto simp: cell_ok_def)
  qed
  show ?thesis
  proof (cases "tq_pcs q t")
    case (E_Cas x w)
    then show ?thesis
      using tq_inv_enq_cas [OF inv] by (auto intro!: tq_inv_local [OF inv])
  next
    case (D_Cas w)
    then show ?thesis
      using tq_inv_deq_cas [OF inv] by (auto intro!: tq_inv_local [OF inv])
  next
    case (D_Read w)
    then show ?thesis using ok read by (auto intro!: tq_inv_local [OF inv])
  next
    case (E_Write x w)
    then show ?thesis using tq_inv_enq_write [OF inv] by simp
  next
    case (E_Publish w)
    then show ?thesis using tq_inv_enq_publish [OF inv] by simp
  next
    case (D_Publish w x)
    then show ?thesis using tq_inv_deq_publish [OF inv] by simp
  qed (use ok inv in \<open>auto intro!: tq_inv_local [OF inv]\<close>)
qed

section \<open>Consequences\<close>

lemma popped_less:
  assumes "tq_inv n q" and "(j, x) \<in> set (tq_popped q)"
  shows "j < tq_head q" and "x = tq_pushed q ! j"
proof -
  have ok: "popped_ok q" using assms(1) by (rule tq_invD)
  have "j \<in> set (map fst (tq_popped q))" using assms(2) by force
  with ok show "j < tq_head q" unfolding popped_ok_def by blast
  from ok assms(2) show "x = tq_pushed q ! j" unfolding popped_ok_def by blast
qed

lemma read_ticket_ok:
  assumes "tq_inv n q" and "i \<in> read_tickets q"
  shows "i < tq_head q" and "tq_tail q \<le> i + n" and "tq_seq q (i mod n) = Suc i"
  using reader_ok [OF tq_invD(8) [OF assms(1)]] assms(2) by (auto simp: read_tickets_def)

lemma write_ticket_ok:
  assumes "tq_inv n q" and "j \<in> write_tickets q"
  shows "tq_head q \<le> j" and "j < tq_tail q" and "tq_seq q (j mod n) = j"
  using writer_ok [OF tq_invD(8) [OF assms(1)]] assms(2) by (auto simp: write_tickets_def)

lemma window_ex:
  assumes "w < h" and "0 < (n :: nat)"
  shows "\<exists>j\<ge>h. j < h + n \<and> j mod n = w mod n"
proof -
  define d where "d = (h + n - 1 - w) mod n"
  have d: "d < n" using assms(2) by (simp add: d_def)
  have "h + n - 1 - d = w + n * ((h + n - 1 - w) div n)"
  proof -
    have "n * ((h + n - 1 - w) div n) + d = h + n - 1 - w" by (simp add: d_def)
    with assms(1) show ?thesis by linarith
  qed
  then have "(h + n - 1 - d) mod n = w mod n" by simp
  with d assms(2) show ?thesis by (intro exI [of _ "h + n - 1 - d"]) auto
qed

text \<open>The cell of a ticket already consumed has moved past it.\<close>

lemma consumed_seq:
  assumes inv: "tq_inv n q" and w: "w < tq_head q"
  shows "w < tq_seq q (w mod n)"
proof -
  note D = tq_invD [OF inv]
  obtain j where j: "tq_head q \<le> j" "j < tq_head q + n" "j mod n = w mod n"
    using window_ex [OF w, of n] D(1) by auto
  show ?thesis
  proof (cases "j < tq_tail q")
    case True
    from D(6) [OF j(1) True] write_ticket_ok(3) [OF inv, of j] show ?thesis
      using j w by (auto simp: held_ok_def)
  next
    case False
    then have "free_ok n q j" using D(7) j by simp
    moreover have "w \<le> i" if "j = i + n" for i
    proof (rule ccontr)
      assume "\<not> w \<le> i"
      then have "n dvd w - i" using j(3) that
        by (metis mod_add_self2 mod_eq_dvd_iff_nat nat_le_linear)
      with \<open>\<not> w \<le> i\<close> have "n \<le> w - i" by (simp add: dvd_imp_le)
      with that j(1) w D(1) show False by arith
    qed
    ultimately show ?thesis
      using j w read_ticket_ok(3) [OF inv] by (fastforce simp: free_ok_def)
  qed
qed

text \<open>
  Refusals.  Where a producer sees an old number the ring is full or the consumer of the
  cell is still reading it; where a consumer sees one the ring is empty or the producer of
  the oldest item is still writing it.
\<close>

lemma tq_refused_full:
  assumes inv: "tq_inv n q" and "w \<le> tq_tail q" and old: "tq_seq q (w mod n) < w"
  shows "tq_tail q = tq_head q + n \<or> (\<exists>i\<in>read_tickets q. tq_tail q = i + n)"
proof -
  note D = tq_invD [OF inv]
  have "tq_head q \<le> w" using consumed_seq [OF inv, of w] old by (meson not_less order_less_asym)
  then have "w = tq_tail q"
    using D(6) [of w] assms(2) old write_ticket_ok(3) [OF inv, of w]
    by (cases "w < tq_tail q") (auto simp: held_ok_def)
  then show ?thesis using D(4) D(7) [of w] old
    by (cases "tq_tail q < tq_head q + n") (auto simp: free_ok_def)
qed

lemma tq_refused_empty:
  assumes inv: "tq_inv n q" and "w \<le> tq_head q" and old: "tq_seq q (w mod n) < Suc w"
  shows "tq_tail q = tq_head q \<or> tq_head q \<in> write_tickets q"
proof -
  note D = tq_invD [OF inv]
  have "w = tq_head q" using consumed_seq [OF inv, of w] old assms(2) by (meson not_less_eq nat_less_le)
  then show ?thesis using D(3) D(6) [of w] old
    by (cases "tq_head q < tq_tail q") (auto simp: held_ok_def)
qed

text \<open>Two threads never touch the data of one cell at the same time.\<close>

lemma tq_no_race:
  assumes inv: "tq_inv n q" and "t \<noteq> u" and w: "writing (tq_pcs q t) = Some w"
  shows "writing (tq_pcs q u) = Some v \<Longrightarrow> v mod n \<noteq> w mod n"
    and "reading (tq_pcs q u) = Some v \<Longrightarrow> v mod n \<noteq> w mod n"
proof -
  note D = tq_invD [OF inv]
  have seq: "tq_seq q (w mod n) = w" using writer_ok [OF D(8) w] by simp
  show "writing (tq_pcs q u) = Some v \<Longrightarrow> v mod n \<noteq> w mod n"
    using other_cell(1) [OF D(1) seq, of v] writer_ok [OF D(8), of u v] D(9) w assms(2)
    unfolding uniq_ok_def by metis
  show "reading (tq_pcs q u) = Some v \<Longrightarrow> v mod n \<noteq> w mod n"
    using other_cell(2) [OF D(1) seq, of v] reader_ok [OF D(8), of u v] by simp
qed

lemma tq_no_race_readers:
  assumes inv: "tq_inv n q" and "t \<noteq> u" and "reading (tq_pcs q t) = Some w"
    and "reading (tq_pcs q u) = Some v"
  shows "v mod n \<noteq> w mod n"
  using reader_ok [OF tq_invD(8) [OF inv] assms(3)] reader_ok [OF tq_invD(8) [OF inv] assms(4)]
    tq_invD(9) [OF inv] assms(2-4) unfolding uniq_ok_def by (metis nat.inject)

end
