(* ===== verification/RingMPMC.thy ===== *)
theory RingMPMC
  imports Ring TicketQueue
begin

unbundle bit_operations_syntax

text \<open>
  The core ring used by many producers and consumers at once.  A thread executes
  \<^verbatim>\<open>Enqueue\<close> or \<^verbatim>\<open>Dequeue\<close> of \<^verbatim>\<open>core/concurrency/ring.go\<close> one atomic access at a
  time, on the 64-bit counters; the scheduler picks any thread at any time.  Go's atomic
  operations are sequentially consistent, and the plain accesses to the data of a cell are
  shown not to race, so interleaving single accesses covers every execution.  The machine
  refines \<open>TicketQueue\<close> as long as fewer than \<open>2 ^ 63\<close> items (less the capacity) were
  enqueued; the bound keeps a sleeping thread's counter from recurring.
\<close>

section \<open>The machine\<close>

fun rb_step :: "'a RingBuffer \<Rightarrow> (uint64, 'a) pc \<Rightarrow> 'a RingBuffer \<times> (uint64, 'a) pc" where
  "rb_step r (E_LoadTail x) = (r, E_LoadSeq x (rb_tail r))"
| "rb_step r (E_LoadSeq x tail) =
     (let index = idx tail (rb_mask r)
      in if \<not> index < length (rb_cells r) then (r, Panicked)
         else
           let dif = dif64 (sequence (rb_cells r ! index)) tail
           in (r, if dif = 0 then E_Cas x tail else if dif < 0 then E_Done False else E_LoadTail x))"
| "rb_step r (E_Cas x tail) =
     (if rb_tail r = tail then (r\<lparr>rb_tail := tail + 1\<rparr>, E_Write x tail) else (r, E_LoadTail x))"
| "rb_step r (E_Write x tail) =
     (let index = idx tail (rb_mask r)
      in (r\<lparr>rb_cells := (rb_cells r)[index := (rb_cells r ! index)\<lparr>cdata := x\<rparr>]\<rparr>, E_Publish tail))"
| "rb_step r (E_Publish tail) =
     (let index = idx tail (rb_mask r)
      in (r\<lparr>rb_cells := (rb_cells r)[index := (rb_cells r ! index)\<lparr>sequence := tail + 1\<rparr>]\<rparr>,
          E_Done True))"
| "rb_step r D_LoadHead = (r, D_LoadSeq (rb_head r))"
| "rb_step r (D_LoadSeq head) =
     (let index = idx head (rb_mask r)
      in if \<not> index < length (rb_cells r) then (r, Panicked)
         else
           let dif = dif64 (sequence (rb_cells r ! index)) (head + 1)
           in (r, if dif = 0 then D_Cas head else if dif < 0 then D_Done None else D_LoadHead))"
| "rb_step r (D_Cas head) =
     (if rb_head r = head then (r\<lparr>rb_head := head + 1\<rparr>, D_Read head) else (r, D_LoadHead))"
| "rb_step r (D_Read head) = (r, D_Publish head (cdata (rb_cells r ! idx head (rb_mask r))))"
| "rb_step r (D_Publish head x) =
     (let index = idx head (rb_mask r)
      in (r\<lparr>rb_cells := (rb_cells r)[index :=
            (rb_cells r ! index)\<lparr>sequence := head + rb_mask r + 1\<rparr>]\<rparr>, D_Done (Some x)))"
| "rb_step r pc = (r, pc)"

record 'a mpmc =
  mp_ring :: "'a RingBuffer"
  mp_pcs :: "nat \<Rightarrow> (uint64, 'a) pc"
  mp_pushed :: "'a list"
  mp_popped :: "(nat \<times> 'a) list"

text \<open>
  The history: the items in the order in which their producers advanced the tail, and the
  tickets and items of the consumers that finished.
\<close>

definition mp_step :: "nat \<Rightarrow> 'a mpmc \<Rightarrow> 'a mpmc" where
  "mp_step t s =
     (let pc = mp_pcs s t;
          (r', pc') = rb_step (mp_ring s) pc
      in s\<lparr>mp_ring := r', mp_pcs := (mp_pcs s)(t := pc'),
           mp_pushed := (case (pc, pc') of (E_Cas x w, E_Write y v) \<Rightarrow> mp_pushed s @ [x]
                         | _ \<Rightarrow> mp_pushed s),
           mp_popped := (case pc of D_Publish w x \<Rightarrow> mp_popped s @ [(unat w, x)]
                         | _ \<Rightarrow> mp_popped s)\<rparr>)"

text \<open>What the scheduler can do: start a call on an idle thread, let a thread step, or let it return.\<close>

datatype 'a act = CallEnq nat 'a | CallDeq nat | Step nat | Return nat

fun mp_do :: "'a act \<Rightarrow> 'a mpmc \<Rightarrow> 'a mpmc option" where
  "mp_do (CallEnq t x) s =
     (case mp_pcs s t of Idle \<Rightarrow> Some (s\<lparr>mp_pcs := (mp_pcs s)(t := E_LoadTail x)\<rparr>) | _ \<Rightarrow> None)"
| "mp_do (CallDeq t) s =
     (case mp_pcs s t of Idle \<Rightarrow> Some (s\<lparr>mp_pcs := (mp_pcs s)(t := D_LoadHead)\<rparr>) | _ \<Rightarrow> None)"
| "mp_do (Step t) s = (if ready (mp_pcs s t) then Some (mp_step t s) else None)"
| "mp_do (Return t) s =
     (case mp_pcs s t of
        E_Done b \<Rightarrow> Some (s\<lparr>mp_pcs := (mp_pcs s)(t := Idle)\<rparr>)
      | D_Done x \<Rightarrow> Some (s\<lparr>mp_pcs := (mp_pcs s)(t := Idle)\<rparr>)
      | _ \<Rightarrow> None)"

definition mp_start :: "'a RingBuffer \<Rightarrow> 'a mpmc" where
  "mp_start r = \<lparr>mp_ring = r, mp_pcs = (\<lambda>_. Idle), mp_pushed = [], mp_popped = []\<rparr>"

inductive mp_reach :: "'a mpmc \<Rightarrow> 'a mpmc \<Rightarrow> bool" for s where
  mp_refl: "mp_reach s s"
| mp_act: "mp_reach s s' \<Longrightarrow> mp_do a s' = Some s'' \<Longrightarrow> mp_reach s s''"

primrec mp_run :: "'a act list \<Rightarrow> 'a mpmc \<Rightarrow> 'a mpmc option" where
  "mp_run [] s = Some s"
| "mp_run (a # as) s = (case mp_do a s of None \<Rightarrow> None | Some s' \<Rightarrow> mp_run as s')"

section \<open>A thread running alone is the sequential operation\<close>

definition solo :: "'a RingBuffer \<times> (uint64, 'a) pc \<Rightarrow> 'a RingBuffer \<times> (uint64, 'a) pc" where
  "solo = (\<lambda>(r, pc). rb_step r pc)"

lemma cell_overwrite: "(c :: 'a cell)\<lparr>cdata := x, sequence := n\<rparr> = \<lparr>sequence = n, cdata = x\<rparr>"
  by (cases c) simp

lemma solo_Enqueue:
  assumes "rb_Enqueue r x = Some (Ok (b, r'))"
  shows "\<exists>n. (solo ^^ n) (r, E_LoadTail x) = (r', E_Done b)"
proof -
  let ?i = "idx (rb_tail r) (rb_mask r)"
  have spin: "\<not> enq_spins r" using rb_Enqueue_spins [OF assms] .
  have "rb_Enqueue r x = Some (Ok (b, r'))" by (rule assms)
  then have lt: "?i < length (rb_cells r)"
    by (subst (asm) rb_Enqueue.simps) (auto simp: Let_def split: if_splits)
  show ?thesis
  proof (cases "dif64 (sequence (rb_cells r ! ?i)) (rb_tail r) = 0")
    case True
    with assms lt have "b" "r' = r\<lparr>rb_tail := rb_tail r + 1,
        rb_cells := (rb_cells r)[?i := \<lparr>sequence = rb_tail r + 1, cdata = x\<rparr>]\<rparr>"
      by (subst (asm) rb_Enqueue.simps, simp add: Let_def)+
    then show ?thesis using True lt
      by (intro exI [of _ 5]) (simp add: solo_def Let_def eval_nat_numeral cell_overwrite)
  next
    case False
    with spin lt have neg: "dif64 (sequence (rb_cells r ! ?i)) (rb_tail r) < 0"
      by (simp add: enq_spins_def)
    with assms lt have "\<not> b" "r' = r"
      by (subst (asm) rb_Enqueue.simps, simp add: Let_def)+
    then show ?thesis using neg lt
      by (intro exI [of _ 2]) (simp add: solo_def Let_def eval_nat_numeral)
  qed
qed

lemma solo_Dequeue:
  assumes "rb_Dequeue r = Some (Ok (y, r'))"
  shows "\<exists>n. (solo ^^ n) (r, D_LoadHead) = (r', D_Done y)"
proof -
  let ?i = "idx (rb_head r) (rb_mask r)"
  have spin: "\<not> deq_spins r" using rb_Dequeue_spins [OF assms] .
  have "rb_Dequeue r = Some (Ok (y, r'))" by (rule assms)
  then have lt: "?i < length (rb_cells r)"
    by (subst (asm) rb_Dequeue.simps) (auto simp: Let_def split: if_splits)
  show ?thesis
  proof (cases "dif64 (sequence (rb_cells r ! ?i)) (rb_head r + 1) = 0")
    case True
    with assms lt have "y = Some (cdata (rb_cells r ! ?i))" "r' = r\<lparr>rb_head := rb_head r + 1,
        rb_cells := (rb_cells r)[?i := (rb_cells r ! ?i)\<lparr>sequence := rb_head r + rb_mask r + 1\<rparr>]\<rparr>"
      by (subst (asm) rb_Dequeue.simps, simp add: Let_def)+
    then show ?thesis using True lt
      by (intro exI [of _ 5]) (simp add: solo_def Let_def eval_nat_numeral)
  next
    case False
    with spin lt have neg: "dif64 (sequence (rb_cells r ! ?i)) (rb_head r + 1) < 0"
      by (simp add: deq_spins_def)
    with assms lt have "y = None" "r' = r"
      by (subst (asm) rb_Dequeue.simps, simp add: Let_def)+
    then show ?thesis using neg lt
      by (intro exI [of _ 2]) (simp add: solo_def Let_def eval_nat_numeral)
  qed
qed

section \<open>Refinement\<close>

definition mp_abs :: "'a mpmc \<Rightarrow> 'a tq" where
  "mp_abs s = \<lparr>tq_head = unat (rb_head (mp_ring s)), tq_tail = unat (rb_tail (mp_ring s)),
     tq_seq = (\<lambda>i. unat (sequence (rb_cells (mp_ring s) ! i))),
     tq_dat = (\<lambda>i. cdata (rb_cells (mp_ring s) ! i)),
     tq_pcs = (\<lambda>t. map_pc unat id (mp_pcs s t)),
     tq_pushed = mp_pushed s, tq_popped = mp_popped s\<rparr>"

definition mp_shape :: "nat \<Rightarrow> 'a mpmc \<Rightarrow> bool" where
  "mp_shape k s \<longleftrightarrow> 0 < k \<and> k \<le> 62 \<and> rb_mask (mp_ring s) = of_nat (2 ^ k - 1) \<and>
     length (rb_cells (mp_ring s)) = 2 ^ k"

definition mp_bound :: "nat \<Rightarrow> 'a mpmc \<Rightarrow> bool" where
  "mp_bound k s \<longleftrightarrow> length (mp_pushed s) + 2 ^ k < 2 ^ 63"

definition mp_inv :: "nat \<Rightarrow> 'a mpmc \<Rightarrow> bool" where
  "mp_inv k s \<longleftrightarrow> mp_shape k s \<and> tq_inv (2 ^ k) (mp_abs s)"

lemma mp_abs_sel [simp]:
  "tq_head (mp_abs s) = unat (rb_head (mp_ring s))" "tq_tail (mp_abs s) = unat (rb_tail (mp_ring s))"
  "tq_seq (mp_abs s) i = unat (sequence (rb_cells (mp_ring s) ! i))"
  "tq_dat (mp_abs s) i = cdata (rb_cells (mp_ring s) ! i)"
  "tq_pcs (mp_abs s) t = map_pc unat id (mp_pcs s t)"
  "tq_pushed (mp_abs s) = mp_pushed s" "tq_popped (mp_abs s) = mp_popped s"
  by (simp_all add: mp_abs_def)

lemma mp_idx: "mp_shape k s \<Longrightarrow> idx w (rb_mask (mp_ring s)) = unat w mod 2 ^ k"
  by (rule idx_mask) (auto simp: mp_shape_def)

lemma unat_add_small:
  "unat (w :: uint64) + m < 2 ^ 64 \<Longrightarrow> unat (w + of_nat m) = unat w + m"
  by (simp add: unat_word_ariths unat_of_nat take_bit_eq_mod)

lemma unat_Suc_small: "unat (w :: uint64) < 2 ^ 63 \<Longrightarrow> unat (w + 1) = Suc (unat w)"
  using unat_add_small [of w 1] by simp

lemma map_fun_upd: "(\<lambda>u. f ((g(t := p)) u)) = (\<lambda>u. f (g u))(t := f p)"
  by auto

lemma seq_upd:
  "i < length cs \<Longrightarrow> (\<lambda>j. unat (sequence (cs[i := c] ! j))) = (\<lambda>j. unat (sequence (cs ! j)))(i := unat (sequence c))"
  "i < length cs \<Longrightarrow> (\<lambda>j. cdata (cs[i := c] ! j)) = (\<lambda>j. cdata (cs ! j))(i := cdata c)"
  by (auto simp: fun_eq_iff nth_list_update)

lemma dif64_signs:
  assumes "unat a < 2 ^ 63" and "unat b < 2 ^ 63"
  shows "dif64 a b = 0 \<longleftrightarrow> unat a = unat b" and "dif64 a b < 0 \<longleftrightarrow> unat a < unat b"
  unfolding dif64_unat [OF assms] by linarith+

text \<open>The counters in play are below \<open>2 ^ 63\<close>.\<close>

lemma mp_seq_small:
  assumes "mp_inv k s" and "mp_bound k s"
  shows "unat (sequence (rb_cells (mp_ring s) ! (i mod 2 ^ k))) < 2 ^ 63"
    and "unat (rb_tail (mp_ring s)) + 2 ^ k < 2 ^ 63" and "unat (rb_head (mp_ring s)) + 2 ^ k < 2 ^ 63"
proof -
  have inv: "tq_inv (2 ^ k) (mp_abs s)" using assms by (simp add: mp_inv_def)
  note D = tq_invD [OF inv]
  have "length (mp_pushed s) = unat (rb_tail (mp_ring s))" using D(2) by simp
  then show T: "unat (rb_tail (mp_ring s)) + 2 ^ k < 2 ^ 63"
    using assms(2) by (simp add: mp_bound_def)
  then show H: "unat (rb_head (mp_ring s)) + 2 ^ k < 2 ^ 63" using D(3) by simp
  have "cell_ok (2 ^ k) (mp_abs s) (i mod 2 ^ k)" using D(5) by simp
  then show "unat (sequence (rb_cells (mp_ring s) ! (i mod 2 ^ k))) < 2 ^ 63"
    using T H unfolding cell_ok_def by auto
qed

lemma mp_step_refines:
  assumes inv: "mp_inv k s" and bound: "mp_bound k s" and rdy: "ready (mp_pcs s t)"
  shows "mp_abs (mp_step t s) = tq_step (2 ^ k) t (tq_pcs (mp_abs s) t) (mp_abs s)"
proof -
  have shape: "mp_shape k s" and ok: "pc_ok (2 ^ k) (mp_abs s) (map_pc unat id (mp_pcs s t))"
    using inv tq_invD(8) [of "2 ^ k" "mp_abs s" t] by (auto simp: mp_inv_def)
  note small = mp_seq_small [OF inv bound]
  have len: "i mod 2 ^ k < length (rb_cells (mp_ring s))" for i
    using shape by (simp add: mp_shape_def)
  have m: "w + rb_mask (mp_ring s) + 1 = w + of_nat (2 ^ k)" for w
    using shape by (simp add: mp_shape_def of_nat_diff)
  note defs = mp_step_def mp_abs_def Let_def mp_idx [OF shape] len map_fun_upd seq_upd
    dif64_signs word_unat_eq_iff
  show ?thesis
  proof (cases "mp_pcs s t")
    case (E_LoadSeq x w)
    with ok small(2) have "unat w < 2 ^ 63" by simp
    with E_LoadSeq small(1) show ?thesis by (auto simp: defs simp del: fun_upd_apply)
  next
    case (D_LoadSeq w)
    have "2 \<le> (2 :: nat) ^ k" using inv tq_invD(1) by (auto simp: mp_inv_def)
    with D_LoadSeq ok small(3) have w: "unat w < 2 ^ 63" "Suc (unat w) < 2 ^ 63" by simp_all
    with D_LoadSeq small(1) show ?thesis by (auto simp: defs unat_Suc_small simp del: fun_upd_apply)
  next
    case (D_Publish w x)
    with ok small(3) have w: "unat w + 2 ^ k < 2 ^ 64" by simp
    with D_Publish show ?thesis by (simp add: defs m unat_add_small del: of_nat_power of_nat_numeral fun_upd_apply)
        (simp add: fun_eq_iff)
  next
    case (E_Publish w)
    with ok small(2) have w: "unat w < 2 ^ 63" by simp
    with E_Publish show ?thesis by (auto simp: defs unat_Suc_small simp del: fun_upd_apply)
  next
    case (E_Cas x w)
    with ok small(2) have w: "unat w < 2 ^ 63" by simp
    with E_Cas show ?thesis by (auto simp: defs unat_Suc_small simp del: fun_upd_apply)
  next
    case (D_Cas w)
    with ok small(3) have w: "unat w < 2 ^ 63" by simp
    with D_Cas show ?thesis by (auto simp: defs unat_Suc_small simp del: fun_upd_apply)
  qed (use rdy in \<open>auto simp: defs simp del: fun_upd_apply\<close>)
qed

section \<open>Every reachable state\<close>

lemma mp_abs_pcs: "mp_abs (s\<lparr>mp_pcs := (mp_pcs s)(t := p)\<rparr>) =
    (mp_abs s)\<lparr>tq_pcs := (tq_pcs (mp_abs s))(t := map_pc unat id p)\<rparr>"
  by (simp add: mp_abs_def map_fun_upd del: fun_upd_apply)

lemma mp_shape_step: "mp_shape k s \<Longrightarrow> mp_shape k (mp_step t s)"
  by (cases "mp_pcs s t") (auto simp: mp_shape_def mp_step_def Let_def)

lemma mp_do_inv:
  assumes inv: "mp_inv k s" and bound: "mp_bound k s" and "mp_do a s = Some s'"
  shows "mp_inv k s'"
proof -
  have tq: "tq_inv (2 ^ k) (mp_abs s)" and shape: "mp_shape k s" using inv by (auto simp: mp_inv_def)
  have loc: "mp_inv k (s\<lparr>mp_pcs := (mp_pcs s)(t := p)\<rparr>)"
    if "writing (mp_pcs s t) = None" "reading (mp_pcs s t) = None" "p \<in> {Idle, D_LoadHead} \<union> range E_LoadTail"
    for t p
  proof -
    have "tq_inv (2 ^ k) (mp_abs (s\<lparr>mp_pcs := (mp_pcs s)(t := p)\<rparr>))"
      unfolding mp_abs_pcs using that
      by (intro tq_inv_local [OF tq]) (cases "mp_pcs s t"; auto)+
    then show ?thesis using shape by (simp add: mp_inv_def mp_shape_def)
  qed
  show ?thesis
  proof (cases a)
    case (Step t)
    with assms(3) have "ready (mp_pcs s t)" and s': "s' = mp_step t s" by (auto split: if_splits)
    then have "mp_abs s' = tq_step (2 ^ k) t (tq_pcs (mp_abs s) t) (mp_abs s)"
      using mp_step_refines [OF inv bound] by simp
    then show ?thesis
      using tq_step_inv [OF tq] mp_shape_step [OF shape] by (simp add: mp_inv_def s')
  qed (use assms(3) loc in \<open>auto split: pc.splits\<close>)
qed

lemma mp_pushed_mono: "mp_do a s = Some s' \<Longrightarrow> length (mp_pushed s) \<le> length (mp_pushed s')"
  by (cases a) (auto simp: mp_step_def Let_def split: pc.splits if_splits prod.splits)

lemma mp_reach_inv:
  assumes "mp_reach s0 s" and "mp_inv k s0" and "mp_bound k s"
  shows "mp_inv k s"
  using assms
proof (induction rule: mp_reach.induct)
  case (mp_act s' a s'')
  then have "mp_bound k s'" using mp_pushed_mono [OF mp_act.hyps(2)] by (simp add: mp_bound_def)
  with mp_act show ?case by (blast intro: mp_do_inv)
qed simp

lemma mp_start_inv:
  assumes "0 < k" and "k \<le> 62"
  shows "mp_inv k (mp_start (rb_fresh zero k))"
proof -
  let ?q = "mp_abs (mp_start (rb_fresh zero k))"
  have "(2 :: nat) ^ k \<le> 2 ^ 62" using assms(2) by (rule pow_62_64)
  then have seq: "tq_seq ?q i = i" if "i < 2 ^ k" for i
    using that by (simp add: mp_start_def rb_fresh_def unat_of_nat take_bit_nat_eq_self)
  have zero: "tq_head ?q = 0" "tq_tail ?q = 0" "tq_pushed ?q = []" "tq_popped ?q = []"
    "tq_pcs ?q = (\<lambda>_. Idle)"
    by (simp_all add: mp_start_def rb_fresh_def fun_eq_iff)
  have "2 \<le> (2 :: nat) ^ k" using assms(1) by (cases k) auto
  then have "tq_inv (2 ^ k) ?q"
    unfolding tq_inv_def zero
    by (auto simp: cell_ok_def free_ok_def seq zero uniq_ok_def popped_ok_def read_tickets_def
        simp del: mp_abs_sel)
  then show ?thesis using assms by (simp add: mp_inv_def mp_shape_def) (simp add: mp_start_def rb_fresh_def)
qed

text \<open>No thread holds a ticket.\<close>

definition quiescent :: "'a mpmc \<Rightarrow> bool" where
  "quiescent s \<longleftrightarrow> (\<forall>t. writing (mp_pcs s t) = None \<and> reading (mp_pcs s t) = None)"

lemma map_pc_tickets [simp]:
  "writing (map_pc f g pc) = map_option f (writing pc)"
  "reading (map_pc f g pc) = map_option f (reading pc)"
  by (cases pc; simp)+

lemma quiescent_tickets:
  "quiescent s \<Longrightarrow> read_tickets (mp_abs s) = {} \<and> write_tickets (mp_abs s) = {}"
  by (simp add: quiescent_def read_tickets_def write_tickets_def)

lemma popped_count:
  assumes "tq_inv n q" and "read_tickets q = {}"
  shows "set (map fst (tq_popped q)) = {..<tq_head q}" and "length (tq_popped q) = tq_head q"
proof -
  show *: "set (map fst (tq_popped q)) = {..<tq_head q}"
    using tq_invD(10) [OF assms(1)] assms(2) by (simp add: popped_ok_def)
  have "distinct (map fst (tq_popped q))" using tq_invD(10) [OF assms(1)] by (simp add: popped_ok_def)
  from distinct_card [OF this] show "length (tq_popped q) = tq_head q"
    unfolding * by simp
qed

lemma quiescent_ring:
  assumes inv: "mp_inv k s" and bound: "mp_bound k s" and q: "quiescent s"
  shows "rb_wf k (mp_ring s)"
    and "rb_items (mp_ring s) = drop (unat (rb_head (mp_ring s))) (mp_pushed s)"
proof -
  let ?r = "mp_ring s"
  let ?H = "unat (rb_head ?r)"
  have tq: "tq_inv (2 ^ k) (mp_abs s)" and shape: "mp_shape k s" using inv by (auto simp: mp_inv_def)
  note D = tq_invD [OF tq, simplified]
  note small = mp_seq_small [OF inv bound]
  have cnt: "rb_count ?r = unat (rb_tail ?r) - ?H"
    using D(3) by (simp add: rb_count_def unat_sub word_le_nat_alt)
  have cell: "rb_cell ?r i = rb_cells ?r ! ((?H + i) mod 2 ^ k)" for i
    using shape unfolding rb_cell_def by (subst idx_add) (auto simp: mp_shape_def)
  have num: "unat (rb_head ?r + of_nat i) = ?H + i" "unat (rb_head ?r + of_nat i + 1) = Suc (?H + i)"
    if "i < 2 ^ k" for i
    using that small(3) unat_add_small [of "rb_head ?r" i] unat_add_small [of "rb_head ?r" "Suc i"]
    by (simp_all add: algebra_simps)
  have seq: "sequence (rb_cell ?r i) = rb_head ?r + of_nat i + (if i < rb_count ?r then 1 else 0)"
    if i: "i < 2 ^ k" for i
  proof (cases "i < rb_count ?r")
    case True
    then have "held_ok (2 ^ k) (mp_abs s) (?H + i)" using D(6) [of "?H + i"] cnt by simp
    then show ?thesis using quiescent_tickets [OF q] True i
      by (simp add: held_ok_def cell word_unat_eq_iff num)
  next
    case False
    then have "free_ok (2 ^ k) (mp_abs s) (?H + i)" using D(7) [of "?H + i"] cnt D(3) i by simp
    then show ?thesis using quiescent_tickets [OF q] False i
      by (simp add: free_ok_def cell word_unat_eq_iff num)
  qed
  show "rb_wf k ?r" using seq shape cnt D(4) by (auto simp: rb_wf_def mp_shape_def)
  have dat: "cdata (rb_cell ?r i) = mp_pushed s ! (?H + i)" if i: "i < rb_count ?r" for i
  proof -
    have lt: "i < 2 ^ k" using i cnt D(4) by simp
    have "cell_ok (2 ^ k) (mp_abs s) ((?H + i) mod 2 ^ k)" using D(5) by simp
    moreover have "unat (sequence (rb_cells ?r ! ((?H + i) mod 2 ^ k))) = Suc (?H + i)"
      using seq [OF lt] i num [OF lt] by (simp add: cell)
    ultimately show ?thesis
      using Suc_mod_neq [of "2 ^ k" "?H + i"] D(1) by (auto simp: cell_ok_def cell)
  qed
  show "rb_items ?r = drop ?H (mp_pushed s)"
    using D(2,3) by (intro nth_equalityI) (auto simp: rb_items_def dat cnt)
qed

lemma new_ring_fresh:
  assumes "NewRingBuffer alloc_max zero size0 = Ok r" and "unat size0 \<le> 2 ^ 62"
  shows "\<exists>k. 0 < k \<and> k \<le> 62 \<and> r = rb_fresh zero k"
proof -
  from ring_size_round [OF assms(2)] obtain k where k: "0 < k" "k \<le> 62"
    "unat (ring_size size0) = 2 ^ k" by blast
  have "2 ^ k \<le> alloc_max" using assms(1) k(3) by (auto simp: NewRingBuffer_def Let_def split: if_splits)
  from NewRingBuffer_fresh [OF k(3) this, of zero] assms(1) k show ?thesis by auto
qed

lemma mp_reach_new:
  assumes "NewRingBuffer alloc_max zero size0 = Ok r" and "unat size0 \<le> 2 ^ 62"
    and "mp_reach (mp_start r) s" and "length (mp_pushed s) + rb_Cap r < 2 ^ 63"
  shows "\<exists>k. mp_inv k s \<and> mp_bound k s \<and> rb_Cap r = 2 ^ k"
proof -
  from new_ring_fresh [OF assms(1,2)] obtain k where k: "0 < k" "k \<le> 62" "r = rb_fresh zero k"
    by blast
  then have cap: "rb_Cap r = 2 ^ k" by simp
  then have "mp_bound k s" using assms(4) by (simp add: mp_bound_def)
  with mp_reach_inv [OF assms(3)] mp_start_inv [OF k(1,2), of zero] k(3) cap show ?thesis by blast
qed

lemma mp_run_reach: "mp_run as s' = Some s'' \<Longrightarrow> mp_reach s s' \<Longrightarrow> mp_reach s s''"
  by (induction as arbitrary: s') (auto split: option.splits intro: mp_act)

text \<open>
  Schedules on a ring of two cells, for the witnesses: two producers race for the first
  ticket and a consumer takes it; a third item meets the full ring; two producers hold
  neighbouring tickets.
\<close>

definition demo_ring :: "nat RingBuffer" where
  "demo_ring = rb_fresh 0 1"

definition race_schedule :: "nat act list" where
  "race_schedule = [CallEnq 0 7, CallEnq 1 8, Step 0, Step 1, Step 0, Step 1, Step 1, Step 0,
     Step 1, Step 1, Step 0, Step 0, CallDeq 2, Step 2, Step 2, Step 0, Step 2, Step 0, Step 2, Step 0, Step 2,
     Return 0, Return 1, Return 2]"

definition full_schedule :: "nat act list" where
  "full_schedule = [CallEnq 0 7, Step 0, Step 0, Step 0, Step 0, Step 0, Return 0,
     CallEnq 0 8, Step 0, Step 0, Step 0, Step 0, Step 0, Return 0, CallEnq 0 9, Step 0]"

definition writers_schedule :: "nat act list" where
  "writers_schedule = [CallEnq 0 7, Step 0, Step 0, Step 0, CallEnq 1 8, Step 1, Step 1, Step 1]"

definition after :: "nat act list \<Rightarrow> nat mpmc" where
  "after as = (case mp_run as (mp_start demo_ring) of Some s \<Rightarrow> s | None \<Rightarrow> mp_start demo_ring)"

lemma after_reach: "mp_reach (mp_start demo_ring) (after as)"
  by (auto simp: after_def intro: mp_refl mp_run_reach split: option.splits)

lemma demo_ring_new: "NewRingBuffer 10 (0 :: nat) 2 = Ok demo_ring"
  by (simp add: NewRingBuffer_def ring_size_def demo_ring_def rb_fresh_def Let_def)

lemma demo_cap: "rb_Cap demo_ring = 2"
  by (simp add: demo_ring_def)

lemma after_race: "mp_popped (after race_schedule) = [(0, 8)]"
  "mp_pushed (after race_schedule) = [8, 7]"
  by code_simp+

lemma after_full: "mp_pcs (after full_schedule) 0 = E_LoadSeq 9 2"
  "mp_pcs (mp_step 0 (after full_schedule)) 0 = E_Done False"
  "mp_pushed (after full_schedule) = [7, 8]"
  by code_simp+

lemma after_writers: "writing (mp_pcs (after writers_schedule) 0) = Some 0"
  "writing (mp_pcs (after writers_schedule) 1) = Some 1"
  "mp_pushed (after writers_schedule) = [7, 8]"
  by code_simp+

section \<open>Properties\<close>

text \<open>
  Claim C8 (concurrent FIFO).  Start any number of producers and consumers on a new ring and
  interleave their accesses in any way, enqueuing fewer than \<open>2 ^ 63\<close> items less the
  capacity.  No access is out of range; every item delivered is the item of the ticket its
  consumer won, in the order in which the producers won theirs, and no ticket is delivered
  twice.  When no operation is in flight the ring is well formed, the delivered tickets are
  exactly the first ones, and the ring holds the remaining items in order: nothing is lost,
  duplicated or reordered.
\<close>

theorem mpmc_fifo:
  assumes "NewRingBuffer alloc_max zero size0 = Ok r" and "unat size0 \<le> 2 ^ 62"
    and "mp_reach (mp_start r) s" and "length (mp_pushed s) + rb_Cap r < 2 ^ 63"
  shows "(\<forall>t. mp_pcs s t \<noteq> Panicked) \<and>
    (\<forall>(j, x)\<in>set (mp_popped s). j < length (mp_pushed s) \<and> x = mp_pushed s ! j) \<and>
    distinct (map fst (mp_popped s)) \<and>
    (quiescent s \<longrightarrow> rb_inv 0 (mp_ring s) \<and>
       set (map fst (mp_popped s)) = {..<length (mp_popped s)} \<and>
       rb_items (mp_ring s) = drop (length (mp_popped s)) (mp_pushed s))"
proof -
  from mp_reach_new [OF assms] obtain k where inv: "mp_inv k s" and bound: "mp_bound k s" by blast
  then have tq: "tq_inv (2 ^ k) (mp_abs s)" by (simp add: mp_inv_def)
  note D = tq_invD [OF tq]
  have "mp_pcs s t \<noteq> Panicked" for t using D(8) [of t] by auto
  moreover have "j < length (mp_pushed s) \<and> x = mp_pushed s ! j" if "(j, x) \<in> set (mp_popped s)" for j x
    using popped_less [OF tq, of j x] D(2,3) that by simp
  moreover have "distinct (map fst (mp_popped s))" using D(10) by (simp add: popped_ok_def)
  moreover have "rb_inv 0 (mp_ring s) \<and> set (map fst (mp_popped s)) = {..<length (mp_popped s)} \<and>
      rb_items (mp_ring s) = drop (length (mp_popped s)) (mp_pushed s)" if "quiescent s"
    using quiescent_ring [OF inv bound that] popped_count [OF tq] quiescent_tickets [OF that]
    by (auto simp: rb_inv_def)
  ultimately show ?thesis by blast
qed

theorem mpmc_fifo_witness:
  "mp_popped (after race_schedule) = [(0, 8)] \<and> mp_pushed (after race_schedule) = [8, 7] \<and>
   (\<forall>t. mp_pcs (after race_schedule) t \<noteq> Panicked) \<and> distinct (map fst (mp_popped (after race_schedule)))"
  using mpmc_fifo [OF demo_ring_new _ after_reach [of race_schedule]]
  by (simp add: after_race demo_cap)

text \<open>
  Fact (refusals).  In every reachable state, a step that makes Enqueue answer false finds
  the ring full, or its cell still being read by the consumer of the previous round; a step
  that makes Dequeue answer false finds it empty, or the oldest item still being written.
\<close>

theorem mpmc_refusals:
  assumes "NewRingBuffer alloc_max zero size0 = Ok r" and "unat size0 \<le> 2 ^ 62"
    and "mp_reach (mp_start r) s" and "length (mp_pushed s) + rb_Cap r < 2 ^ 63"
  shows "(mp_pcs s t = E_LoadSeq x w \<longrightarrow> mp_pcs (mp_step t s) t = E_Done False \<longrightarrow>
      unat (rb_tail (mp_ring s)) = unat (rb_head (mp_ring s)) + rb_Cap r \<or>
      (\<exists>u i. reading (mp_pcs s u) = Some i \<and> unat (rb_tail (mp_ring s)) = unat i + rb_Cap r)) \<and>
    (mp_pcs s t = D_LoadSeq w \<longrightarrow> mp_pcs (mp_step t s) t = D_Done None \<longrightarrow>
      rb_tail (mp_ring s) = rb_head (mp_ring s) \<or>
      (\<exists>u. writing (mp_pcs s u) = Some (rb_head (mp_ring s))))"
proof -
  from mp_reach_new [OF assms] obtain k where inv: "mp_inv k s" and bound: "mp_bound k s"
    and cap: "rb_Cap r = 2 ^ k" by blast
  then have tq: "tq_inv (2 ^ k) (mp_abs s)" by (simp add: mp_inv_def)
  note ok = tq_invD(8) [OF tq, of t]
  have pc: "map_pc unat id (mp_pcs (mp_step t s) t) =
      tq_pcs (tq_step (2 ^ k) t (tq_pcs (mp_abs s) t) (mp_abs s)) t" if "ready (mp_pcs s t)"
    using mp_step_refines [OF inv bound that] by (metis mp_abs_sel(5))
  show ?thesis
  proof (intro conjI impI)
    assume at: "mp_pcs s t = E_LoadSeq x w" and to: "mp_pcs (mp_step t s) t = E_Done False"
    then have "tq_seq (mp_abs s) (unat w mod 2 ^ k) < unat w"
      using pc by (auto split: if_splits)
    from tq_refused_full [OF tq _ this] ok at
    show "unat (rb_tail (mp_ring s)) = unat (rb_head (mp_ring s)) + rb_Cap r \<or>
      (\<exists>u i. reading (mp_pcs s u) = Some i \<and> unat (rb_tail (mp_ring s)) = unat i + rb_Cap r)"
      by (auto simp: cap read_tickets_def)
  next
    assume at: "mp_pcs s t = D_LoadSeq w" and to: "mp_pcs (mp_step t s) t = D_Done None"
    then have "tq_seq (mp_abs s) (unat w mod 2 ^ k) < Suc (unat w)"
      using pc by (auto split: if_splits)
    from tq_refused_empty [OF tq _ this] ok at
    show "rb_tail (mp_ring s) = rb_head (mp_ring s) \<or>
      (\<exists>u. writing (mp_pcs s u) = Some (rb_head (mp_ring s)))"
      by (auto simp: write_tickets_def simp flip: word_unat_eq_iff)
  qed
qed

theorem mpmc_refusals_witness:
  "mp_pcs (after full_schedule) 0 = E_LoadSeq 9 2 \<and>
   mp_pcs (mp_step 0 (after full_schedule)) 0 = E_Done False \<and>
   (unat (rb_tail (mp_ring (after full_schedule))) = unat (rb_head (mp_ring (after full_schedule))) + 2 \<or>
    (\<exists>u i. reading (mp_pcs (after full_schedule) u) = Some i \<and>
       unat (rb_tail (mp_ring (after full_schedule))) = unat i + 2))"
  using mpmc_refusals [OF demo_ring_new _ after_reach [of full_schedule], of 0 9 2]
  by (simp add: after_full demo_cap)

text \<open>
  Fact (no data race).  In every reachable state two threads that hold tickets, one of
  them writing, work on different cells; so do two that read.
\<close>

theorem mpmc_no_race:
  assumes "NewRingBuffer alloc_max zero size0 = Ok r" and "unat size0 \<le> 2 ^ 62"
    and "mp_reach (mp_start r) s" and "length (mp_pushed s) + rb_Cap r < 2 ^ 63"
    and "t \<noteq> u" and "v \<in> set_option (writing (mp_pcs s t)) \<union> set_option (reading (mp_pcs s t))"
    and "w \<in> set_option (writing (mp_pcs s u)) \<union> set_option (reading (mp_pcs s u))"
  shows "idx v (rb_mask (mp_ring s)) \<noteq> idx w (rb_mask (mp_ring s))"
proof -
  from mp_reach_new [OF assms(1-4)] obtain k where inv: "mp_inv k s" by blast
  then have tq: "tq_inv (2 ^ k) (mp_abs s)" and sh: "mp_shape k s" by (simp_all add: mp_inv_def)
  have "unat v mod 2 ^ k \<noteq> unat w mod 2 ^ k"
    using assms(5-7) tq_no_race [OF tq, of t u "unat v" "unat w"]
      tq_no_race [OF tq, of u t "unat w" "unat v"] tq_no_race_readers [OF tq, of t u "unat v" "unat w"]
    by auto
  then show ?thesis by (simp add: mp_idx [OF sh])
qed

theorem mpmc_no_race_witness:
  "idx 0 (rb_mask (mp_ring (after writers_schedule))) \<noteq>
   idx 1 (rb_mask (mp_ring (after writers_schedule)))"
  using mpmc_no_race [OF demo_ring_new _ after_reach [of writers_schedule], of 0 1 0 1]
  by (simp add: after_writers [simplified] demo_cap)

end
