(* ===== verification/SpscRing.thy ===== *)
theory SpscRing
  imports Ring
begin

unbundle bit_operations_syntax

text \<open>
  \<^verbatim>\<open>internal/concurrency/ring.go\<close> and \<^verbatim>\<open>internal/concurrency/lock_free_queue.go\<close>: the
  ring buffers without sequence numbers.  Enqueue compares the wrapped difference of the
  counters, Dequeue compares the counters themselves, so the operations meet the contract
  of \<^verbatim>\<open>api/ring.go\<close> until the tail wraps.  The second half interleaves one producer and
  one consumer.
\<close>

section \<open>The ring\<close>

record 'a SpscRing =
  sp_data :: "'a list"
  sp_mask :: uint64
  sp_head :: uint64
  sp_tail :: uint64

definition sp_NewRingBuffer :: "nat \<Rightarrow> 'a \<Rightarrow> uint64 \<Rightarrow> 'a SpscRing outcome" where
  "sp_NewRingBuffer alloc_max zero sz =
     (if sz = 0 \<or> sz AND (sz - 1) \<noteq> 0 then Panic
      else if alloc_max < unat sz then Panic
      else Ok \<lparr>sp_data = replicate (unat sz) zero, sp_mask = sz - 1, sp_head = 0, sp_tail = 0\<rparr>)"

definition sp_Enqueue :: "'a SpscRing \<Rightarrow> 'a \<Rightarrow> (bool \<times> 'a SpscRing) outcome" where
  "sp_Enqueue r item =
     (let head = sp_head r;
          tail = sp_tail r
      in if tail - head \<ge> of_nat (length (sp_data r)) then Ok (False, r)
         else
           let i = idx tail (sp_mask r)
           in if i < length (sp_data r)
              then Ok (True, r\<lparr>sp_data := (sp_data r)[i := item], sp_tail := tail + 1\<rparr>)
              else Panic)"

definition sp_Dequeue :: "'a SpscRing \<Rightarrow> ('a option \<times> 'a SpscRing) outcome" where
  "sp_Dequeue r =
     (let head = sp_head r;
          tail = sp_tail r
      in if head \<ge> tail then Ok (None, r)
         else
           let i = idx head (sp_mask r)
           in if i < length (sp_data r)
              then Ok (Some (sp_data r ! i), r\<lparr>sp_head := head + 1\<rparr>)
              else Panic)"

definition sp_Len :: "'a SpscRing \<Rightarrow> int" where
  "sp_Len r = sint (sp_tail r - sp_head r)"

definition sp_Cap :: "'a SpscRing \<Rightarrow> nat" where
  "sp_Cap r = length (sp_data r)"

subsection \<open>The queue of the executor\<close>

record 'a iqueue =
  iq_mask :: uint64
  iq_entries :: "'a list"
  iq_head :: uint64
  iq_tail :: uint64

text \<open>The rounding loop is that of the core queue, from one up, without the minimum of two.\<close>

definition iq_NewLockFreeQueue :: "nat \<Rightarrow> 'a \<Rightarrow> int \<Rightarrow> 'a iqueue outcome option" where
  "iq_NewLockFreeQueue alloc_max zero capacity =
     map_option (\<lambda>sz.
         if int alloc_max < sz then Panic
         else Ok \<lparr>iq_mask = word_of_int (sz - 1), iq_entries = replicate (nat sz) zero,
                iq_head = 0, iq_tail = 0\<rparr>)
       (lfq_round capacity 1)"

definition iq_Enqueue :: "'a iqueue \<Rightarrow> 'a \<Rightarrow> (bool \<times> 'a iqueue) outcome" where
  "iq_Enqueue q val =
     (let head = iq_head q;
          tail = iq_tail q
      in if tail - head \<ge> of_nat (length (iq_entries q)) then Ok (False, q)
         else
           let i = idx tail (iq_mask q)
           in if i < length (iq_entries q)
              then Ok (True, q\<lparr>iq_tail := tail + 1, iq_entries := (iq_entries q)[i := val]\<rparr>)
              else Panic)"

definition iq_Dequeue :: "'a iqueue \<Rightarrow> ('a option \<times> 'a iqueue) outcome" where
  "iq_Dequeue q =
     (let head = iq_head q;
          tail = iq_tail q
      in if head \<ge> tail then Ok (None, q)
         else
           let i = idx head (iq_mask q)
           in if i < length (iq_entries q)
              then Ok (Some (iq_entries q ! i), q\<lparr>iq_head := head + 1\<rparr>)
              else Panic)"

section \<open>The contract holds until the tail wraps\<close>

definition sp_items :: "'a SpscRing \<Rightarrow> 'a list" where
  "sp_items r = map (\<lambda>j. sp_data r ! (j mod length (sp_data r))) [unat (sp_head r)..<unat (sp_tail r)]"

definition sp_inv :: "nat \<Rightarrow> 'a SpscRing \<Rightarrow> bool" where
  "sp_inv b r \<longleftrightarrow> (\<exists>k\<le>62. sp_mask r = of_nat (2 ^ k - 1) \<and> length (sp_data r) = 2 ^ k) \<and>
     unat (sp_head r) \<le> unat (sp_tail r) \<and>
     unat (sp_tail r) \<le> unat (sp_head r) + length (sp_data r) \<and>
     unat (sp_tail r) + b < 2 ^ 64"

lemma sp_idx:
  assumes "sp_inv b r"
  shows "idx w (sp_mask r) = unat w mod length (sp_data r)"
    and "unat w mod length (sp_data r) < length (sp_data r)"
proof -
  obtain k where "k \<le> 62" "sp_mask r = of_nat (2 ^ k - 1)" "length (sp_data r) = 2 ^ k"
    using assms by (auto simp: sp_inv_def)
  then show "idx w (sp_mask r) = unat w mod length (sp_data r)"
    "unat w mod length (sp_data r) < length (sp_data r)"
    using idx_mask [of "sp_mask r" k w] by simp_all
qed

lemma sp_length_small: "sp_inv b r \<Longrightarrow> length (sp_data r) \<le> 2 ^ 62"
  unfolding sp_inv_def using pow_62_64 by auto

lemma sp_full_iff:
  assumes "sp_inv b r"
  shows "of_nat (length (sp_data r)) \<le> sp_tail r - sp_head r \<longleftrightarrow>
    unat (sp_tail r) = unat (sp_head r) + length (sp_data r)"
proof -
  have "unat (sp_tail r - sp_head r) = unat (sp_tail r) - unat (sp_head r)"
    using assms by (intro unat_sub) (simp add: sp_inv_def word_le_nat_alt)
  moreover have "unat (of_nat (length (sp_data r)) :: uint64) = length (sp_data r)"
    using sp_length_small [OF assms] by (simp add: unat_of_nat take_bit_nat_eq_self)
  ultimately show ?thesis using assms by (auto simp: word_le_nat_alt sp_inv_def)
qed

lemma sp_unat_Suc: "sp_inv (Suc b) r \<Longrightarrow> unat (sp_tail r + 1) = Suc (unat (sp_tail r))"
  by (simp add: sp_inv_def unat_word_ariths)

lemma sp_items_snoc:
  fixes x :: 'a
  assumes inv: "sp_inv (Suc b) r" and room: "unat (sp_tail r) < unat (sp_head r) + length (sp_data r)"
  defines "r' \<equiv> r\<lparr>sp_data := (sp_data r)[idx (sp_tail r) (sp_mask r) := x], sp_tail := sp_tail r + 1\<rparr>"
  shows "sp_items r' = sp_items r @ [x]" and "sp_inv b r'"
proof -
  let ?n = "length (sp_data r)"
  have le: "unat (sp_head r) \<le> unat (sp_tail r)" using inv by (simp add: sp_inv_def)
  have "(sp_data r)[unat (sp_tail r) mod ?n := x] ! (j mod ?n) = sp_data r ! (j mod ?n)"
    if "unat (sp_head r) \<le> j" "j < unat (sp_tail r)" for j
    using mod_window_neq [OF that room] by simp
  then show "sp_items r' = sp_items r @ [x]"
    using le sp_idx(2) [OF inv, of "sp_tail r"]
    by (simp add: r'_def sp_items_def sp_unat_Suc [OF inv] sp_idx(1) [OF inv])
  show "sp_inv b r'" using inv room sp_unat_Suc [OF inv] by (auto simp: sp_inv_def r'_def)
qed

lemma sp_items_length: "length (sp_items r) = unat (sp_tail r) - unat (sp_head r)"
  by (simp add: sp_items_def)

lemma unat_Suc_less:
  assumes "unat (h :: uint64) < unat (t :: uint64)"
  shows "unat (h + 1) = Suc (unat h)"
proof -
  have "unat t < 2 ^ 64" using unsigned_less [of t] by simp
  then show ?thesis using assms by (simp add: unat_word_ariths)
qed

lemma sp_items_tl:
  assumes inv: "sp_inv b r" and lt: "unat (sp_head r) < unat (sp_tail r)"
  shows "sp_items r = sp_data r ! idx (sp_head r) (sp_mask r) # sp_items (r\<lparr>sp_head := sp_head r + 1\<rparr>)"
    and "sp_inv b (r\<lparr>sp_head := sp_head r + 1\<rparr>)"
proof -
  note Suc = unat_Suc_less [OF lt]
  show "sp_items r = sp_data r ! idx (sp_head r) (sp_mask r) # sp_items (r\<lparr>sp_head := sp_head r + 1\<rparr>)"
    using lt by (simp add: sp_items_def Suc sp_idx(1) [OF inv] upt_conv_Cons)
  show "sp_inv b (r\<lparr>sp_head := sp_head r + 1\<rparr>)"
    using inv lt by (auto simp: sp_inv_def Suc)
qed

interpretation sp: ring sp_inv sp_items sp_Cap "\<lambda>r x. Some (sp_Enqueue r x)" "\<lambda>r. Some (sp_Dequeue r)" sp_Len
proof unfold_locales
  fix b and r :: "'a SpscRing" and x :: 'a
  show "sp_inv (Suc b) r \<Longrightarrow> sp_inv b r" by (simp add: sp_inv_def)
  assume inv: "sp_inv b r"
  then have le: "unat (sp_head r) \<le> unat (sp_tail r)"
    and cap: "unat (sp_tail r) \<le> unat (sp_head r) + length (sp_data r)" by (auto simp: sp_inv_def)
  show "length (sp_items r) \<le> sp_Cap r" using cap by (simp add: sp_items_length sp_Cap_def)
  show "length (sp_items r) = sp_Cap r \<Longrightarrow> Some (sp_Enqueue r x) = Some (Ok (False, r))"
    using le cap sp_full_iff [OF inv]
    by (simp add: sp_items_length sp_Cap_def sp_Enqueue_def Let_def le_add_diff_inverse)
  show "sp_items r = [] \<Longrightarrow> Some (sp_Dequeue r) = Some (Ok (None, r))"
    using le by (auto simp: sp_items_def sp_Dequeue_def word_le_nat_alt Let_def)
  have "sp_tail r - sp_head r = of_nat (length (sp_items r))"
    using add_of_nat_diff [OF le] by (metis add_diff_cancel_left' sp_items_length)
  moreover have "length (sp_items r) < 2 ^ 63"
    using cap sp_length_small [OF inv] by (simp add: sp_items_length)
  ultimately show "sp_Len r = int (length (sp_items r))" by (simp only: sp_Len_def sint_of_nat_64)
next
  fix b and r :: "'a SpscRing" and x :: 'a
  assume inv: "sp_inv (Suc b) r" and lt: "length (sp_items r) < sp_Cap r"
  then have room: "unat (sp_tail r) < unat (sp_head r) + length (sp_data r)"
    by (auto simp: sp_items_length sp_Cap_def sp_inv_def)
  then have "sp_Enqueue r x = Ok (True, r\<lparr>sp_data := (sp_data r)[idx (sp_tail r) (sp_mask r) := x],
      sp_tail := sp_tail r + 1\<rparr>)"
    using sp_full_iff [OF inv] sp_idx [OF inv, of "sp_tail r"]
    by (simp add: sp_Enqueue_def Let_def)
  then show "\<exists>r'. Some (sp_Enqueue r x) = Some (Ok (True, r')) \<and> sp_inv b r' \<and>
      sp_items r' = sp_items r @ [x] \<and> sp_Cap r' = sp_Cap r"
    using sp_items_snoc [OF inv room, of x] by (auto simp: sp_Cap_def)
next
  fix b and r :: "'a SpscRing" and x :: 'a and xs
  assume inv: "sp_inv b r" and it: "sp_items r = x # xs"
  then have lt: "unat (sp_head r) < unat (sp_tail r)"
    using sp_items_length [of r] by simp
  then have "sp_Dequeue r = Ok (Some x, r\<lparr>sp_head := sp_head r + 1\<rparr>)"
    using sp_items_tl(1) [OF inv lt] it sp_idx [OF inv, of "sp_head r"]
    by (simp add: sp_Dequeue_def Let_def word_le_nat_alt)
  then show "\<exists>r'. Some (sp_Dequeue r) = Some (Ok (Some x, r')) \<and> sp_inv b r' \<and>
      sp_items r' = xs \<and> sp_Cap r' = sp_Cap r"
    using sp_items_tl [OF inv lt] it by (auto simp: sp_Cap_def)
qed

subsection \<open>The executor's queue, one call at a time, is the ring\<close>

definition iq_ring :: "'a iqueue \<Rightarrow> 'a SpscRing" where
  "iq_ring q = \<lparr>sp_data = iq_entries q, sp_mask = iq_mask q, sp_head = iq_head q, sp_tail = iq_tail q\<rparr>"

definition ring_iq :: "'a SpscRing \<Rightarrow> 'a iqueue" where
  "ring_iq r = \<lparr>iq_mask = sp_mask r, iq_entries = sp_data r, iq_head = sp_head r, iq_tail = sp_tail r\<rparr>"

lemma ring_iq_inverse [simp]: "ring_iq (iq_ring q) = q" "iq_ring (ring_iq r) = r"
  by (simp_all add: iq_ring_def ring_iq_def)

lemma iq_Enqueue_eq:
  "iq_Enqueue q v = bind_outcome (sp_Enqueue (iq_ring q) v) (\<lambda>(b, r). Ok (b, ring_iq r))"
  by (cases q) (simp add: iq_Enqueue_def sp_Enqueue_def iq_ring_def ring_iq_def Let_def)

lemma iq_Dequeue_eq:
  "iq_Dequeue q = bind_outcome (sp_Dequeue (iq_ring q)) (\<lambda>(x, r). Ok (x, ring_iq r))"
  by (cases q) (simp add: iq_Dequeue_def sp_Dequeue_def iq_ring_def ring_iq_def Let_def)

interpretation iq: ring "\<lambda>b q. sp_inv b (iq_ring q)" "\<lambda>q. sp_items (iq_ring q)" "\<lambda>q. sp_Cap (iq_ring q)"
  "\<lambda>q x. Some (iq_Enqueue q x)" "\<lambda>q. Some (iq_Dequeue q)" "\<lambda>q. sp_Len (iq_ring q)"
proof unfold_locales
  fix b and q :: "'a iqueue" and x :: 'a and xs
  show "sp_inv (Suc b) (iq_ring q) \<Longrightarrow> sp_inv b (iq_ring q)" by (rule sp.inv_Suc)
  show "sp_inv (Suc b) (iq_ring q) \<Longrightarrow> length (sp_items (iq_ring q)) < sp_Cap (iq_ring q) \<Longrightarrow>
      \<exists>q'. Some (iq_Enqueue q x) = Some (Ok (True, q')) \<and> sp_inv b (iq_ring q') \<and>
        sp_items (iq_ring q') = sp_items (iq_ring q) @ [x] \<and> sp_Cap (iq_ring q') = sp_Cap (iq_ring q)"
    using sp.enq_room [of b "iq_ring q" x] by (force simp: iq_Enqueue_eq)
  assume inv: "sp_inv b (iq_ring q)"
  show "length (sp_items (iq_ring q)) \<le> sp_Cap (iq_ring q)" using inv by (rule sp.items_cap)
  show "length (sp_items (iq_ring q)) = sp_Cap (iq_ring q) \<Longrightarrow> Some (iq_Enqueue q x) = Some (Ok (False, q))"
    using sp.enq_full [OF inv, of x] by (simp add: iq_Enqueue_eq)
  show "sp_items (iq_ring q) = x # xs \<Longrightarrow>
      \<exists>q'. Some (iq_Dequeue q) = Some (Ok (Some x, q')) \<and> sp_inv b (iq_ring q') \<and>
        sp_items (iq_ring q') = xs \<and> sp_Cap (iq_ring q') = sp_Cap (iq_ring q)"
    using sp.deq_item [OF inv, of x xs] by (force simp: iq_Dequeue_eq)
  show "sp_items (iq_ring q) = [] \<Longrightarrow> Some (iq_Dequeue q) = Some (Ok (None, q))"
    using sp.deq_empty [OF inv] by (simp add: iq_Dequeue_eq)
  show "sp_Len (iq_ring q) = int (length (sp_items (iq_ring q)))" using inv by (rule sp.len_items)
qed

section \<open>One producer, one consumer\<close>

text \<open>The accesses of Enqueue and Dequeue of the ring, one per step.\<close>

datatype 'a prod_pc = P_Idle | P_Head 'a | P_Tail 'a uint64 | P_Write 'a uint64 | P_Store 'a uint64 | P_Done bool

datatype 'a cons_pc = C_Idle | C_Head | C_Tail uint64 | C_Read uint64 | C_Store uint64 'a | C_Done "'a option"

record 'a spsc =
  ss_ring :: "'a SpscRing"
  ss_prod :: "'a prod_pc"
  ss_cons :: "'a cons_pc"
  ss_sent :: "'a list"
  ss_got :: "'a list"

fun prod_step :: "'a spsc \<Rightarrow> 'a spsc" where
  "prod_step s =
     (let r = ss_ring s
      in case ss_prod s of
           P_Head x \<Rightarrow> s\<lparr>ss_prod := P_Tail x (sp_head r)\<rparr>
         | P_Tail x head \<Rightarrow> s\<lparr>ss_prod :=
             (if sp_tail r - head \<ge> of_nat (length (sp_data r)) then P_Done False
              else P_Write x (sp_tail r))\<rparr>
         | P_Write x tail \<Rightarrow> s\<lparr>ss_ring := r\<lparr>sp_data := (sp_data r)[idx tail (sp_mask r) := x]\<rparr>,
             ss_prod := P_Store x tail\<rparr>
         | P_Store x tail \<Rightarrow> s\<lparr>ss_ring := r\<lparr>sp_tail := tail + 1\<rparr>, ss_prod := P_Done True,
             ss_sent := ss_sent s @ [x]\<rparr>
         | _ \<Rightarrow> s)"

fun cons_step :: "'a spsc \<Rightarrow> 'a spsc" where
  "cons_step s =
     (let r = ss_ring s
      in case ss_cons s of
           C_Head \<Rightarrow> s\<lparr>ss_cons := C_Tail (sp_head r)\<rparr>
         | C_Tail head \<Rightarrow> s\<lparr>ss_cons := (if head \<ge> sp_tail r then C_Done None else C_Read head)\<rparr>
         | C_Read head \<Rightarrow> s\<lparr>ss_cons := C_Store head (sp_data r ! idx head (sp_mask r))\<rparr>
         | C_Store head x \<Rightarrow> s\<lparr>ss_ring := r\<lparr>sp_head := head + 1\<rparr>, ss_cons := C_Done (Some x),
             ss_got := ss_got s @ [x]\<rparr>
         | _ \<Rightarrow> s)"

inductive spsc_reach :: "'a SpscRing \<Rightarrow> 'a spsc \<Rightarrow> bool" for r where
  spsc_init: "spsc_reach r \<lparr>ss_ring = r, ss_prod = P_Idle, ss_cons = C_Idle, ss_sent = [], ss_got = []\<rparr>"
| spsc_enq: "spsc_reach r s \<Longrightarrow> ss_prod s = P_Idle \<Longrightarrow> spsc_reach r (s\<lparr>ss_prod := P_Head x\<rparr>)"
| spsc_deq: "spsc_reach r s \<Longrightarrow> ss_cons s = C_Idle \<Longrightarrow> spsc_reach r (s\<lparr>ss_cons := C_Head\<rparr>)"
| spsc_prod: "spsc_reach r s \<Longrightarrow> spsc_reach r (prod_step s)"
| spsc_cons: "spsc_reach r s \<Longrightarrow> spsc_reach r (cons_step s)"
| spsc_enq_ret: "spsc_reach r s \<Longrightarrow> ss_prod s = P_Done b \<Longrightarrow> spsc_reach r (s\<lparr>ss_prod := P_Idle\<rparr>)"
| spsc_deq_ret: "spsc_reach r s \<Longrightarrow> ss_cons s = C_Done x \<Longrightarrow> spsc_reach r (s\<lparr>ss_cons := C_Idle\<rparr>)"

fun prod_ok :: "'a SpscRing \<Rightarrow> 'a prod_pc \<Rightarrow> bool" where
  "prod_ok r (P_Tail x head) \<longleftrightarrow> unat head \<le> unat (sp_head r)"
| "prod_ok r (P_Write x tail) \<longleftrightarrow> tail = sp_tail r \<and>
     unat (sp_tail r) < unat (sp_head r) + length (sp_data r)"
| "prod_ok r (P_Store x tail) \<longleftrightarrow> tail = sp_tail r \<and>
     unat (sp_tail r) < unat (sp_head r) + length (sp_data r) \<and>
     sp_data r ! (unat (sp_tail r) mod length (sp_data r)) = x"
| "prod_ok r _ \<longleftrightarrow> True"

fun cons_ok :: "'a SpscRing \<Rightarrow> 'a cons_pc \<Rightarrow> bool" where
  "cons_ok r (C_Tail head) \<longleftrightarrow> head = sp_head r"
| "cons_ok r (C_Read head) \<longleftrightarrow> head = sp_head r \<and> head < sp_tail r"
| "cons_ok r (C_Store head x) \<longleftrightarrow> head = sp_head r \<and> head < sp_tail r \<and> hd (sp_items r) = x"
| "cons_ok r _ \<longleftrightarrow> True"

definition spsc_inv :: "'a spsc \<Rightarrow> bool" where
  "spsc_inv s \<longleftrightarrow> sp_inv 0 (ss_ring s) \<and> length (ss_sent s) = unat (sp_tail (ss_ring s)) \<and>
     ss_got s @ sp_items (ss_ring s) = ss_sent s \<and>
     prod_ok (ss_ring s) (ss_prod s) \<and> cons_ok (ss_ring s) (ss_cons s)"

lemma sp_write_items:
  assumes inv: "sp_inv b r" and room: "unat (sp_tail r) < unat (sp_head r) + length (sp_data r)"
  shows "sp_items (r\<lparr>sp_data := (sp_data r)[idx (sp_tail r) (sp_mask r) := x]\<rparr>) = sp_items r"
  using mod_window_neq [OF _ _ room, THEN not_sym]
  by (auto simp: sp_items_def sp_idx(1) [OF inv] intro!: nth_list_update_neq)

lemma sp_items_nonempty:
  "sp_head r < sp_tail r \<Longrightarrow> sp_items r \<noteq> []"
  by (simp add: sp_items_def word_less_nat_alt)

lemma prod_room:
  assumes inv: "sp_inv b r" and "unat h \<le> unat (sp_head r)"
    and "\<not> of_nat (length (sp_data r)) \<le> sp_tail r - h"
  shows "unat (sp_tail r) < unat (sp_head r) + length (sp_data r)"
proof -
  have le: "unat h \<le> unat (sp_tail r)" using inv assms(2) by (auto simp: sp_inv_def)
  then have "unat (sp_tail r - h) = unat (sp_tail r) - unat h"
    by (intro unat_sub) (simp add: word_le_nat_alt)
  moreover have "unat (of_nat (length (sp_data r)) :: uint64) = length (sp_data r)"
    using sp_length_small [OF inv] by (simp add: unat_of_nat take_bit_nat_eq_self)
  ultimately show ?thesis using assms(2,3) le by (simp add: word_le_nat_alt)
qed

lemma prod_step_inv:
  assumes inv: "spsc_inv s" and bound: "length (ss_sent (prod_step s)) < 2 ^ 64"
  shows "spsc_inv (prod_step s)"
proof -
  let ?r = "ss_ring s"
  have sp: "sp_inv 0 ?r" and ok: "prod_ok ?r (ss_prod s)" "cons_ok ?r (ss_cons s)"
    and sent: "length (ss_sent s) = unat (sp_tail ?r)" "ss_got s @ sp_items ?r = ss_sent s"
    using inv by (auto simp: spsc_inv_def)
  show ?thesis
  proof (cases "ss_prod s")
    case (P_Tail x h)
    then show ?thesis using inv ok prod_room [OF sp, of h] by (auto simp: spsc_inv_def Let_def)
  next
    case (P_Write x w)
    let ?r' = "?r\<lparr>sp_data := (sp_data ?r)[idx (sp_tail ?r) (sp_mask ?r) := x]\<rparr>"
    have room: "w = sp_tail ?r" "unat (sp_tail ?r) < unat (sp_head ?r) + length (sp_data ?r)"
      using ok P_Write by simp_all
    have items: "sp_items ?r' = sp_items ?r" using sp_write_items [OF sp room(2)] .
    have "cons_ok ?r' (ss_cons s)" using ok(2) items by (cases "ss_cons s") auto
    then show ?thesis using P_Write inv items room sp_idx [OF sp, of "sp_tail ?r"]
      by (simp add: spsc_inv_def sp_inv_def Let_def)
  next
    case (P_Store x w)
    let ?r' = "?r\<lparr>sp_tail := sp_tail ?r + 1\<rparr>"
    have room: "w = sp_tail ?r" "unat (sp_tail ?r) < unat (sp_head ?r) + length (sp_data ?r)"
      and x: "sp_data ?r ! idx (sp_tail ?r) (sp_mask ?r) = x"
      using ok P_Store by (simp_all add: sp_idx(1) [OF sp])
    have sp1: "sp_inv (Suc 0) ?r" using sp bound sent(1) P_Store by (simp add: sp_inv_def Let_def)
    have same: "(sp_data ?r)[idx (sp_tail ?r) (sp_mask ?r) := x] = sp_data ?r"
      using x by (metis list_update_id)
    have new: "sp_items ?r' = sp_items ?r @ [x]" "sp_inv 0 ?r'"
      using sp_items_snoc [OF sp1 room(2), of x] unfolding same by simp_all
    have "cons_ok ?r' (ss_cons s)"
      using ok(2) sp_unat_Suc [OF sp1] sp_items_nonempty [of ?r]
      by (cases "ss_cons s") (auto simp: new word_less_nat_alt)
    then show ?thesis using P_Store room new sent sp_unat_Suc [OF sp1]
      by (simp add: spsc_inv_def Let_def)
  qed (use inv in \<open>auto simp: spsc_inv_def Let_def\<close>)
qed

lemma cons_step_inv:
  assumes inv: "spsc_inv s"
  shows "spsc_inv (cons_step s)"
proof -
  let ?r = "ss_ring s"
  have sp: "sp_inv 0 ?r" and ok: "prod_ok ?r (ss_prod s)" "cons_ok ?r (ss_cons s)"
    and sent: "length (ss_sent s) = unat (sp_tail ?r)" "ss_got s @ sp_items ?r = ss_sent s"
    using inv by (auto simp: spsc_inv_def)
  show ?thesis
  proof (cases "ss_cons s")
    case (C_Read h)
    then have lt: "unat (sp_head ?r) < unat (sp_tail ?r)" "h = sp_head ?r"
      using ok by (auto simp: word_less_nat_alt)
    show ?thesis using C_Read ok inv sp_items_tl(1) [OF sp lt(1)] by (auto simp: spsc_inv_def Let_def)
  next
    case (C_Store h x)
    then have lt: "unat (sp_head ?r) < unat (sp_tail ?r)" "h = sp_head ?r" "hd (sp_items ?r) = x"
      using ok by (auto simp: word_less_nat_alt)
    let ?r' = "?r\<lparr>sp_head := sp_head ?r + 1\<rparr>"
    note tl = sp_items_tl [OF sp lt(1)]
    have "prod_ok ?r' (ss_prod s)"
      using ok(1) unat_Suc_less [OF lt(1)] by (cases "ss_prod s") auto
    moreover have "sp_items ?r = x # sp_items ?r'" using tl(1) lt(3) by simp
    ultimately show ?thesis using C_Store tl(2) sent lt(2) by (simp add: spsc_inv_def Let_def)
  qed (use inv in \<open>auto simp: spsc_inv_def Let_def\<close>)
qed

lemma sent_mono:
  "length (ss_sent s) \<le> length (ss_sent (prod_step s))" "ss_sent (cons_step s) = ss_sent s"
  by (auto simp: Let_def split: prod_pc.splits cons_pc.splits)

lemma spsc_reach_inv:
  assumes "spsc_reach r s" and "sp_inv 0 r" and "sp_head r = 0" and "sp_tail r = 0"
    and "length (ss_sent s) < 2 ^ 64"
  shows "spsc_inv s"
  using assms(1,5)
proof (induction rule: spsc_reach.induct)
  case spsc_init
  then show ?case using assms(2-4) by (simp add: spsc_inv_def sp_items_def)
next
  case (spsc_prod s)
  have "length (ss_sent s) < 2 ^ 64" using sent_mono(1) [of s] spsc_prod.prems by linarith
  with spsc_prod show ?case using prod_step_inv by blast
next
  case (spsc_cons s)
  then show ?case using cons_step_inv sent_mono(2) by metis
qed (auto simp: spsc_inv_def)

lemma sp_new_inv:
  assumes "sp_NewRingBuffer alloc_max zero sz = Ok r" and "unat sz \<le> 2 ^ 62"
  shows "sp_inv 0 r" and "sp_head r = 0" and "sp_tail r = 0" and "sp_Cap r = unat sz"
proof -
  have sz: "sz \<noteq> 0" "sz AND (sz - 1) = 0" and
    r: "r = \<lparr>sp_data = replicate (unat sz) zero, sp_mask = sz - 1, sp_head = 0, sp_tail = 0\<rparr>"
    using assms(1) by (auto simp: sp_NewRingBuffer_def split: if_splits)
  from pow2_of_and_zero [OF sz] obtain k where k: "unat sz = 2 ^ k" by auto
  then have "(2 :: nat) ^ k \<le> 2 ^ 62" using assms(2) by simp
  then have "k \<le> 62" using power_increasing_iff [of "2 :: nat" k 62] by simp
  moreover have "sz - 1 = of_nat (2 ^ k - 1)"
    using k of_nat_unat [of sz, where 'a = "64 word"] by (simp add: of_nat_diff)
  ultimately show "sp_inv 0 r" using k by (auto simp: r sp_inv_def)
  show "sp_head r = 0" "sp_tail r = 0" "sp_Cap r = unat sz" by (simp_all add: r sp_Cap_def)
qed

section \<open>The executor's queue under one producer and one consumer\<close>

text \<open>
  \<^verbatim>\<open>lockFreeQueue\<close> reserves the slot by advancing the tail before it writes the entry, and
  the consumer tests only the tail.
\<close>

datatype 'a enq_pc = QE_Idle | QE_Head 'a | QE_Tail 'a uint64 | QE_Cas 'a uint64 | QE_Write 'a uint64 | QE_Done bool

datatype 'a deq_pc = QD_Idle | QD_Head | QD_Tail uint64 | QD_Cas uint64 | QD_Read uint64 | QD_Done "'a option"

record 'a iq_sys =
  is_queue :: "'a iqueue"
  is_enq :: "'a enq_pc"
  is_deq :: "'a deq_pc"

fun iq_enq_step :: "'a iq_sys \<Rightarrow> 'a iq_sys" where
  "iq_enq_step s =
     (let q = is_queue s
      in case is_enq s of
           QE_Head x \<Rightarrow> s\<lparr>is_enq := QE_Tail x (iq_head q)\<rparr>
         | QE_Tail x head \<Rightarrow> s\<lparr>is_enq :=
             (if iq_tail q - head \<ge> of_nat (length (iq_entries q)) then QE_Done False
              else QE_Cas x (iq_tail q))\<rparr>
         | QE_Cas x tail \<Rightarrow>
             (if iq_tail q = tail
              then s\<lparr>is_queue := q\<lparr>iq_tail := tail + 1\<rparr>, is_enq := QE_Write x tail\<rparr>
              else s\<lparr>is_enq := QE_Head x\<rparr>)
         | QE_Write x tail \<Rightarrow> s\<lparr>is_queue := q\<lparr>iq_entries := (iq_entries q)[idx tail (iq_mask q) := x]\<rparr>,
             is_enq := QE_Done True\<rparr>
         | _ \<Rightarrow> s)"

fun iq_deq_step :: "'a iq_sys \<Rightarrow> 'a iq_sys" where
  "iq_deq_step s =
     (let q = is_queue s
      in case is_deq s of
           QD_Head \<Rightarrow> s\<lparr>is_deq := QD_Tail (iq_head q)\<rparr>
         | QD_Tail head \<Rightarrow> s\<lparr>is_deq := (if head \<ge> iq_tail q then QD_Done None else QD_Cas head)\<rparr>
         | QD_Cas head \<Rightarrow>
             (if iq_head q = head
              then s\<lparr>is_queue := q\<lparr>iq_head := head + 1\<rparr>, is_deq := QD_Read head\<rparr>
              else s\<lparr>is_deq := QD_Head\<rparr>)
         | QD_Read head \<Rightarrow> s\<lparr>is_deq := QD_Done (Some (iq_entries q ! idx head (iq_mask q)))\<rparr>
         | _ \<Rightarrow> s)"

datatype 'a iq_act = Enq_Call 'a | Deq_Call | Enq_Step | Deq_Step

fun iq_do :: "'a iq_act \<Rightarrow> 'a iq_sys \<Rightarrow> 'a iq_sys" where
  "iq_do (Enq_Call x) s = (case is_enq s of QE_Idle \<Rightarrow> s\<lparr>is_enq := QE_Head x\<rparr> | _ \<Rightarrow> s)"
| "iq_do Deq_Call s = (case is_deq s of QD_Idle \<Rightarrow> s\<lparr>is_deq := QD_Head\<rparr> | _ \<Rightarrow> s)"
| "iq_do Enq_Step s = iq_enq_step s"
| "iq_do Deq_Step s = iq_deq_step s"

definition iq_start :: "'a iqueue \<Rightarrow> 'a iq_sys" where
  "iq_start q = \<lparr>is_queue = q, is_enq = QE_Idle, is_deq = QD_Idle\<rparr>"

section \<open>Properties\<close>

text \<open>
  Claim C11 (one producer, one consumer).  On a new ring of the internal package, however
  the accesses of one producer and one consumer interleave, the items received followed by
  the items held are the items sent, as long as fewer than \<open>2 ^ 64\<close> were sent, and no more
  items are held than the ring has slots.
\<close>

theorem spsc_ring_fifo:
  assumes "sp_NewRingBuffer alloc_max zero sz = Ok r" and "unat sz \<le> 2 ^ 62"
    and "spsc_reach r s" and "length (ss_sent s) < 2 ^ 64"
  shows "ss_got s @ sp_items (ss_ring s) = ss_sent s \<and>
    length (sp_items (ss_ring s)) \<le> sp_Cap (ss_ring s)"
proof -
  have "spsc_inv s" by (rule spsc_reach_inv [OF assms(3) sp_new_inv(1-3) [OF assms(1,2)] assms(4)])
  then show ?thesis using sp.items_cap by (auto simp: spsc_inv_def)
qed

definition spsc_demo_ring :: "nat SpscRing" where
  "spsc_demo_ring = \<lparr>sp_data = [0, 0], sp_mask = 1, sp_head = 0, sp_tail = 0\<rparr>"

definition spsc_demo :: "nat spsc" where
  "spsc_demo = cons_step (prod_step (prod_step (cons_step (prod_step (prod_step
     (\<lparr>ss_ring = spsc_demo_ring, ss_prod = P_Idle, ss_cons = C_Idle, ss_sent = [], ss_got = []\<rparr>
       \<lparr>ss_prod := P_Head 7, ss_cons := C_Head\<rparr>))))))"

lemma spsc_demo_reach: "spsc_reach spsc_demo_ring spsc_demo"
proof -
  let ?s = "\<lparr>ss_ring = spsc_demo_ring, ss_prod = P_Idle, ss_cons = C_Idle, ss_sent = [], ss_got = []\<rparr>"
  have "spsc_reach spsc_demo_ring (?s\<lparr>ss_prod := P_Head 7\<rparr>)"
    by (rule spsc_enq [OF spsc_init]) simp
  then have "spsc_reach spsc_demo_ring (?s\<lparr>ss_prod := P_Head 7\<rparr>\<lparr>ss_cons := C_Head\<rparr>)"
    by (rule spsc_deq) simp
  then show ?thesis unfolding spsc_demo_def by (intro spsc_cons spsc_prod)
qed

theorem spsc_ring_fifo_witness:
  "ss_sent spsc_demo = [7] \<and> ss_got spsc_demo @ sp_items (ss_ring spsc_demo) = [7] \<and>
   length (sp_items (ss_ring spsc_demo)) \<le> sp_Cap (ss_ring spsc_demo)"
proof -
  have new: "sp_NewRingBuffer 10 (0 :: nat) 2 = Ok spsc_demo_ring"
    by (simp add: sp_NewRingBuffer_def spsc_demo_ring_def) (simp add: numeral_2_eq_2)
  have sent: "ss_sent spsc_demo = [7]" by code_simp
  show ?thesis using spsc_ring_fifo [OF new _ spsc_demo_reach] sent by simp
qed

text \<open>
  Fact (lost item).  The executor's queue of the internal package loses items and
  delivers values that were never enqueued, with a single producer and a single consumer:
  for every item \<open>x\<close> and zero value \<open>z\<close> there is a schedule of one Enqueue of \<open>x\<close> and one
  Dequeue on a new queue after which Enqueue has reported success, Dequeue has delivered
  \<open>z\<close>, and the queue is empty.
\<close>

theorem internal_queue_loses_item:
  "\<exists>q as. iq_NewLockFreeQueue 10 z 2 = Some (Ok q) \<and>
     (let s = fold iq_do (Enq_Call x # Deq_Call # as) (iq_start q)
      in set as \<subseteq> {Enq_Step, Deq_Step} \<and> is_enq s = QE_Done True \<and> is_deq s = QD_Done (Some z) \<and>
         iq_Dequeue (is_queue s) = Ok (None, is_queue s))"
proof -
  let ?q = "\<lparr>iq_mask = 1, iq_entries = [z, z], iq_head = 0, iq_tail = 0\<rparr>"
  let ?as = "[Enq_Step, Enq_Step, Enq_Step, Deq_Step, Deq_Step, Deq_Step, Deq_Step, Enq_Step]"
  have "lfq_round 2 1 = Some 2"
    using lfq_round_pow [of 1 2 0] by simp
  then have "iq_NewLockFreeQueue 10 z 2 = Some (Ok ?q)"
    by (simp add: iq_NewLockFreeQueue_def eval_nat_numeral)
  moreover have "let s = fold iq_do (Enq_Call x # Deq_Call # ?as) (iq_start ?q)
      in set ?as \<subseteq> {Enq_Step, Deq_Step} \<and> is_enq s = QE_Done True \<and> is_deq s = QD_Done (Some z) \<and>
         iq_Dequeue (is_queue s) = Ok (None, is_queue s)"
    by (simp add: iq_start_def idx_def iq_Dequeue_def)
  ultimately show ?thesis by blast
qed

text \<open>
  When the tail of the ring wraps to zero, Dequeue takes the ring for empty although Len
  counts the item: Enqueue uses the wrapped difference and Dequeue does not.
\<close>

theorem spsc_wrap_hides_item:
  assumes "length (sp_data r) = 2" and "sp_mask r = 1" and "sp_head r = - 1" and "sp_tail r = - 1"
  shows "\<exists>r'. sp_Enqueue r x = Ok (True, r') \<and> sp_Len r' = 1 \<and> sp_Dequeue r' = Ok (None, r')"
  using assms by (simp add: sp_Enqueue_def sp_Dequeue_def sp_Len_def idx_def Let_def)

end
