(* ===== verification/EventLoop.thy ===== *)
theory EventLoop
  imports Prelude
begin

text \<open>
  The reactor: \<^verbatim>\<open>internal/concurrency/eventloop.go\<close>, its variant in
  \<^verbatim>\<open>core/concurrency/eventloop.go\<close>, and \<^verbatim>\<open>adapters/poller_adapter.go\<close>.  The loop and
  the callers of Push, RegisterHandler, UnregisterHandler and Stop run concurrently, so the
  model is a step relation; a step is one channel operation, one handler call, or one load
  of the handler list.  The inbox is a buffered channel (capacity at least one); the timer
  may fire at any time, so backing off is a step that is always possible.
\<close>

section \<open>State\<close>

text \<open>Where \<^verbatim>\<open>Run\<close> is, with its local variables; a batch in progress and the back-off.\<close>

datatype ('h, 'e) loop_pc =
    Off
  | Drain nat "'e list" int
  | Check "'e list" int
  | Select int
  | Handle "('h \<times> 'e) list"
  | Exited
  | ClosedTwice

record ('h, 'e) EventLoop =
  el_handlers :: "'h list"
  el_inbox :: "'e list"
  el_batchSize :: int
  el_ringCapacity :: nat
  el_quit :: bool
  el_done :: bool
  el_running :: bool
  el_pc :: "('h, 'e) loop_pc"
  el_calls :: "('h \<times> 'e) list"
  el_pushed :: "'e list"

definition NewEventLoop :: "int \<Rightarrow> nat \<Rightarrow> ('h, 'e) EventLoop" where
  "NewEventLoop batchSize ringCapacity =
     \<lparr>el_handlers = [], el_inbox = [], el_batchSize = batchSize, el_ringCapacity = ringCapacity,
      el_quit = False, el_done = False, el_running = False, el_pc = Off, el_calls = [],
      el_pushed = []\<rparr>"

definition RegisterHandler :: "('h, 'e) EventLoop \<Rightarrow> 'h \<Rightarrow> ('h, 'e) EventLoop" where
  "RegisterHandler el h = el\<lparr>el_handlers := el_handlers el @ [h]\<rparr>"

definition UnregisterHandler :: "('h, 'e) EventLoop \<Rightarrow> 'h \<Rightarrow> ('h, 'e) EventLoop" where
  "UnregisterHandler el h = el\<lparr>el_handlers := filter (\<lambda>g. g \<noteq> h) (el_handlers el)\<rparr>"

definition Pending :: "('h, 'e) EventLoop \<Rightarrow> nat" where
  "Pending el = length (el_inbox el)"

text \<open>
  \<^verbatim>\<open>Push\<close>: \<open>None\<close> where the caller stays blocked.  With the loop stopped and room in the
  inbox either case of the select may be chosen, \<open>prefer_inbox\<close>.
\<close>

definition Push :: "bool \<Rightarrow> ('h, 'e) EventLoop \<Rightarrow> 'e \<Rightarrow> (bool \<times> ('h, 'e) EventLoop) option" where
  "Push prefer_inbox el ev =
     (let room = length (el_inbox el) < el_ringCapacity el
      in if room \<and> (prefer_inbox \<or> \<not> el_quit el)
         then Some (True, el\<lparr>el_inbox := el_inbox el @ [ev], el_pushed := el_pushed el @ [ev]\<rparr>)
         else if el_quit el then Some (False, el)
         else None)"

definition core_Push :: "('h, 'e) EventLoop \<Rightarrow> 'e \<Rightarrow> bool \<times> ('h, 'e) EventLoop" where
  "core_Push el ev =
     (if length (el_inbox el) < el_ringCapacity el
      then (True, el\<lparr>el_inbox := el_inbox el @ [ev], el_pushed := el_pushed el @ [ev]\<rparr>)
      else (False, el))"

text \<open>\<^verbatim>\<open>Stop\<close> closes the quit channel once; the caller then waits while the loop runs.\<close>

definition Stop :: "('h, 'e) EventLoop \<Rightarrow> ('h, 'e) EventLoop" where
  "Stop el = el\<lparr>el_quit := True\<rparr>"

definition Stop_waits :: "('h, 'e) EventLoop \<Rightarrow> bool" where
  "Stop_waits el \<longleftrightarrow> el_running el \<and> \<not> el_done el"

section \<open>The loop\<close>

definition maxBackoffNs :: int where
  "maxBackoffNs = 1000000"

text \<open>The calls of one batch: every event to every handler of the snapshot.\<close>

definition batch_calls :: "'h list \<Rightarrow> 'e list \<Rightarrow> ('h \<times> 'e) list" where
  "batch_calls hs batch = [(h, ev). ev \<leftarrow> batch, h \<leftarrow> hs]"

text \<open>What follows an event received by the blocking select, in either version.\<close>

definition internal_after_select :: "('h, 'e) EventLoop \<Rightarrow> 'e \<Rightarrow> ('h, 'e) loop_pc" where
  "internal_after_select el ev = Handle (batch_calls (el_handlers el) [ev])"

definition core_after_select :: "('h, 'e) EventLoop \<Rightarrow> 'e \<Rightarrow> ('h, 'e) loop_pc" where
  "core_after_select el ev = Drain 0 [] 1"

inductive run_step ::
  "(('h, 'e) EventLoop \<Rightarrow> 'e \<Rightarrow> ('h, 'e) loop_pc) \<Rightarrow> ('h, 'e) EventLoop \<Rightarrow> ('h, 'e) EventLoop \<Rightarrow> bool"
  for after_select where
  run_start: "el_pc el \<in> {Off, Exited} \<Longrightarrow> \<not> el_running el \<Longrightarrow>
     run_step after_select el (el\<lparr>el_running := True, el_pc := Drain 0 [] 1\<rparr>)"
| drain_take: "el_pc el = Drain i batch backoff \<Longrightarrow> int i < el_batchSize el \<Longrightarrow>
     el_inbox el = ev # rest \<Longrightarrow>
     run_step after_select el (el\<lparr>el_inbox := rest, el_pc := Drain (Suc i) (batch @ [ev]) backoff\<rparr>)"
| drain_end: "el_pc el = Drain i batch backoff \<Longrightarrow> \<not> int i < el_batchSize el \<or> el_inbox el = [] \<Longrightarrow>
     run_step after_select el (el\<lparr>el_pc := Check batch backoff\<rparr>)"
| check_empty: "el_pc el = Check [] backoff \<Longrightarrow>
     run_step after_select el (el\<lparr>el_pc := Select backoff\<rparr>)"
| check_batch: "el_pc el = Check batch backoff \<Longrightarrow> batch \<noteq> [] \<Longrightarrow>
     run_step after_select el (el\<lparr>el_pc := Handle (batch_calls (el_handlers el) batch)\<rparr>)"
| select_quit: "el_pc el = Select backoff \<Longrightarrow> el_quit el \<Longrightarrow>
     run_step after_select el
       (if el_done el then el\<lparr>el_pc := ClosedTwice\<rparr>
        else el\<lparr>el_done := True, el_running := False, el_pc := Exited\<rparr>)"
| select_take: "el_pc el = Select backoff \<Longrightarrow> el_inbox el = ev # rest \<Longrightarrow>
     run_step after_select el (el\<lparr>el_inbox := rest, el_pc := after_select el ev\<rparr>)"
| select_timeout: "el_pc el = Select backoff \<Longrightarrow>
     run_step after_select el (el\<lparr>el_pc := Drain 0 []
       (if 2 * backoff > maxBackoffNs then maxBackoffNs else 2 * backoff)\<rparr>)"
| handle_call: "el_pc el = Handle (c # cs) \<Longrightarrow>
     run_step after_select el (el\<lparr>el_calls := el_calls el @ [c], el_pc := Handle cs\<rparr>)"
| handle_end: "el_pc el = Handle [] \<Longrightarrow>
     run_step after_select el (el\<lparr>el_pc := Drain 0 [] 1\<rparr>)"

text \<open>The loop together with callers that push and stop; the handlers stay as registered.\<close>

inductive el_reach ::
  "(('h, 'e) EventLoop \<Rightarrow> 'e \<Rightarrow> ('h, 'e) loop_pc) \<Rightarrow> ('h, 'e) EventLoop \<Rightarrow> ('h, 'e) EventLoop \<Rightarrow> bool"
  for after_select el0 where
  el_refl: "el_reach after_select el0 el0"
| el_run: "el_reach after_select el0 el \<Longrightarrow> run_step after_select el el' \<Longrightarrow> el_reach after_select el0 el'"
| el_push: "el_reach after_select el0 el \<Longrightarrow> Push pref el ev = Some (b, el') \<Longrightarrow> el_reach after_select el0 el'"
| el_stop: "el_reach after_select el0 el \<Longrightarrow> el_reach after_select el0 (Stop el)"

inductive_cases run_stepE: "run_step after_select el el'"

section \<open>The poller adapter\<close>

text \<open>
  Each registration allocates a bridge object; a bridge is named by its position in the list
  of the objects allocated so far.
\<close>

record ('h, 'e) PollerAdapter =
  pa_loop :: "(nat, 'e) EventLoop"
  pa_started :: bool
  pa_handlers :: "'h list"
  pa_bridges :: "nat list"
  pa_objects :: "'h list"

definition NewPollerAdapter :: "int \<Rightarrow> nat \<Rightarrow> ('h, 'e) PollerAdapter" where
  "NewPollerAdapter batchSize ringCapacity =
     \<lparr>pa_loop = NewEventLoop batchSize ringCapacity, pa_started = False, pa_handlers = [],
      pa_bridges = [], pa_objects = []\<rparr>"

definition pa_Register :: "('h, 'e) PollerAdapter \<Rightarrow> 'h \<Rightarrow> ('h, 'e) PollerAdapter" where
  "pa_Register p h =
     (let hb = length (pa_objects p)
      in p\<lparr>pa_started := True, pa_objects := pa_objects p @ [h],
           pa_loop := RegisterHandler (pa_loop p) hb,
           pa_handlers := pa_handlers p @ [h], pa_bridges := pa_bridges p @ [hb]\<rparr>)"

fun find_index :: "'h \<Rightarrow> 'h list \<Rightarrow> nat option" where
  "find_index h [] = None"
| "find_index h (g # gs) = (if g = h then Some 0 else map_option Suc (find_index h gs))"

definition pa_Unregister :: "('h, 'e) PollerAdapter \<Rightarrow> 'h \<Rightarrow> ('h, 'e) PollerAdapter" where
  "pa_Unregister p h =
     (case find_index h (pa_handlers p) of
        None \<Rightarrow> p
      | Some i \<Rightarrow> p\<lparr>pa_loop := UnregisterHandler (pa_loop p) (pa_bridges p ! i),
          pa_handlers := take i (pa_handlers p) @ drop (Suc i) (pa_handlers p),
          pa_bridges := take i (pa_bridges p) @ drop (Suc i) (pa_bridges p)\<rparr>)"

definition pa_Poll :: "('h, 'e) PollerAdapter \<Rightarrow> int \<Rightarrow> nat" where
  "pa_Poll p maxEvents = Pending (pa_loop p)"

definition pa_Push :: "bool \<Rightarrow> ('h, 'e) PollerAdapter \<Rightarrow> 'e \<Rightarrow> (bool \<times> ('h, 'e) PollerAdapter) option" where
  "pa_Push prefer_inbox p ev =
     map_option (\<lambda>(b, el). (b, p\<lparr>pa_loop := el\<rparr>)) (Push prefer_inbox (pa_loop p) ev)"

definition pa_Stop :: "('h, 'e) PollerAdapter \<Rightarrow> ('h, 'e) PollerAdapter" where
  "pa_Stop p = p\<lparr>pa_loop := Stop (pa_loop p)\<rparr>"

section \<open>The internal loop delivers everything, once and in order\<close>

fun todo_calls :: "'h list \<Rightarrow> ('h, 'e) loop_pc \<Rightarrow> ('h \<times> 'e) list" where
  "todo_calls hs (Drain i batch b) = batch_calls hs batch"
| "todo_calls hs (Check batch b) = batch_calls hs batch"
| "todo_calls hs (Handle cs) = cs"
| "todo_calls hs _ = []"

lemma batch_calls_simps [simp]:
  "batch_calls hs [] = []"
  "batch_calls hs (xs @ ys) = batch_calls hs xs @ batch_calls hs ys"
  by (simp_all add: batch_calls_def)

lemma batch_calls_Cons: "batch_calls hs (x # xs) = batch_calls hs [x] @ batch_calls hs xs"
  by (simp add: batch_calls_def)

definition el_ok :: "'h list \<Rightarrow> ('h, 'e) EventLoop \<Rightarrow> bool" where
  "el_ok hs el \<longleftrightarrow> el_handlers el = hs \<and>
     el_calls el @ todo_calls hs (el_pc el) @ batch_calls hs (el_inbox el) = batch_calls hs (el_pushed el)"

lemma run_step_ok:
  assumes "run_step internal_after_select el el'" and "el_ok hs el"
  shows "el_ok hs el'"
  using assms
proof (cases rule: run_step.cases)
  case (drain_take i batch backoff ev rest)
  with assms(2) show ?thesis by (auto simp: el_ok_def batch_calls_Cons [of hs ev rest])
next
  case (select_take backoff ev rest)
  with assms(2) show ?thesis
    by (auto simp: el_ok_def internal_after_select_def batch_calls_Cons [of hs ev rest])
qed (auto simp: el_ok_def split: if_splits)

lemma el_reach_ok:
  assumes "el_reach internal_after_select el0 el" and "el_ok hs el0"
  shows "el_ok hs el"
  using assms
proof (induction rule: el_reach.induct)
  case (el_run el el')
  then show ?case using run_step_ok by blast
next
  case (el_push el pref ev b el')
  then show ?case by (auto simp: Push_def Let_def el_ok_def split: if_splits)
next
  case (el_stop el)
  then show ?case by (simp add: Stop_def el_ok_def)
qed simp

section \<open>The loop can always drain\<close>

abbreviation runs :: "('h, 'e) EventLoop \<Rightarrow> ('h, 'e) EventLoop \<Rightarrow> bool" where
  "runs \<equiv> (run_step internal_after_select)\<^sup>*\<^sup>*"

lemma runs_handle:
  "el_pc el = Handle cs \<Longrightarrow>
   runs el (el\<lparr>el_calls := el_calls el @ cs, el_pc := Drain 0 [] 1\<rparr>)"
proof (induction cs arbitrary: el)
  case Nil
  then have "run_step internal_after_select el (el\<lparr>el_pc := Drain 0 [] 1\<rparr>)" by (rule handle_end)
  then show ?case by simp
next
  case (Cons c cs)
  let ?el = "el\<lparr>el_calls := el_calls el @ [c], el_pc := Handle cs\<rparr>"
  have "run_step internal_after_select el ?el" using Cons.prems by (rule handle_call)
  moreover have "runs ?el (?el\<lparr>el_calls := el_calls ?el @ cs, el_pc := Drain 0 [] 1\<rparr>)"
    by (rule Cons.IH) simp
  ultimately show ?case by (simp add: converse_rtranclp_into_rtranclp)
qed

lemma runs_drain:
  "el_pc el = Drain i batch b \<Longrightarrow>
   \<exists>batch' rest. runs el (el\<lparr>el_inbox := rest, el_pc := Check batch' b\<rparr>) \<and>
     batch' @ rest = batch @ el_inbox el"
proof (induction "el_inbox el" arbitrary: el i batch)
  case Nil
  then have "run_step internal_after_select el (el\<lparr>el_pc := Check batch b\<rparr>)"
    by (intro drain_end) auto
  then show ?case by - (rule exI [of _ batch], rule exI [of _ "el_inbox el"], auto)
next
  case (Cons ev rest)
  show ?case
  proof (cases "int i < el_batchSize el")
    case True
    let ?el = "el\<lparr>el_inbox := rest, el_pc := Drain (Suc i) (batch @ [ev]) b\<rparr>"
    have step: "run_step internal_after_select el ?el"
      using Cons True by (intro drain_take) auto
    from Cons.hyps(1) [of ?el "Suc i" "batch @ [ev]"] obtain batch' rest' where
      "runs ?el (?el\<lparr>el_inbox := rest', el_pc := Check batch' b\<rparr>)" "batch' @ rest' = (batch @ [ev]) @ rest"
      by auto
    with step Cons.hyps(2) show ?thesis
      by - (rule exI [of _ batch'], rule exI [of _ rest'], auto dest: converse_rtranclp_into_rtranclp)
  next
    case False
    then have "run_step internal_after_select el (el\<lparr>el_pc := Check batch b\<rparr>)"
      using Cons.prems by (intro drain_end) auto
    then show ?thesis using Cons.hyps(2)
      by - (rule exI [of _ batch], rule exI [of _ "el_inbox el"], auto)
  qed
qed

lemma runs_round:
  assumes "el_pc el = Check batch b" and "batch @ el_inbox el \<noteq> []"
  shows "\<exists>calls rest. runs el (el\<lparr>el_inbox := rest, el_calls := calls, el_pc := Drain 0 [] 1\<rparr>) \<and>
    length rest < length batch + length (el_inbox el)"
proof (cases "batch = []")
  case False
  let ?el = "el\<lparr>el_pc := Handle (batch_calls (el_handlers el) batch)\<rparr>"
  have "run_step internal_after_select el ?el" using assms(1) False by (rule check_batch)
  with runs_handle [of ?el] False show ?thesis
    by (intro exI [of _ "el_calls el @ batch_calls (el_handlers el) batch"] exI [of _ "el_inbox el"])
      (auto dest: converse_rtranclp_into_rtranclp)
next
  case True
  with assms(2) obtain ev rest where in': "el_inbox el = ev # rest" by (cases "el_inbox el") auto
  let ?el1 = "el\<lparr>el_pc := Select b\<rparr>"
  let ?el2 = "?el1\<lparr>el_inbox := rest, el_pc := internal_after_select ?el1 ev\<rparr>"
  have 1: "run_step internal_after_select el ?el1" using assms(1) True by (intro check_empty) simp
  have 2: "run_step internal_after_select ?el1 ?el2" using in' by (intro select_take) auto
  from runs_handle [of ?el2 "batch_calls (el_handlers el) [ev]"] 1 2 show ?thesis
    using in' by (intro exI [of _ "el_calls el @ batch_calls (el_handlers el) [ev]"] exI [of _ rest])
      (auto simp: internal_after_select_def intro: converse_rtranclp_into_rtranclp)
qed

lemma runs_to_empty:
  assumes "el_pc el = Drain i batch b"
  shows "\<exists>el' b'. runs el el' \<and> el_pc el' = Check [] b' \<and> el_inbox el' = []"
  using assms
proof (induction "length batch + length (el_inbox el)" arbitrary: el i batch b rule: less_induct)
  case less
  from runs_drain [OF less.prems] obtain batch' rest where
    d: "runs el (el\<lparr>el_inbox := rest, el_pc := Check batch' b\<rparr>)" "batch' @ rest = batch @ el_inbox el"
    by blast
  let ?el = "el\<lparr>el_inbox := rest, el_pc := Check batch' b\<rparr>"
  show ?case
  proof (cases "batch' @ rest = []")
    case True
    with d(1) show ?thesis by (intro exI [of _ ?el] exI [of _ b]) auto
  next
    case False
    from runs_round [of ?el batch' b] False obtain calls rest' where
      r: "runs ?el (?el\<lparr>el_inbox := rest', el_calls := calls, el_pc := Drain 0 [] 1\<rparr>)"
        "length rest' < length batch' + length rest" by auto
    have "length batch' + length rest = length batch + length (el_inbox el)"
      using d(2) by (metis length_append)
    with less.hyps [of "[]" "?el\<lparr>el_inbox := rest', el_calls := calls, el_pc := Drain 0 [] 1\<rparr>" 0 1] r
    obtain el' b' where "runs (?el\<lparr>el_inbox := rest', el_calls := calls, el_pc := Drain 0 [] 1\<rparr>) el'"
      "el_pc el' = Check [] b'" "el_inbox el' = []" by auto
    with d(1) r(1) show ?thesis by (meson rtranclp_trans)
  qed
qed

lemma runs_pushed: "runs el el' \<Longrightarrow> el_pushed el' = el_pushed el"
  by (induction rule: rtranclp_induct) (auto elim!: run_stepE split: if_splits)

lemma runs_reach: "runs el el' \<Longrightarrow> el_reach internal_after_select el0 el \<Longrightarrow> el_reach internal_after_select el0 el'"
  by (induction rule: rtranclp_induct) (auto intro: el_run)

section \<open>The registry of the adapter\<close>

definition pa_ok :: "('h, 'e) PollerAdapter \<Rightarrow> bool" where
  "pa_ok p \<longleftrightarrow> el_handlers (pa_loop p) = pa_bridges p \<and> distinct (pa_bridges p) \<and>
     (\<forall>b\<in>set (pa_bridges p). b < length (pa_objects p)) \<and>
     pa_handlers p = map ((!) (pa_objects p)) (pa_bridges p)"

lemma pa_ok_new: "pa_ok (NewPollerAdapter n m)"
  by (simp add: pa_ok_def NewPollerAdapter_def NewEventLoop_def)

lemma pa_Register_ok: "pa_ok p \<Longrightarrow> pa_ok (pa_Register p h) \<and> pa_handlers (pa_Register p h) = pa_handlers p @ [h]"
  by (auto simp: pa_ok_def pa_Register_def RegisterHandler_def Let_def nth_append)

lemma find_index_Some:
  "find_index h xs = Some i \<Longrightarrow> i < length xs \<and> xs ! i = h \<and>
   take i xs @ drop (Suc i) xs = remove1 h xs"
  by (induction xs arbitrary: i) (auto split: if_splits)

lemma find_index_None: "find_index h xs = None \<longleftrightarrow> h \<notin> set xs"
  by (induction xs) auto

lemma filter_neq_nth:
  "distinct xs \<Longrightarrow> i < length xs \<Longrightarrow> filter (\<lambda>g. g \<noteq> xs ! i) xs = take i xs @ drop (Suc i) xs"
proof (induction xs arbitrary: i)
  case (Cons x xs)
  then show ?case by (cases i) (auto simp: filter_id_conv)
qed simp

lemma pa_Unregister_ok:
  assumes "pa_ok p"
  shows "pa_ok (pa_Unregister p h) \<and> pa_handlers (pa_Unregister p h) = remove1 h (pa_handlers p)"
proof (cases "find_index h (pa_handlers p)")
  case None
  then have "h \<notin> set (pa_handlers p)" using find_index_None by metis
  with None show ?thesis using assms by (simp add: pa_Unregister_def remove1_idem)
next
  case (Some i)
  note i = find_index_Some [OF Some]
  have len: "length (pa_handlers p) = length (pa_bridges p)" using assms by (simp add: pa_ok_def)
  have sub: "set (take i (pa_bridges p) @ drop (Suc i) (pa_bridges p)) \<subseteq> set (pa_bridges p)"
    using set_take_subset set_drop_subset by (metis Un_least set_append)
  have "filter (\<lambda>g. g \<noteq> pa_bridges p ! i) (pa_bridges p) = take i (pa_bridges p) @ drop (Suc i) (pa_bridges p)"
    using assms i len by (intro filter_neq_nth) (auto simp: pa_ok_def)
  moreover have "distinct (take i (pa_bridges p) @ drop (Suc i) (pa_bridges p))"
    using assms calculation by (metis distinct_filter pa_ok_def)
  ultimately have "pa_ok (pa_Unregister p h)"
    using assms Some sub
    by (auto simp: pa_ok_def pa_Unregister_def UnregisterHandler_def take_map drop_map)
  then show ?thesis using Some i by (simp add: pa_Unregister_def)
qed

datatype 'h reg_op = Reg 'h | Unreg 'h

fun pa_op :: "'h reg_op \<Rightarrow> ('h, 'e) PollerAdapter \<Rightarrow> ('h, 'e) PollerAdapter" where
  "pa_op (Reg h) p = pa_Register p h"
| "pa_op (Unreg h) p = pa_Unregister p h"

fun list_op :: "'h reg_op \<Rightarrow> 'h list \<Rightarrow> 'h list" where
  "list_op (Reg h) hs = hs @ [h]"
| "list_op (Unreg h) hs = remove1 h hs"

lemma pa_ops_ok:
  "pa_ok p \<Longrightarrow> pa_ok (fold pa_op ops p) \<and> pa_handlers (fold pa_op ops p) = fold list_op ops (pa_handlers p)"
proof (induction ops arbitrary: p)
  case (Cons op ops)
  have "pa_ok (pa_op op p)" "pa_handlers (pa_op op p) = list_op op (pa_handlers p)"
    using pa_Register_ok [OF Cons.prems] pa_Unregister_ok [OF Cons.prems] by (cases op; simp)+
  with Cons.IH show ?case by simp
qed simp

section \<open>Properties\<close>

definition with_handlers :: "int \<Rightarrow> nat \<Rightarrow> 'h list \<Rightarrow> ('h, 'e) EventLoop" where
  "with_handlers batchSize ringCapacity hs = fold (\<lambda>h el. RegisterHandler el h) hs (NewEventLoop batchSize ringCapacity)"

lemma with_handlers_eq: "with_handlers n m hs = (NewEventLoop n m)\<lparr>el_handlers := hs\<rparr>"
proof -
  have "fold (\<lambda>h el. RegisterHandler el h) hs el = el\<lparr>el_handlers := el_handlers el @ hs\<rparr>"
    for el :: "('a, 'b) EventLoop"
    by (induction hs arbitrary: el) (auto simp: RegisterHandler_def)
  then show ?thesis by (simp add: with_handlers_def NewEventLoop_def)
qed

lemma with_handlers_ok: "el_ok hs (with_handlers n m hs)"
  by (simp add: with_handlers_eq el_ok_def NewEventLoop_def)

text \<open>
  Claim C13 (exactly once, in order).  With the handlers \<open>hs\<close> registered, however pushes, the
  loop and a stop interleave, the calls made, then the calls of the batch in hand, then
  those for the events still in the inbox, are every pushed event for every handler, in the
  order pushed: nothing is lost, repeated or reordered.
\<close>

theorem event_loop_exactly_once:
  assumes "el_reach internal_after_select (with_handlers n m hs) el"
  shows "el_calls el @ todo_calls hs (el_pc el) @ batch_calls hs (el_inbox el) =
    batch_calls hs (el_pushed el)"
  using el_reach_ok [OF assms with_handlers_ok] by (simp add: el_ok_def)

theorem event_loop_exactly_once_witness:
  "\<exists>el. el_reach internal_after_select (with_handlers 4 8 [''h'']) el \<and> el_pushed el = [7 :: nat] \<and>
     el_calls el @ todo_calls [''h''] (el_pc el) @ batch_calls [''h''] (el_inbox el) = [(''h'', 7)]"
proof -
  let ?e = "with_handlers 4 8 [''h''] :: (string, nat) EventLoop"
  have "Push True ?e 7 = Some (True, ?e\<lparr>el_inbox := [7], el_pushed := [7]\<rparr>)"
    by (simp add: Push_def with_handlers_eq NewEventLoop_def)
  then have r: "el_reach internal_after_select ?e (?e\<lparr>el_inbox := [7], el_pushed := [7]\<rparr>)"
    by (rule el_push [OF el_refl])
  from event_loop_exactly_once [OF r] r show ?thesis
    by (intro exI [of _ "?e\<lparr>el_inbox := [7], el_pushed := [7]\<rparr>"]) (simp add: batch_calls_def)
qed

text \<open>
  Fact (draining).  From every reachable state in which the loop is gathering a batch, the
  loop can run, on its own, to a state in which every event pushed so far has been handled.
\<close>

theorem event_loop_can_drain:
  assumes "el_reach internal_after_select (with_handlers n m hs) el" and "el_pc el = Drain i batch b"
  shows "\<exists>el'. runs el el' \<and> el_inbox el' = [] \<and> el_calls el' = batch_calls hs (el_pushed el)"
proof -
  from runs_to_empty [OF assms(2)] obtain el' b' where
    el': "runs el el'" "el_pc el' = Check [] b'" "el_inbox el' = []" by blast
  from el_reach_ok [OF runs_reach [OF el'(1) assms(1)] with_handlers_ok] el' runs_pushed [OF el'(1)]
  show ?thesis by (auto simp: el_ok_def)
qed

theorem event_loop_can_drain_witness:
  "\<exists>el el'. el_reach internal_after_select (with_handlers 4 8 [''h'']) el \<and> el_pushed el = [7 :: nat] \<and>
     runs el el' \<and> el_inbox el' = [] \<and> el_calls el' = [(''h'', 7)]"
proof -
  let ?e = "with_handlers 4 8 [''h''] :: (string, nat) EventLoop"
  let ?e1 = "?e\<lparr>el_running := True, el_pc := Drain 0 [] 1\<rparr>"
  let ?e2 = "?e1\<lparr>el_inbox := [7], el_pushed := [7]\<rparr>"
  have "run_step internal_after_select ?e ?e1"
    by (rule run_start) (simp_all add: with_handlers_eq NewEventLoop_def)
  then have r1: "el_reach internal_after_select ?e ?e1" by (rule el_run [OF el_refl])
  have "Push True ?e1 7 = Some (True, ?e2)" by (simp add: Push_def with_handlers_eq NewEventLoop_def)
  with r1 have r2: "el_reach internal_after_select ?e ?e2" by (rule el_push)
  from event_loop_can_drain [OF r2, of 0 "[]" 1] r2 show ?thesis
    by (auto simp: batch_calls_def)
qed

text \<open>
  Fact (lost event).  The loop of \<^verbatim>\<open>core/concurrency\<close> drops an event that arrives while
  it waits: there is a run in which one event is pushed, is taken out of the inbox, and the
  loop is back to gathering with no call made.
\<close>

theorem core_event_loop_drops:
  assumes "0 < m"
  shows "\<exists>el. el_reach core_after_select (with_handlers n m [h]) el \<and> el_pushed el = [ev] \<and>
    el_inbox el = [] \<and> el_pc el = Drain 0 [] 1 \<and> el_calls el = []"
proof -
  let ?e0 = "with_handlers n m [h] :: ('a, 'b) EventLoop"
  let ?e1 = "?e0\<lparr>el_running := True, el_pc := Drain 0 [] 1\<rparr>"
  let ?e2 = "?e1\<lparr>el_pc := Check [] 1\<rparr>"
  let ?e3 = "?e2\<lparr>el_pc := Select 1\<rparr>"
  let ?e4 = "?e3\<lparr>el_inbox := [ev], el_pushed := [ev]\<rparr>"
  let ?e5 = "?e4\<lparr>el_inbox := [], el_pc := core_after_select ?e4 ev\<rparr>"
  have e0: "el_pc ?e0 = Off" "\<not> el_running ?e0" "el_inbox ?e0 = []" "el_pushed ?e0 = []"
    "el_ringCapacity ?e0 = m" "el_calls ?e0 = []" "\<not> el_quit ?e0"
    by (simp_all add: with_handlers_eq NewEventLoop_def)
  have "el_reach core_after_select ?e0 ?e1" by (rule el_run [OF el_refl run_start]) (simp_all add: e0)
  then have "el_reach core_after_select ?e0 ?e2" by (rule el_run [OF _ drain_end]) (simp_all add: e0)
  then have "el_reach core_after_select ?e0 ?e3" by (rule el_run [OF _ check_empty]) simp
  moreover have "Push True ?e3 ev = Some (True, ?e4)" using assms by (simp add: Push_def e0)
  ultimately have "el_reach core_after_select ?e0 ?e4" by (rule el_push)
  then have "el_reach core_after_select ?e0 ?e5" by (rule el_run [OF _ select_take]) simp_all
  then show ?thesis by (intro exI [of _ ?e5]) (simp add: core_after_select_def e0)
qed

theorem core_event_loop_drops_witness:
  "\<exists>el. el_reach core_after_select (with_handlers 4 8 [''h'']) el \<and> el_pushed el = [7 :: nat] \<and>
    el_inbox el = [] \<and> el_pc el = Drain 0 [] 1 \<and> el_calls el = []"
  by (rule core_event_loop_drops) simp

text \<open>
  Fact (registry).  After any registrations and removals the loop's bridges call exactly
  the handlers registered and not removed, in order of registration, a removal taking the
  earliest registration of its handler.
\<close>

theorem poller_registry:
  "let p = fold pa_op ops (NewPollerAdapter n m)
   in map ((!) (pa_objects p)) (el_handlers (pa_loop p)) = fold list_op ops [] \<and>
      pa_handlers p = fold list_op ops []"
  using pa_ops_ok [OF pa_ok_new, of ops n m] by (auto simp: pa_ok_def NewPollerAdapter_def Let_def)

end
