(* ===== verification/Bags.thy ===== *)
theory Bags
  imports Prelude "HOL-Library.Multiset"
begin

text \<open>
  Conservation arguments count items with multisets: an item is in one of several places, and a step
  of one participant moves it.  The lemma here is the bookkeeping of such a step.
\<close>

lemma mset_concat_update:
  "i < length xs \<Longrightarrow>
   mset (concat (map f (xs[i := y]))) + mset (f (xs ! i)) = mset (concat (map f xs)) + mset (f y)"
proof (induction xs arbitrary: i)
  case (Cons x xs)
  then show ?case by (cases i) (auto simp: ac_simps)
qed simp

end
