(* ===== verification/Executor.thy ===== *)
theory Executor
  imports Ring Bags
begin

text \<open>
  The task executor, \<^verbatim>\<open>core/concurrency/executor.go\<close> (the file in
  \<^verbatim>\<open>internal/concurrency\<close> differs only in the queue it uses), and the scheduler.  Workers,
  submitters, the resize manager and Close run concurrently; each step is one operation on a
  queue or channel.  That an operation of the core queue acts as one step is what the
  theory \<open>RingMPMC\<close> establishes.
\<close>

section \<open>State\<close>

text \<open>Where a worker's loop is; \<open>W_Run task\<close> is inside \<^verbatim>\<open>safeExecute\<close>.\<close>

datatype 'a worker_pc = W_Top | W_Local | W_Global | W_Run 'a | W_Gone

record 'a worker =
  wk_queue :: nat
  wk_stop :: bool
  wk_pc :: "'a worker_pc"

datatype manager_pc = M_Idle | M_Wait nat

text \<open>
  Queues are objects shared by the executor's slice and the workers: names into
  \<open>ex_queues\<close>.  \<open>ex_workers\<close> lists every worker ever started, \<open>ex_active\<close> names those in the
  slice.
\<close>

record 'a Executor =
  ex_global :: "'a list"
  ex_globalCap :: nat
  ex_queues :: "'a LockFreeQueue list"
  ex_localQueues :: "nat list"
  ex_workers :: "'a worker list"
  ex_active :: "nat list"
  ex_closed :: bool
  ex_closing :: bool
  ex_manager :: manager_pc
  ex_executed :: "'a list"
  ex_accepted :: "'a list"

definition ErrExecutorClosed :: goerr where
  "ErrExecutorClosed = ErrNew ''executor is closed''"

text \<open>Start one worker with a queue of its own.\<close>

definition add_worker :: "'a LockFreeQueue \<Rightarrow> 'a Executor \<Rightarrow> 'a Executor" where
  "add_worker fresh e =
     (let q = length (ex_queues e);
          w = length (ex_workers e)
      in e\<lparr>ex_queues := ex_queues e @ [fresh], ex_localQueues := ex_localQueues e @ [q],
           ex_workers := ex_workers e @ [\<lparr>wk_queue = q, wk_stop = False, wk_pc = W_Top\<rparr>],
           ex_active := ex_active e @ [w]\<rparr>)"

definition NewExecutor :: "'a LockFreeQueue \<Rightarrow> int \<Rightarrow> int \<Rightarrow> 'a Executor" where
  "NewExecutor fresh numCPU numWorkers0 =
     (let numWorkers = nat (if numWorkers0 \<le> 0 then numCPU else numWorkers0)
      in (add_worker fresh ^^ numWorkers)
           \<lparr>ex_global = [], ex_globalCap = numWorkers * 4, ex_queues = [], ex_localQueues = [],
            ex_workers = [], ex_active = [], ex_closed = False, ex_closing = False, ex_manager = M_Idle,
            ex_executed = [], ex_accepted = []\<rparr>)"

section \<open>Operations\<close>

text \<open>
  \<^verbatim>\<open>Submit\<close> at wall-clock time \<open>now\<close>.  Go's remainder takes the sign of the time, so a
  clock before 1970 indexes out of range.  A full global queue is reported as a closed
  executor.
\<close>

definition Submit :: "int \<Rightarrow> 'a \<Rightarrow> 'a Executor \<Rightarrow> (goerr option \<times> 'a Executor) outcome option" where
  "Submit now task e =
     (if ex_closed e then Some (Ok (Some ErrExecutorClosed, e))
      else if ex_localQueues e = [] \<or> now < 0 \<and> now mod int (length (ex_localQueues e)) \<noteq> 0 then Some Panic
      else
        let i = nat (now mod int (length (ex_localQueues e)));
            q = ex_localQueues e ! i
        in bind_loop (lfq_Enqueue (ex_queues e ! q) task) (\<lambda>(ok, q').
             if ok then Some (Ok (None, e\<lparr>ex_queues := (ex_queues e)[q := q'],
                                         ex_accepted := ex_accepted e @ [task]\<rparr>))
             else if length (ex_global e) < ex_globalCap e
               then Some (Ok (None, e\<lparr>ex_global := ex_global e @ [task],
                                       ex_accepted := ex_accepted e @ [task]\<rparr>))
             else Some (Ok (Some ErrExecutorClosed, e))))"

text \<open>One step of worker \<open>w\<close>.\<close>

definition set_pc :: "nat \<Rightarrow> 'a worker_pc \<Rightarrow> 'a Executor \<Rightarrow> 'a Executor" where
  "set_pc w pc e = e\<lparr>ex_workers := (ex_workers e)[w := (ex_workers e ! w)\<lparr>wk_pc := pc\<rparr>]\<rparr>"

definition worker_step :: "nat \<Rightarrow> 'a Executor \<Rightarrow> 'a Executor outcome option" where
  "worker_step w e =
     (let wk = ex_workers e ! w
      in case wk_pc wk of
           W_Top \<Rightarrow> Some (Ok (set_pc w (if wk_stop wk then W_Gone else W_Local) e))
         | W_Local \<Rightarrow>
             bind_loop (lfq_Dequeue (ex_queues e ! wk_queue wk)) (\<lambda>(item, q').
               let e' = e\<lparr>ex_queues := (ex_queues e)[wk_queue wk := q']\<rparr>
               in case item of
                    Some task \<Rightarrow> Some (Ok (set_pc w (W_Run task) e'))
                  | None \<Rightarrow> Some (Ok (set_pc w W_Global e')))
         | W_Global \<Rightarrow>
             (case ex_global e of
                task # rest \<Rightarrow> Some (Ok (set_pc w (W_Run task) (e\<lparr>ex_global := rest\<rparr>)))
              | [] \<Rightarrow> Some (Ok (set_pc w (if wk_stop wk then W_Gone else W_Top) e)))
         | W_Run task \<Rightarrow> Some (Ok (set_pc w W_Top (e\<lparr>ex_executed := ex_executed e @ [task]\<rparr>)))
         | W_Gone \<Rightarrow> Some (Ok e))"

text \<open>In the inner select a closed stop channel may win over a waiting global task.\<close>

definition worker_stop_step :: "nat \<Rightarrow> 'a Executor \<Rightarrow> 'a Executor" where
  "worker_stop_step w e =
     (let wk = ex_workers e ! w
      in if wk_pc wk = W_Global \<and> wk_stop wk then set_pc w W_Gone e else e)"

text \<open>
  \<^verbatim>\<open>manageResizes\<close> on one request: grow at once, or mark the extra workers and wait for them
  with the mutex held; a send on the closed channel panics.
\<close>

definition stop_workers :: "nat list \<Rightarrow> 'a Executor \<Rightarrow> 'a Executor" where
  "stop_workers ws e = e\<lparr>ex_workers :=
     map (\<lambda>i. if i \<in> set ws then (ex_workers e ! i)\<lparr>wk_stop := True\<rparr> else ex_workers e ! i)
       [0..<length (ex_workers e)]\<rparr>"

definition Resize :: "'a LockFreeQueue \<Rightarrow> int \<Rightarrow> 'a Executor \<Rightarrow> 'a Executor outcome" where
  "Resize fresh newCount0 e =
     (if ex_closed e then Panic
      else if ex_manager e \<noteq> M_Idle then Ok e
      else
        let newCount = nat (if newCount0 \<le> 0 then 1 else newCount0);
            current = length (ex_active e)
        in if newCount > current then Ok ((add_worker fresh ^^ (newCount - current)) e)
           else if newCount < current then
             Ok (stop_workers (drop newCount (ex_active e)) (e\<lparr>ex_manager := M_Wait newCount\<rparr>))
           else Ok e)"

definition finish_resize :: "'a Executor \<Rightarrow> 'a Executor" where
  "finish_resize e =
     (case ex_manager e of
        M_Wait n \<Rightarrow>
          if list_all (\<lambda>w. wk_pc (ex_workers e ! w) = W_Gone) (drop n (ex_active e))
          then e\<lparr>ex_active := take n (ex_active e), ex_localQueues := take n (ex_localQueues e),
                 ex_manager := M_Idle\<rparr>
          else e
      | _ \<Rightarrow> e)"

text \<open>
  \<^verbatim>\<open>Close\<close> closes the channels at once and stops the workers when it gets the mutex, which
  the manager holds while it waits; then it waits for the workers.
\<close>

definition Close :: "'a Executor \<Rightarrow> 'a Executor" where
  "Close e = (if ex_closed e then e else e\<lparr>ex_closed := True, ex_closing := True\<rparr>)"

definition Close_stop :: "'a Executor \<Rightarrow> 'a Executor" where
  "Close_stop e =
     (if ex_closing e \<and> ex_manager e = M_Idle
      then stop_workers (ex_active e) (e\<lparr>ex_closing := False\<rparr>) else e)"

definition NumWorkers :: "'a Executor \<Rightarrow> nat" where
  "NumWorkers e = length (ex_active e)"

section \<open>Runs\<close>

inductive ex_step :: "'a LockFreeQueue \<Rightarrow> 'a Executor \<Rightarrow> 'a Executor \<Rightarrow> bool" for fresh where
  ex_submit: "Submit now task e = Some (Ok (err, e')) \<Longrightarrow> ex_step fresh e e'"
| ex_work: "w < length (ex_workers e) \<Longrightarrow> worker_step w e = Some (Ok e') \<Longrightarrow> ex_step fresh e e'"
| ex_work_stop: "w < length (ex_workers e) \<Longrightarrow> ex_step fresh e (worker_stop_step w e)"
| ex_resize: "Resize fresh n e = Ok e' \<Longrightarrow> ex_step fresh e e'"
| ex_finish: "ex_step fresh e (finish_resize e)"
| ex_close: "ex_step fresh e (Close e)"
| ex_close_stop: "ex_step fresh e (Close_stop e)"

inductive ex_reach :: "'a LockFreeQueue \<Rightarrow> 'a Executor \<Rightarrow> 'a Executor \<Rightarrow> bool" for fresh e0 where
  ex_refl: "ex_reach fresh e0 e0"
| ex_next: "ex_reach fresh e0 e \<Longrightarrow> ex_step fresh e e' \<Longrightarrow> ex_reach fresh e0 e'"

section \<open>Conservation of tasks\<close>

definition in_flight :: "'a Executor \<Rightarrow> 'a list" where
  "in_flight e = concat (map (\<lambda>w. case wk_pc w of W_Run task \<Rightarrow> [task] | _ \<Rightarrow> []) (ex_workers e))"

definition queued :: "'a Executor \<Rightarrow> 'a list" where
  "queued e = concat (map rb_items (ex_queues e)) @ ex_global e"

definition ex_ok :: "'a Executor \<Rightarrow> bool" where
  "ex_ok e \<longleftrightarrow> (\<forall>q\<in>set (ex_queues e). rb_inv 0 q) \<and>
     (\<forall>q\<in>set (ex_localQueues e). q < length (ex_queues e)) \<and>
     (\<forall>w\<in>set (ex_workers e). wk_queue w < length (ex_queues e)) \<and>
     mset (ex_accepted e) = mset (ex_executed e) + mset (queued e) + mset (in_flight e)"

lemma ex_ok_queues:
  assumes "ex_ok e"
  shows "q < length (ex_queues e) \<Longrightarrow> rb_inv 0 (ex_queues e ! q)"
    and "i < length (ex_localQueues e) \<Longrightarrow> ex_localQueues e ! i < length (ex_queues e)"
    and "w < length (ex_workers e) \<Longrightarrow> wk_queue (ex_workers e ! w) < length (ex_queues e)"
  using assms by (auto simp: ex_ok_def)

lemma rb_inv_0: "rb_inv 0 r \<Longrightarrow> rb_inv b r"
  by (simp add: rb_inv_def)

text \<open>The queue's laws in the form the executor uses them.\<close>

lemma lfq_Enqueue_result:
  assumes "rb_inv 0 q" and "lfq_Enqueue q x = Some (Ok (b, q'))"
  shows "rb_inv 0 q' \<and> rb_items q' = rb_items q @ (if b then [x] else [])"
proof (cases "length (rb_items q) < rb_Cap q")
  case True
  from lfq.enq_room [OF rb_inv_0 [OF assms(1)] True, where x = x and b = 0] assms(2)
  show ?thesis by auto
next
  case False
  then have "length (rb_items q) = rb_Cap q" using lfq.items_cap [OF assms(1)] by simp
  from lfq.enq_full [OF assms(1) this, of x] assms show ?thesis by auto
qed

lemma lfq_Dequeue_result:
  assumes "rb_inv 0 q" and "lfq_Dequeue q = Some (Ok (y, q'))"
  shows "rb_inv 0 q' \<and> rb_items q = (case y of None \<Rightarrow> [] | Some x \<Rightarrow> [x]) @ rb_items q'"
proof (cases "rb_items q")
  case Nil
  from lfq.deq_empty [OF assms(1) Nil] assms Nil show ?thesis by auto
next
  case (Cons x xs)
  from lfq.deq_item [OF assms(1) Cons] assms Cons show ?thesis by auto
qed

lemma add_worker_ok:
  assumes "ex_ok e" and "rb_inv 0 fresh" and "rb_items fresh = []"
  shows "ex_ok (add_worker fresh e)"
  using assms
  by (auto simp: ex_ok_def add_worker_def Let_def queued_def in_flight_def less_Suc_eq)

lemma add_workers_ok:
  assumes "ex_ok e" and "rb_inv 0 fresh" and "rb_items fresh = []"
  shows "ex_ok ((add_worker fresh ^^ n) e)"
  by (induction n) (auto intro: add_worker_ok assms)

lemma Submit_cases:
  assumes "Submit now task e = Some (Ok (err, e'))"
  defines "q \<equiv> ex_localQueues e ! nat (now mod int (length (ex_localQueues e)))"
  shows "e' = e \<or>
    (ex_localQueues e \<noteq> [] \<and> (\<exists>q'. lfq_Enqueue (ex_queues e ! q) task = Some (Ok (True, q')) \<and>
      e' = e\<lparr>ex_queues := (ex_queues e)[q := q'], ex_accepted := ex_accepted e @ [task]\<rparr>)) \<or>
    e' = e\<lparr>ex_global := ex_global e @ [task], ex_accepted := ex_accepted e @ [task]\<rparr>"
  using assms(1) unfolding Submit_def q_def Let_def
  by (fastforce simp: bind_loop_eq_Ok split: if_splits)

lemma ex_ok_enqueue:
  assumes ok: "ex_ok e" and q: "q < length (ex_queues e)"
    and "lfq_Enqueue (ex_queues e ! q) task = Some (Ok (True, q'))"
  shows "ex_ok (e\<lparr>ex_queues := (ex_queues e)[q := q'], ex_accepted := ex_accepted e @ [task]\<rparr>)"
proof -
  note r = lfq_Enqueue_result [OF ex_ok_queues(1) [OF ok q] assms(3)]
  have "mset (concat (map rb_items ((ex_queues e)[q := q']))) =
      mset (concat (map rb_items (ex_queues e))) + {#task#}"
    using mset_concat_update [OF q, of rb_items q'] r by simp
  moreover have "\<forall>x\<in>set ((ex_queues e)[q := q']). rb_inv 0 x"
    using ok r set_update_subset_insert [of "ex_queues e" q q'] by (auto simp: ex_ok_def)
  ultimately show ?thesis using ok by (simp add: ex_ok_def queued_def in_flight_def)
qed

lemma Submit_ok:
  assumes ok: "ex_ok e" and "Submit now task e = Some (Ok (err, e'))"
  shows "ex_ok e'"
proof -
  let ?q = "ex_localQueues e ! nat (now mod int (length (ex_localQueues e)))"
  have "?q < length (ex_queues e)" if "ex_localQueues e \<noteq> []"
    using that ex_ok_queues(2) [OF ok] by (simp add: nat_less_iff)
  moreover have "ex_ok (e\<lparr>ex_global := ex_global e @ [task], ex_accepted := ex_accepted e @ [task]\<rparr>)"
    using ok by (simp add: ex_ok_def queued_def in_flight_def)
  ultimately show ?thesis using Submit_cases [OF assms(2)] ok ex_ok_enqueue [OF ok] by blast
qed

text \<open>A worker moves between control points; the task it holds is in flight.\<close>

definition pc_task :: "'a worker_pc \<Rightarrow> 'a list" where
  "pc_task pc = (case pc of W_Run task \<Rightarrow> [task] | _ \<Rightarrow> [])"

lemma in_flight_set_pc:
  assumes "w < length (ex_workers e)"
  shows "mset (in_flight (set_pc w pc e)) + mset (pc_task (wk_pc (ex_workers e ! w))) =
    mset (in_flight e) + mset (pc_task pc)"
  using mset_concat_update [OF assms, of "\<lambda>w. pc_task (wk_pc w)" "(ex_workers e ! w)\<lparr>wk_pc := pc\<rparr>"]
  by (simp add: in_flight_def set_pc_def pc_task_def [abs_def])

lemma set_pc_sel [simp]:
  "ex_queues (set_pc w pc e) = ex_queues e" "ex_global (set_pc w pc e) = ex_global e"
  "ex_localQueues (set_pc w pc e) = ex_localQueues e" "ex_executed (set_pc w pc e) = ex_executed e"
  "ex_accepted (set_pc w pc e) = ex_accepted e" "queued (set_pc w pc e) = queued e"
  by (simp_all add: set_pc_def queued_def)

lemma set_pc_workers:
  assumes "\<forall>w\<in>set (ex_workers e). wk_queue w < n" and "w < length (ex_workers e)"
  shows "\<forall>w\<in>set (ex_workers (set_pc w pc e)). wk_queue w < n"
  using assms set_update_subset_insert [of "ex_workers e" w] nth_mem [OF assms(2)]
  by (fastforce simp: set_pc_def)

lemma ex_ok_set_pc:
  assumes ok: "ex_ok e" and w: "w < length (ex_workers e)"
    and "pc_task pc = pc_task (wk_pc (ex_workers e ! w))"
  shows "ex_ok (set_pc w pc e)"
  using ok in_flight_set_pc [OF w, of pc] assms(3) set_pc_workers [OF _ w, of _ pc]
  by (auto simp: ex_ok_def)

lemma worker_step_ok:
  assumes ok: "ex_ok e" and w: "w < length (ex_workers e)" and step: "worker_step w e = Some (Ok e')"
  shows "ex_ok e'"
proof (cases "wk_pc (ex_workers e ! w)")
  case W_Local
  let ?wk = "ex_workers e ! w"
  let ?n = "wk_queue ?wk"
  from step W_Local obtain y q' where deq: "lfq_Dequeue (ex_queues e ! ?n) = Some (Ok (y, q'))"
    and e': "e' = set_pc w (case y of Some task \<Rightarrow> W_Run task | None \<Rightarrow> W_Global)
      (e\<lparr>ex_queues := (ex_queues e)[?n := q']\<rparr>)"
    by (auto simp: worker_step_def Let_def bind_loop_eq_Ok split: option.splits)
  note q = ex_ok_queues(3) [OF ok w]
  note r = lfq_Dequeue_result [OF ex_ok_queues(1) [OF ok q] deq]
  let ?e = "e\<lparr>ex_queues := (ex_queues e)[?n := q']\<rparr>"
  have "mset (concat (map rb_items (ex_queues e))) =
      mset (concat (map rb_items ((ex_queues e)[?n := q']))) + mset (case y of None \<Rightarrow> [] | Some x \<Rightarrow> [x])"
    using mset_concat_update [OF q, of rb_items q'] r by simp
  moreover have "mset (in_flight e') = mset (in_flight e) + mset (case y of None \<Rightarrow> [] | Some x \<Rightarrow> [x])"
    using in_flight_set_pc [of w ?e] w W_Local
    by (cases y) (simp_all add: e' pc_task_def in_flight_def)
  moreover have "\<forall>x\<in>set ((ex_queues e)[?n := q']). rb_inv 0 x"
    using ok r set_update_subset_insert [of "ex_queues e" ?n q'] by (auto simp: ex_ok_def)
  moreover have "\<forall>w\<in>set (ex_workers e'). wk_queue w < length (ex_queues e)"
    using set_pc_workers [of ?e _ w] ok w by (simp add: e' ex_ok_def)
  ultimately show ?thesis using ok by (simp add: ex_ok_def e' queued_def)
next
  case W_Global
  show ?thesis
  proof (cases "ex_global e")
    case Nil
    with step W_Global have "e' = set_pc w (if wk_stop (ex_workers e ! w) then W_Gone else W_Top) e"
      by (simp add: worker_step_def Let_def)
    then show ?thesis using ex_ok_set_pc [OF ok w] W_Global by (simp add: pc_task_def)
  next
    case (Cons task rest)
    let ?e = "e\<lparr>ex_global := rest\<rparr>"
    from step W_Global Cons have e': "e' = set_pc w (W_Run task) ?e"
      by (simp add: worker_step_def Let_def)
    have "mset (in_flight e') = mset (in_flight e) + {#task#}"
      using in_flight_set_pc [of w ?e] w W_Global by (simp add: e' pc_task_def in_flight_def)
    then show ?thesis using ok Cons set_pc_workers [of ?e _ w] w
      by (simp add: ex_ok_def e' queued_def)
  qed
next
  case (W_Run task)
  let ?e = "e\<lparr>ex_executed := ex_executed e @ [task]\<rparr>"
  from step W_Run have e': "e' = set_pc w W_Top ?e" by (simp add: worker_step_def Let_def)
  have "mset (in_flight e) = mset (in_flight e') + {#task#}"
    using in_flight_set_pc [of w ?e] w W_Run by (simp add: e' pc_task_def in_flight_def)
  then show ?thesis using ok set_pc_workers [of ?e _ w] w
    by (simp add: ex_ok_def e' queued_def)
qed (use step ex_ok_set_pc [OF ok w] ok in \<open>auto simp: worker_step_def Let_def pc_task_def\<close>)

lemma stop_workers_sel [simp]:
  "ex_queues (stop_workers ws e) = ex_queues e" "ex_global (stop_workers ws e) = ex_global e"
  "ex_localQueues (stop_workers ws e) = ex_localQueues e" "ex_executed (stop_workers ws e) = ex_executed e"
  "ex_accepted (stop_workers ws e) = ex_accepted e" "queued (stop_workers ws e) = queued e"
  "ex_active (stop_workers ws e) = ex_active e" "ex_manager (stop_workers ws e) = ex_manager e"
  "ex_closed (stop_workers ws e) = ex_closed e"
  "length (ex_workers (stop_workers ws e)) = length (ex_workers e)"
  by (simp_all add: stop_workers_def queued_def)

lemma stop_workers_nth:
  "i < length (ex_workers e) \<Longrightarrow> ex_workers (stop_workers ws e) ! i =
     (if i \<in> set ws then (ex_workers e ! i)\<lparr>wk_stop := True\<rparr> else ex_workers e ! i)"
  by (simp add: stop_workers_def)

lemma stop_workers_ok: "ex_ok e \<Longrightarrow> ex_ok (stop_workers ws e)"
proof -
  assume ok: "ex_ok e"
  have "map f (ex_workers (stop_workers ws e)) = map f (ex_workers e)"
    if "\<And>w :: 'a worker. f (w\<lparr>wk_stop := True\<rparr>) = f w" for f :: "'a worker \<Rightarrow> 'b"
    using that by (intro nth_equalityI) (auto simp: stop_workers_nth)
  from this [of "\<lambda>w. case wk_pc w of W_Run task \<Rightarrow> [task] | _ \<Rightarrow> []"]
  have fl: "in_flight (stop_workers ws e) = in_flight e" by (simp add: in_flight_def)
  have "\<forall>w\<in>set (ex_workers (stop_workers ws e)). wk_queue w < length (ex_queues e)"
    using ex_ok_queues(3) [OF ok] by (auto simp: in_set_conv_nth stop_workers_nth)
  with ok fl show ?thesis by (simp add: ex_ok_def)
qed

lemma ex_ok_fields:
  "ex_ok e \<Longrightarrow> ex_ok (e\<lparr>ex_manager := m\<rparr>)" "ex_ok e \<Longrightarrow> ex_ok (e\<lparr>ex_closed := b, ex_closing := c\<rparr>)"
  "ex_ok e \<Longrightarrow> ex_ok (e\<lparr>ex_closing := c\<rparr>)"
  by (simp_all add: ex_ok_def queued_def in_flight_def)

lemma finish_resize_ok: "ex_ok e \<Longrightarrow> ex_ok (finish_resize e)"
  by (auto simp: finish_resize_def ex_ok_def queued_def in_flight_def split: manager_pc.splits dest: in_set_takeD)

lemma ex_step_ok:
  assumes "ex_step fresh e e'" and ok: "ex_ok e" and fresh: "rb_inv 0 fresh" "rb_items fresh = []"
  shows "ex_ok e'"
  using assms(1)
proof cases
  case (ex_submit now task err)
  then show ?thesis using Submit_ok [OF ok] by blast
next
  case (ex_work w)
  then show ?thesis using worker_step_ok [OF ok] by blast
next
  case (ex_work_stop w)
  then show ?thesis using ok ex_ok_set_pc [OF ok, of w W_Gone]
    by (auto simp: worker_stop_step_def Let_def pc_task_def)
next
  case (ex_resize n)
  then show ?thesis using ok add_worker_ok [OF ok fresh] add_workers_ok [OF ok fresh] stop_workers_ok [OF ex_ok_fields(1) [OF ok]]
    by (auto simp: Resize_def Let_def split: if_splits)
next
  case ex_finish
  then show ?thesis using finish_resize_ok [OF ok] by simp
next
  case ex_close
  then show ?thesis using ex_ok_fields(2) [OF ok] ok by (simp add: Close_def)
next
  case ex_close_stop
  then show ?thesis using stop_workers_ok [OF ex_ok_fields(3) [OF ok]] ok by (auto simp: Close_stop_def)
qed

lemma ex_reach_ok:
  assumes "ex_reach fresh e0 e" and "ex_ok e0" and "rb_inv 0 fresh" "rb_items fresh = []"
  shows "ex_ok e"
  using assms(1,2) by (induction rule: ex_reach.induct) (auto intro: ex_step_ok [OF _ _ assms(3,4)])

lemma NewExecutor_ok:
  assumes "rb_inv 0 fresh" and "rb_items fresh = []"
  shows "ex_ok (NewExecutor fresh cpus n)"
  unfolding NewExecutor_def Let_def
  by (rule add_workers_ok [OF _ assms]) (simp add: ex_ok_def queued_def in_flight_def)

section \<open>Properties\<close>

text \<open>
  Claim C21 (tasks are conserved).  However submissions, workers, resizes and a close
  interleave, the tasks accepted are exactly the tasks executed, the tasks in the queues and
  the tasks being executed, counted with multiplicity: no task is run twice, invented or
  dropped from the queues.
\<close>

theorem executor_conserves:
  assumes "NewLockFreeQueue alloc_max zero 1024 = Some (Ok fresh)"
    and "ex_reach fresh (NewExecutor fresh cpus n) e"
  shows "mset (ex_accepted e) = mset (ex_executed e) + mset (queued e) + mset (in_flight e)"
proof -
  have round: "lfq_round 1024 1 = Some (2 ^ 10)"
    using lfq_round_pow [of 10 1024 0] power_strict_increasing [of _ 10 "2 :: int"] by simp
  then have "1024 \<le> alloc_max" using assms(1) by (auto simp: NewLockFreeQueue_def split: if_splits)
  then have "fresh = rb_fresh zero 10"
    using NewLockFreeQueue_fresh [of 1024 10 alloc_max zero] round assms(1) by simp
  then have "rb_inv 0 fresh" "rb_items fresh = []" using rb_fresh_inv [of 10] by simp_all
  from ex_reach_ok [OF assms(2) NewExecutor_ok [OF this] this] show ?thesis by (simp add: ex_ok_def)
qed

lemma demo_queue: "NewLockFreeQueue 2000 (0 :: nat) 1024 = Some (Ok (rb_fresh 0 10))"
  using NewLockFreeQueue_fresh [of 1024 10 2000 "0 :: nat"]
    lfq_round_pow [of 10 1024 0] power_strict_increasing [of _ 10 "2 :: int"] by simp

lemma ex_submits:
  assumes "\<not> ex_closed e" and "ex_localQueues e \<noteq> []" and "0 \<le> now"
    and "ex_localQueues e ! nat (now mod int (length (ex_localQueues e))) = q"
    and "rb_inv 0 (ex_queues e ! q)" and "length (rb_items (ex_queues e ! q)) < rb_Cap (ex_queues e ! q)"
  shows "\<exists>q'. Submit now task e = Some (Ok (None, e\<lparr>ex_queues := (ex_queues e)[q := q'],
      ex_accepted := ex_accepted e @ [task]\<rparr>)) \<and> rb_items q' = rb_items (ex_queues e ! q) @ [task]"
  using lfq.enq_room [OF rb_inv_0 [OF assms(5)] assms(6), where x = task and b = 0] assms(1-4)
  by (auto simp: Submit_def Let_def)

theorem executor_conserves_witness:
  "\<exists>e. ex_reach (rb_fresh 0 10) (NewExecutor (rb_fresh 0 10) 8 1) e \<and> ex_accepted e = [7 :: nat] \<and>
     mset (ex_executed e) + mset (queued e) + mset (in_flight e) = {#7#}"
proof -
  let ?e = "NewExecutor (rb_fresh 0 10) 8 1 :: nat Executor"
  have e: "\<not> ex_closed ?e" "ex_localQueues ?e = [0]" "ex_queues ?e = [rb_fresh 0 10]" "ex_accepted ?e = []"
    by (simp_all add: NewExecutor_def add_worker_def Let_def)
  have "rb_inv 0 (rb_fresh (0 :: nat) 10)" by (rule rb_fresh_inv) simp_all
  with ex_submits [of ?e 5 0 7] e obtain q' where
    "Submit 5 7 ?e = Some (Ok (None, ?e\<lparr>ex_queues := [q'], ex_accepted := [7]\<rparr>))" by auto
  then have r: "ex_reach (rb_fresh 0 10) ?e (?e\<lparr>ex_queues := [q'], ex_accepted := [7]\<rparr>)"
    by (intro ex_next [OF ex_refl] ex_submit)
  from executor_conserves [OF demo_queue r] r show ?thesis by (intro exI) auto
qed

text \<open>
  Fact (stranded task).  Shrinking the pool strands accepted tasks: there is a run of two
  workers, one submission and a resize to one worker after which the executor is open, the
  resize has finished, and the accepted task has not run and is in no queue that a remaining
  worker or the executor can reach.
\<close>

theorem executor_resize_strands:
  assumes "rb_inv 0 fresh" and "rb_items fresh = []" and "0 < rb_Cap fresh"
  shows "\<exists>e. ex_reach fresh (NewExecutor fresh cpus 2) e \<and> \<not> ex_closed e \<and> ex_manager e = M_Idle \<and>
    NumWorkers e = 1 \<and> ex_accepted e = [task] \<and> ex_executed e = [] \<and> in_flight e = [] \<and>
    ex_global e = [] \<and> (\<forall>q\<in>set (ex_localQueues e). rb_items (ex_queues e ! q) = []) \<and>
    (\<forall>w\<in>set (ex_active e). rb_items (ex_queues e ! wk_queue (ex_workers e ! w)) = [])"
proof -
  let ?w = "\<lambda>q. \<lparr>wk_queue = q, wk_stop = False, wk_pc = W_Top\<rparr> :: 'a worker"
  let ?e0 = "NewExecutor fresh cpus 2"
  have e0: "?e0 = \<lparr>ex_global = [], ex_globalCap = 8, ex_queues = [fresh, fresh], ex_localQueues = [0, 1],
      ex_workers = [?w 0, ?w 1], ex_active = [0, 1], ex_closed = False, ex_closing = False,
      ex_manager = M_Idle, ex_executed = [], ex_accepted = []\<rparr>"
    by (simp add: NewExecutor_def add_worker_def Let_def numeral_2_eq_2)
  from ex_submits [of ?e0 1 1 task] assms obtain q' where
    "Submit 1 task ?e0 = Some (Ok (None, ?e0\<lparr>ex_queues := [fresh, q'], ex_accepted := [task]\<rparr>))"
    by (auto simp: e0)
  then have 1: "ex_step fresh ?e0 (?e0\<lparr>ex_queues := [fresh, q'], ex_accepted := [task]\<rparr>)" (is "ex_step _ _ ?e1")
    by (rule ex_submit)
  let ?s = "(?w 1)\<lparr>wk_stop := True\<rparr>"
  have "Resize fresh 1 ?e1 = Ok (?e1\<lparr>ex_manager := M_Wait 1, ex_workers := [?w 0, ?s]\<rparr>)"
    by (simp add: Resize_def stop_workers_def e0 Let_def upt_rec)
  then have 2: "ex_step fresh ?e1 (?e1\<lparr>ex_manager := M_Wait 1, ex_workers := [?w 0, ?s]\<rparr>)" (is "ex_step _ _ ?e2")
    by (rule ex_resize)
  let ?g = "?s\<lparr>wk_pc := W_Gone\<rparr>"
  have "worker_step 1 ?e2 = Some (Ok (?e2\<lparr>ex_workers := [?w 0, ?g]\<rparr>))"
    by (simp add: worker_step_def set_pc_def e0 Let_def)
  then have 3: "ex_step fresh ?e2 (?e2\<lparr>ex_workers := [?w 0, ?g]\<rparr>)" (is "ex_step _ _ ?e3")
    by (intro ex_work [of 1]) (simp_all add: e0)
  let ?e4 = "finish_resize ?e3"
  have "ex_reach fresh ?e0 ?e4"
    by (rule ex_next [OF ex_next [OF ex_next [OF ex_next [OF ex_refl 1] 2] 3] ex_finish])
  then show ?thesis
    by (intro exI [of _ ?e4]) (simp add: finish_resize_def e0 NumWorkers_def in_flight_def assms)
qed

theorem executor_resize_strands_witness:
  "\<exists>e. ex_reach (rb_fresh 0 10) (NewExecutor (rb_fresh 0 10) 8 2) e \<and> \<not> ex_closed e \<and> ex_manager e = M_Idle \<and>
    NumWorkers e = 1 \<and> ex_accepted e = [7 :: nat] \<and> ex_executed e = [] \<and> in_flight e = [] \<and>
    ex_global e = [] \<and> (\<forall>q\<in>set (ex_localQueues e). rb_items (ex_queues e ! q) = []) \<and>
    (\<forall>w\<in>set (ex_active e). rb_items (ex_queues e ! wk_queue (ex_workers e ! w)) = [])"
  by (rule executor_resize_strands) (simp_all add: rb_fresh_inv)

text \<open>With its queue and the global queue full, an open executor reports itself closed.\<close>

lemma Submit_full:
  assumes "\<not> ex_closed e" and "ex_localQueues e \<noteq> []" and "0 \<le> now"
    and "q = ex_localQueues e ! nat (now mod int (length (ex_localQueues e)))"
    and "rb_inv 0 (ex_queues e ! q)" and "length (rb_items (ex_queues e ! q)) = rb_Cap (ex_queues e ! q)"
    and "ex_globalCap e \<le> length (ex_global e)"
  shows "Submit now task e = Some (Ok (Some ErrExecutorClosed, e))"
  using lfq.enq_full [OF assms(5,6), of task] assms(1-4,7)
  by (simp add: Submit_def Let_def)

end
