(* ===== verification/IExecutor.thy ===== *)
theory IExecutor
  imports SpscRing
begin

text \<open>
  The executor the adapters use, \<^verbatim>\<open>internal/concurrency/executor.go\<close> with
  \<^verbatim>\<open>adapters/executor_adapter.go\<close>.  Its local queues are the internal lock-free queue, whose
  operations are not atomic, so submitters and workers are interleaved access by access.  A slot
  that was never written holds the nil function, \<^const>\<open>None\<close>; calling it panics, which
  \<^verbatim>\<open>safeExecute\<close> recovers.
\<close>

section \<open>State\<close>

text \<open>Where a call of Submit is: inside Enqueue, at the global queue, or back with its result.\<close>

datatype sub_pc = IS_Head | IS_Tail uint64 | IS_Cas uint64 | IS_Write uint64 | IS_Global | IS_Done bool

record 'a isub =
  is_queue_no :: nat
  is_task :: 'a
  is_pc :: sub_pc

datatype 'a iwork_pc = IW_Top | IW_Head | IW_Tail uint64 | IW_Cas uint64 | IW_Read uint64 | IW_Global | IW_Run "'a option" | IW_Gone

record 'a iworker =
  iw_queue :: nat
  iw_stop :: bool
  iw_pc :: "'a iwork_pc"

datatype imanager_pc = IM_Idle | IM_Wait nat

text \<open>
  Queues are objects, named by their place in \<open>ix_queues\<close>; \<open>ix_workers\<close> lists every worker ever started,
  \<open>ix_active\<close> names those in the slice.  \<open>ix_executed\<close> are the calls made, \<open>ix_accepted\<close> the tasks
  for which Submit returned nil.
\<close>

record 'a IExecutor =
  ix_global :: "'a option list"
  ix_globalCap :: nat
  ix_queues :: "'a option iqueue list"
  ix_localQueues :: "nat list"
  ix_workers :: "'a iworker list"
  ix_active :: "nat list"
  ix_closed :: bool
  ix_closing :: bool
  ix_manager :: imanager_pc
  ix_subs :: "'a isub list"
  ix_executed :: "'a option list"
  ix_accepted :: "'a list"

definition ix_add_worker :: "'a option iqueue \<Rightarrow> 'a IExecutor \<Rightarrow> 'a IExecutor" where
  "ix_add_worker fresh e =
     e\<lparr>ix_queues := ix_queues e @ [fresh], ix_localQueues := ix_localQueues e @ [length (ix_queues e)],
       ix_workers := ix_workers e @ [\<lparr>iw_queue = length (ix_queues e), iw_stop = False, iw_pc = IW_Top\<rparr>],
       ix_active := ix_active e @ [length (ix_workers e)]\<rparr>"

definition ix_NewExecutor :: "'a option iqueue \<Rightarrow> int \<Rightarrow> int \<Rightarrow> 'a IExecutor" where
  "ix_NewExecutor fresh numCPU numWorkers0 =
     (let numWorkers = nat (if numWorkers0 \<le> 0 then numCPU else numWorkers0)
      in (ix_add_worker fresh ^^ numWorkers)
           \<lparr>ix_global = [], ix_globalCap = numWorkers * 4, ix_queues = [], ix_localQueues = [], ix_workers = [],
            ix_active = [], ix_closed = False, ix_closing = False, ix_manager = IM_Idle, ix_subs = [],
            ix_executed = [], ix_accepted = []\<rparr>)"

section \<open>Submitting\<close>

text \<open>The first part of Submit at clock \<open>now\<close>; an executor that is closed refuses at once.\<close>

definition ix_Submit :: "int \<Rightarrow> 'a \<Rightarrow> 'a IExecutor \<Rightarrow> 'a IExecutor outcome" where
  "ix_Submit now task e =
     (if ix_closed e then Ok e
      else if ix_localQueues e = [] \<or> now < 0 \<and> now mod int (length (ix_localQueues e)) \<noteq> 0 then Panic
      else Ok (e\<lparr>ix_subs := ix_subs e @
        [\<lparr>is_queue_no = ix_localQueues e ! nat (now mod int (length (ix_localQueues e))), is_task = task, is_pc = IS_Head\<rparr>]\<rparr>))"

definition set_sub :: "nat \<Rightarrow> sub_pc \<Rightarrow> 'a IExecutor \<Rightarrow> 'a IExecutor" where
  "set_sub i pc e = e\<lparr>ix_subs := (ix_subs e)[i := (ix_subs e ! i)\<lparr>is_pc := pc\<rparr>]\<rparr>"

definition set_queue :: "nat \<Rightarrow> 'a option iqueue \<Rightarrow> 'a IExecutor \<Rightarrow> 'a IExecutor" where
  "set_queue k q e = e\<lparr>ix_queues := (ix_queues e)[k := q]\<rparr>"

definition accept :: "'a \<Rightarrow> 'a IExecutor \<Rightarrow> 'a IExecutor" where
  "accept task e = e\<lparr>ix_accepted := ix_accepted e @ [task]\<rparr>"

text \<open>
  One access of call \<open>i\<close>; \<open>sel\<close> says that the select at the global queue takes the closed channel when
  both it and the queue are ready.
\<close>

definition ix_sub_step :: "bool \<Rightarrow> nat \<Rightarrow> 'a IExecutor \<Rightarrow> 'a IExecutor outcome" where
  "ix_sub_step sel i e =
     (let s = ix_subs e ! i;
          k = is_queue_no s;
          q = ix_queues e ! k
      in case is_pc s of
           IS_Head \<Rightarrow> Ok (set_sub i (IS_Tail (iq_head q)) e)
         | IS_Tail head \<Rightarrow>
             Ok (set_sub i (if iq_tail q - head \<ge> of_nat (length (iq_entries q)) then IS_Global else IS_Cas (iq_tail q)) e)
         | IS_Cas tail \<Rightarrow>
             if iq_tail q = tail then Ok (set_sub i (IS_Write tail) (set_queue k (q\<lparr>iq_tail := tail + 1\<rparr>) e))
             else Ok (set_sub i IS_Head e)
         | IS_Write tail \<Rightarrow>
             (let j = idx tail (iq_mask q)
              in if j < length (iq_entries q)
                 then Ok (accept (is_task s) (set_sub i (IS_Done True)
                   (set_queue k (q\<lparr>iq_entries := (iq_entries q)[j := Some (is_task s)]\<rparr>) e)))
                 else Panic)
         | IS_Global \<Rightarrow>
             if length (ix_global e) < ix_globalCap e \<and> \<not> (ix_closed e \<and> sel)
             then Ok (accept (is_task s) (set_sub i (IS_Done True) (e\<lparr>ix_global := ix_global e @ [Some (is_task s)]\<rparr>)))
             else Ok (set_sub i (IS_Done False) e)
         | IS_Done _ \<Rightarrow> Ok e)"

section \<open>Workers\<close>

definition set_wpc :: "nat \<Rightarrow> 'a iwork_pc \<Rightarrow> 'a IExecutor \<Rightarrow> 'a IExecutor" where
  "set_wpc w pc e = e\<lparr>ix_workers := (ix_workers e)[w := (ix_workers e ! w)\<lparr>iw_pc := pc\<rparr>]\<rparr>"

text \<open>One access of worker \<open>w\<close>; \<open>sel\<close>: the inner select takes the closed stop channel.\<close>

definition ix_worker_step :: "bool \<Rightarrow> nat \<Rightarrow> 'a IExecutor \<Rightarrow> 'a IExecutor outcome" where
  "ix_worker_step sel w e =
     (let wk = ix_workers e ! w;
          k = iw_queue wk;
          q = ix_queues e ! k
      in case iw_pc wk of
           IW_Top \<Rightarrow> Ok (set_wpc w (if iw_stop wk then IW_Gone else IW_Head) e)
         | IW_Head \<Rightarrow> Ok (set_wpc w (IW_Tail (iq_head q)) e)
         | IW_Tail head \<Rightarrow> Ok (set_wpc w (if head \<ge> iq_tail q then IW_Global else IW_Cas head) e)
         | IW_Cas head \<Rightarrow>
             if iq_head q = head then Ok (set_wpc w (IW_Read head) (set_queue k (q\<lparr>iq_head := head + 1\<rparr>) e))
             else Ok (set_wpc w IW_Head e)
         | IW_Read head \<Rightarrow>
             (let j = idx head (iq_mask q)
              in if j < length (iq_entries q) then Ok (set_wpc w (IW_Run (iq_entries q ! j)) e) else Panic)
         | IW_Global \<Rightarrow>
             (if iw_stop wk \<and> (sel \<or> ix_global e = []) then Ok (set_wpc w IW_Gone e)
              else case ix_global e of
                task # rest \<Rightarrow> Ok (set_wpc w (IW_Run task) (e\<lparr>ix_global := rest\<rparr>))
              | [] \<Rightarrow> Ok (set_wpc w IW_Top e))
         | IW_Run task \<Rightarrow> Ok (set_wpc w IW_Top (e\<lparr>ix_executed := ix_executed e @ [task]\<rparr>))
         | IW_Gone \<Rightarrow> Ok e)"

section \<open>Resizing and closing\<close>

definition ix_stop :: "nat list \<Rightarrow> 'a IExecutor \<Rightarrow> 'a IExecutor" where
  "ix_stop ws e = e\<lparr>ix_workers :=
     map (\<lambda>i. if i \<in> set ws then (ix_workers e ! i)\<lparr>iw_stop := True\<rparr> else ix_workers e ! i) [0..<length (ix_workers e)]\<rparr>"

definition ix_Resize :: "'a option iqueue \<Rightarrow> int \<Rightarrow> 'a IExecutor \<Rightarrow> 'a IExecutor outcome" where
  "ix_Resize fresh newCount0 e =
     (if ix_closed e then Panic
      else if ix_manager e \<noteq> IM_Idle then Ok e
      else
        let newCount = nat (if newCount0 \<le> 0 then 1 else newCount0);
            current = length (ix_active e)
        in if newCount > current then Ok ((ix_add_worker fresh ^^ (newCount - current)) e)
           else if newCount < current then
             Ok (ix_stop (drop newCount (ix_active e)) (e\<lparr>ix_manager := IM_Wait newCount\<rparr>))
           else Ok e)"

definition ix_finish_resize :: "'a IExecutor \<Rightarrow> 'a IExecutor" where
  "ix_finish_resize e =
     (case ix_manager e of
        IM_Wait n \<Rightarrow>
          if list_all (\<lambda>w. iw_pc (ix_workers e ! w) = IW_Gone) (drop n (ix_active e))
          then e\<lparr>ix_active := take n (ix_active e), ix_localQueues := take n (ix_localQueues e), ix_manager := IM_Idle\<rparr>
          else e
      | IM_Idle \<Rightarrow> e)"

definition ix_Close :: "'a IExecutor \<Rightarrow> 'a IExecutor" where
  "ix_Close e = (if ix_closed e then e else e\<lparr>ix_closed := True, ix_closing := True\<rparr>)"

definition ix_Close_stop :: "'a IExecutor \<Rightarrow> 'a IExecutor" where
  "ix_Close_stop e =
     (if ix_closing e \<and> ix_manager e = IM_Idle then ix_stop (ix_active e) (e\<lparr>ix_closing := False\<rparr>) else e)"

definition ix_NumWorkers :: "'a IExecutor \<Rightarrow> nat" where
  "ix_NumWorkers e = length (ix_active e)"


section \<open>Runs\<close>

text \<open>Requests on a closed executor that make Resize panic are the caller's fault and not taken.\<close>

datatype 'a ix_act = XSubmit int 'a | XSub bool nat | XWork bool nat | XResize int | XFinish | XClose | XCloseStop

fun ix_step :: "'a option iqueue \<Rightarrow> 'a ix_act \<Rightarrow> 'a IExecutor \<Rightarrow> 'a IExecutor outcome" where
  "ix_step fresh (XSubmit now task) e = ix_Submit now task e"
| "ix_step fresh (XSub sel i) e = (if i < length (ix_subs e) then ix_sub_step sel i e else Ok e)"
| "ix_step fresh (XWork sel w) e = (if w < length (ix_workers e) then ix_worker_step sel w e else Ok e)"
| "ix_step fresh (XResize n) e = (if ix_closed e then Ok e else ix_Resize fresh n e)"
| "ix_step fresh XFinish e = Ok (ix_finish_resize e)"
| "ix_step fresh XClose e = Ok (ix_Close e)"
| "ix_step fresh XCloseStop e = Ok (ix_Close_stop e)"

fun ix_run :: "'a option iqueue \<Rightarrow> 'a ix_act list \<Rightarrow> 'a IExecutor \<Rightarrow> 'a IExecutor outcome" where
  "ix_run fresh [] e = Ok e"
| "ix_run fresh (a # as) e = bind_outcome (ix_step fresh a e) (ix_run fresh as)"

section \<open>Invariant\<close>

text \<open>A queue whose indices are in range and whose slots hold nil or a task of \<open>T\<close>.\<close>

definition iq_shape :: "'a set \<Rightarrow> 'a option iqueue \<Rightarrow> bool" where
  "iq_shape T q \<longleftrightarrow>
     (\<exists>k\<le>62. iq_mask q = of_nat (2 ^ k - 1) \<and> length (iq_entries q) = 2 ^ k) \<and> set (iq_entries q) \<subseteq> insert None (Some ` T)"

lemma iq_shape_idx: "iq_shape T q \<Longrightarrow> idx w (iq_mask q) < length (iq_entries q)"
  unfolding iq_shape_def using idx_mask by fastforce

definition ix_inv :: "'a set \<Rightarrow> 'a IExecutor \<Rightarrow> bool" where
  "ix_inv T e \<longleftrightarrow>
     (\<forall>q\<in>set (ix_queues e). iq_shape T q) \<and>
     (\<forall>k\<in>set (ix_localQueues e). k < length (ix_queues e)) \<and>
     (\<forall>w\<in>set (ix_workers e). iw_queue w < length (ix_queues e) \<and> (\<forall>t. iw_pc w = IW_Run (Some t) \<longrightarrow> t \<in> T)) \<and>
     (\<forall>s\<in>set (ix_subs e). is_queue_no s < length (ix_queues e) \<and> is_task s \<in> T) \<and>
     set (ix_global e) \<subseteq> insert None (Some ` T) \<and> set (ix_executed e) \<subseteq> insert None (Some ` T) \<and> set (ix_accepted e) \<subseteq> T"

text \<open>There is always a local queue to submit to.\<close>

definition ix_live :: "'a IExecutor \<Rightarrow> bool" where
  "ix_live e \<longleftrightarrow> ix_localQueues e \<noteq> [] \<and> (\<forall>n. ix_manager e = IM_Wait n \<longrightarrow> 0 < n)"

lemma set_update_D: "x \<in> set (xs[i := y]) \<Longrightarrow> x = y \<or> x \<in> set xs"
  using set_update_subset_insert by fastforce

lemma ix_inv_sub:
  assumes "ix_inv T e" and "i < length (ix_subs e)"
  shows "is_queue_no (ix_subs e ! i) < length (ix_queues e)" "is_task (ix_subs e ! i) \<in> T"
    "iq_shape T (ix_queues e ! is_queue_no (ix_subs e ! i))" "ix_inv T (set_sub i pc e)"
proof -
  show 1: "is_queue_no (ix_subs e ! i) < length (ix_queues e)" "is_task (ix_subs e ! i) \<in> T"
    using assms by (simp_all add: ix_inv_def)
  show "iq_shape T (ix_queues e ! is_queue_no (ix_subs e ! i))" using assms 1 by (simp add: ix_inv_def)
  show "ix_inv T (set_sub i pc e)" using assms(1) 1 by (auto simp: ix_inv_def set_sub_def dest: set_update_D)
qed

lemma ix_inv_worker:
  assumes "ix_inv T e" and "w < length (ix_workers e)"
  shows "iw_queue (ix_workers e ! w) < length (ix_queues e)"
    "iq_shape T (ix_queues e ! iw_queue (ix_workers e ! w))"
    "(\<And>t. pc = IW_Run (Some t) \<Longrightarrow> t \<in> T) \<Longrightarrow> ix_inv T (set_wpc w pc e)"
proof -
  show 1: "iw_queue (ix_workers e ! w) < length (ix_queues e)" using assms by (simp add: ix_inv_def)
  show "iq_shape T (ix_queues e ! iw_queue (ix_workers e ! w))" using assms 1 by (simp add: ix_inv_def)
  assume "\<And>t. pc = IW_Run (Some t) \<Longrightarrow> t \<in> T"
  then show "ix_inv T (set_wpc w pc e)" using assms(1) 1 by (auto simp: ix_inv_def set_wpc_def dest: set_update_D)
qed

lemma ix_inv_queue: "ix_inv T e \<Longrightarrow> iq_shape T q \<Longrightarrow> ix_inv T (set_queue k q e)"
  by (auto simp: ix_inv_def set_queue_def dest: set_update_D)

lemma iq_shape_fields [simp]:
  "iq_shape T (q\<lparr>iq_tail := t\<rparr>) = iq_shape T q" "iq_shape T (q\<lparr>iq_head := t\<rparr>) = iq_shape T q"
  by (simp_all add: iq_shape_def)

lemma iq_shape_write: "iq_shape T q \<Longrightarrow> t \<in> T \<Longrightarrow> iq_shape T (q\<lparr>iq_entries := (iq_entries q)[j := Some t]\<rparr>)"
  by (auto simp: iq_shape_def dest: set_update_D)

lemma sub_set_queue [simp]: "ix_subs (set_queue k q e) = ix_subs e" "ix_workers (set_queue k q e) = ix_workers e"
  by (simp_all add: set_queue_def)

lemma ix_inv_accept: "ix_inv T e \<Longrightarrow> t \<in> T \<Longrightarrow> ix_inv T (accept t e)"
  by (auto simp: ix_inv_def accept_def)

lemma ix_inv_global:
  "ix_inv T e \<Longrightarrow> t \<in> T \<Longrightarrow> ix_inv T (e\<lparr>ix_global := ix_global e @ [Some t]\<rparr>)"
  by (auto simp: ix_inv_def)

lemma sub_step_inv:
  assumes inv: "ix_inv T e" and i: "i < length (ix_subs e)"
  shows "\<exists>e'. ix_sub_step sel i e = Ok e' \<and> ix_inv T e'"
proof -
  let ?s = "ix_subs e ! i"
  let ?q = "ix_queues e ! is_queue_no ?s"
  note s = ix_inv_sub(1-3) [OF inv i]
  show ?thesis
  proof (cases "is_pc ?s")
    case (IS_Cas tail)
    have "ix_inv T (set_queue (is_queue_no ?s) (?q\<lparr>iq_tail := tail + 1\<rparr>) e)" using ix_inv_queue [OF inv] s(3) by simp
    from ix_inv_sub(4) [OF this, of i] ix_inv_sub(4) [OF inv i] i show ?thesis
      using IS_Cas by (simp add: ix_sub_step_def Let_def)
  next
    case (IS_Write tail)
    let ?q' = "?q\<lparr>iq_entries := (iq_entries ?q)[idx tail (iq_mask ?q) := Some (is_task ?s)]\<rparr>"
    have "ix_inv T (set_queue (is_queue_no ?s) ?q' e)" by (rule ix_inv_queue [OF inv iq_shape_write [OF s(3,2)]])
    from ix_inv_accept [OF ix_inv_sub(4) [OF this, of i] s(2)] i iq_shape_idx [OF s(3)] show ?thesis
      using IS_Write by (simp add: ix_sub_step_def Let_def)
  next
    case IS_Global
    have "ix_inv T (accept (is_task ?s) (set_sub i (IS_Done True) (e\<lparr>ix_global := ix_global e @ [Some (is_task ?s)]\<rparr>)))"
      using ix_inv_accept [OF ix_inv_sub(4) [OF ix_inv_global [OF inv s(2)], of i] s(2)] i by simp
    then show ?thesis using IS_Global ix_inv_sub(4) [OF inv i] by (simp add: ix_sub_step_def Let_def)
  qed (use ix_inv_sub(4) [OF inv i] inv in \<open>simp_all add: ix_sub_step_def Let_def\<close>)
qed

lemma worker_step_inv:
  assumes inv: "ix_inv T e" and w: "w < length (ix_workers e)"
  shows "\<exists>e'. ix_worker_step sel w e = Ok e' \<and> ix_inv T e'"
proof -
  let ?wk = "ix_workers e ! w"
  let ?q = "ix_queues e ! iw_queue ?wk"
  note q = ix_inv_worker(2) [OF inv w]
  note set = ix_inv_worker(3) [OF inv w]
  show ?thesis
  proof (cases "iw_pc ?wk")
    case (IW_Cas head)
    have "ix_inv T (set_queue (iw_queue ?wk) (?q\<lparr>iq_head := head + 1\<rparr>) e)" using ix_inv_queue [OF inv] q by simp
    from ix_inv_worker(3) [OF this, of w "IW_Read head"] set [of IW_Head] w show ?thesis
      using IW_Cas by (simp add: ix_worker_step_def Let_def)
  next
    case (IW_Read head)
    have "iq_entries ?q ! idx head (iq_mask ?q) \<in> insert None (Some ` T)"
      using q iq_shape_idx [OF q, of head] nth_mem unfolding iq_shape_def by blast
    then have "ix_inv T (set_wpc w (IW_Run (iq_entries ?q ! idx head (iq_mask ?q))) e)" by (intro set) auto
    then show ?thesis using IW_Read iq_shape_idx [OF q] by (simp add: ix_worker_step_def Let_def)
  next
    case IW_Global
    show ?thesis
    proof (cases "ix_global e")
      case (Cons t rest)
      have "ix_inv T (e\<lparr>ix_global := rest\<rparr>)" using inv Cons by (auto simp: ix_inv_def)
      moreover have "t \<in> insert None (Some ` T)" using inv Cons by (auto simp: ix_inv_def)
      ultimately have "ix_inv T (set_wpc w (IW_Run t) (e\<lparr>ix_global := rest\<rparr>))"
        by (intro ix_inv_worker(3)) (use w in auto)
      then show ?thesis using IW_Global Cons set [of IW_Gone] by (simp add: ix_worker_step_def Let_def)
    qed (use IW_Global set [of IW_Gone] set [of IW_Top] in \<open>simp add: ix_worker_step_def Let_def\<close>)
  next
    case (IW_Run t)
    have "t \<in> insert None (Some ` T)"
      using inv nth_mem [OF w] IW_Run unfolding ix_inv_def by (cases t) auto
    then have "ix_inv T (e\<lparr>ix_executed := ix_executed e @ [t]\<rparr>)" using inv by (auto simp: ix_inv_def)
    from ix_inv_worker(3) [OF this, of w IW_Top] w show ?thesis using IW_Run by (simp add: ix_worker_step_def Let_def)
  qed (use inv in \<open>auto simp: ix_worker_step_def Let_def intro!: set\<close>)
qed

lemma add_worker_inv: "ix_inv T e \<Longrightarrow> iq_shape T fresh \<Longrightarrow> ix_inv T (ix_add_worker fresh e)"
  by (auto simp: ix_inv_def ix_add_worker_def intro: less_SucI)

lemma add_workers_inv: "ix_inv T e \<Longrightarrow> iq_shape T fresh \<Longrightarrow> ix_inv T ((ix_add_worker fresh ^^ n) e)"
  by (induction n) (simp_all add: add_worker_inv)

lemma add_workers_live:
  "ix_live e \<Longrightarrow> ix_live ((ix_add_worker fresh ^^ n) e)"
  "0 < n \<Longrightarrow> ix_localQueues ((ix_add_worker fresh ^^ n) e) \<noteq> []"
  "ix_manager ((ix_add_worker fresh ^^ n) e) = ix_manager e"
  by (induction n) (auto simp: ix_live_def ix_add_worker_def)

lemma ix_stop_inv:
  assumes "ix_inv T e"
  shows "ix_inv T (ix_stop ws e)"
proof -
  let ?ws = "map (\<lambda>i. if i \<in> set ws then (ix_workers e ! i)\<lparr>iw_stop := True\<rparr> else ix_workers e ! i) [0..<length (ix_workers e)]"
  have ok: "\<forall>w\<in>set (ix_workers e). iw_queue w < length (ix_queues e) \<and> (\<forall>t. iw_pc w = IW_Run (Some t) \<longrightarrow> t \<in> T)"
    using assms unfolding ix_inv_def by blast
  have "\<forall>w\<in>set ?ws. iw_queue w < length (ix_queues e) \<and> (\<forall>t. iw_pc w = IW_Run (Some t) \<longrightarrow> t \<in> T)"
  proof
    fix x assume "x \<in> set ?ws"
    then obtain i where "i < length (ix_workers e)"
      "x = (if i \<in> set ws then (ix_workers e ! i)\<lparr>iw_stop := True\<rparr> else ix_workers e ! i)" by (auto split: if_splits)
    then show "iw_queue x < length (ix_queues e) \<and> (\<forall>t. iw_pc x = IW_Run (Some t) \<longrightarrow> t \<in> T)"
      using bspec [OF ok nth_mem [of i "ix_workers e"]] by (cases "i \<in> set ws") auto
  qed
  then show ?thesis using assms unfolding ix_inv_def ix_stop_def by simp
qed

lemma ix_stop_live [simp]: "ix_live (ix_stop ws e) = ix_live e"
  by (simp add: ix_live_def ix_stop_def)

lemma ix_step_inv:
  assumes "ix_inv T e" "ix_live e" "iq_shape T fresh" and "\<And>now t. a = XSubmit now t \<Longrightarrow> 0 \<le> now \<and> t \<in> T"
  shows "\<exists>e'. ix_step fresh a e = Ok e' \<and> ix_inv T e' \<and> ix_live e'"
proof (cases a)
  case (XSubmit now t)
  let ?l = "ix_localQueues e"
  have "nat (now mod int (length ?l)) < length ?l" using assms(2) by (simp add: ix_live_def nat_less_iff)
  then have "?l ! nat (now mod int (length ?l)) < length (ix_queues e)" using assms(1) by (simp add: ix_inv_def)
  then show ?thesis using assms(1,2) assms(4) [OF XSubmit] XSubmit
    by (auto simp: ix_Submit_def ix_inv_def ix_live_def)
next
  case (XSub sel i)
  have "ix_live e'" if "ix_sub_step sel i e = Ok e'" for e'
    using that assms(2) by (auto simp: ix_sub_step_def Let_def ix_live_def set_sub_def set_queue_def accept_def
        split: sub_pc.splits if_splits)
  then show ?thesis using sub_step_inv [OF assms(1), of i sel] assms(1,2) XSub by auto
next
  case (XWork sel w)
  have "ix_live e'" if "ix_worker_step sel w e = Ok e'" for e'
    using that assms(2) by (auto simp: ix_worker_step_def Let_def ix_live_def set_wpc_def set_queue_def
        split: iwork_pc.splits if_splits list.splits)
  then show ?thesis using worker_step_inv [OF assms(1), of w sel] assms(1,2) XWork by auto
next
  case (XResize n)
  have stop: "ix_inv T (ix_stop ws (e\<lparr>ix_manager := m\<rparr>))" for ws m
    by (rule ix_stop_inv) (use assms(1) in \<open>simp add: ix_inv_def\<close>)
  have live: "ix_live (ix_stop ws (e\<lparr>ix_manager := IM_Wait m\<rparr>))" if "0 < m" for ws m
    using that assms(2) by (simp add: ix_live_def ix_stop_def)
  show ?thesis using XResize stop live [of "nat n"] live [of 1] add_workers_inv [OF assms(1,3)] add_workers_live(1) [OF assms(2)] assms(1,2)
    by (simp add: ix_Resize_def Let_def)
next
  case XFinish
  have "ix_inv T (ix_finish_resize e) \<and> ix_live (ix_finish_resize e)"
    using assms(1,2) by (auto simp: ix_finish_resize_def ix_inv_def ix_live_def dest: in_set_takeD split: imanager_pc.splits)
  then show ?thesis using XFinish by simp
next
  case XClose
  then show ?thesis using assms(1,2) by (auto simp: ix_Close_def ix_inv_def ix_live_def)
next
  case XCloseStop
  have "ix_inv T (e\<lparr>ix_closing := False\<rparr>)" "ix_live (e\<lparr>ix_closing := False\<rparr>)"
    using assms(1,2) by (simp_all add: ix_inv_def ix_live_def)
  then show ?thesis using XCloseStop ix_stop_inv assms(1,2) by (auto simp: ix_Close_stop_def)
qed

section \<open>Properties\<close>

fun submitted :: "'a ix_act list \<Rightarrow> 'a list" where
  "submitted [] = []"
| "submitted (XSubmit now t # as) = t # submitted as"
| "submitted (a # as) = submitted as"

lemma submitted_mem: "XSubmit now t \<in> set as \<Longrightarrow> t \<in> set (submitted as)"
  by (induction as rule: submitted.induct) auto

lemma ix_run_inv:
  assumes "ix_inv T e" "ix_live e" "iq_shape T fresh" and "\<forall>now t. XSubmit now t \<in> set as \<longrightarrow> 0 \<le> now \<and> t \<in> T"
  shows "\<exists>e'. ix_run fresh as e = Ok e' \<and> ix_inv T e'"
  using assms
proof (induction as arbitrary: e)
  case (Cons a as)
  have "\<And>now t. a = XSubmit now t \<Longrightarrow> 0 \<le> now \<and> t \<in> T" using Cons.prems(4) by simp
  from ix_step_inv [OF Cons.prems(1-3) this] obtain e1 where
    e1: "ix_step fresh a e = Ok e1" "ix_inv T e1" "ix_live e1" by blast
  from Cons.IH [OF e1(2,3) Cons.prems(3)] Cons.prems(4) e1(1) show ?case by simp
qed simp

text \<open>The queue every worker gets.\<close>

definition iq_1024 :: "'a option iqueue" where
  "iq_1024 = \<lparr>iq_mask = 1023, iq_entries = replicate 1024 None, iq_head = 0, iq_tail = 0\<rparr>"

lemma iq_1024_sel:
  "iq_mask iq_1024 = 1023" "length (iq_entries iq_1024) = 1024" "iq_head iq_1024 = 0" "iq_tail iq_1024 = 0"
  "iq_entries iq_1024 ! 0 = None"
  by (simp_all only: iq_1024_def iqueue.select_convs length_replicate nth_replicate zero_less_numeral)

lemma lfq_round_1024: "lfq_round 1024 1 = Some 1024"
proof -
  have "2 ^ j < (1024 :: int)" if "j < 10" for j :: nat using power_strict_increasing [OF that, of "2 :: int"] by simp
  from lfq_round_pow [of 10 1024 0, OF _ _ this] show ?thesis by simp
qed

lemma iq_1024_new: "4096 \<le> alloc_max \<Longrightarrow> iq_NewLockFreeQueue alloc_max None 1024 = Some (Ok iq_1024)"
  unfolding iq_NewLockFreeQueue_def iq_1024_def by (simp add: lfq_round_1024)

lemma iq_1024_shape: "iq_shape T iq_1024"
  unfolding iq_shape_def by (intro conjI exI [of _ 10]) (simp_all add: iq_1024_def)


text \<open>
  A worker that looks between the reservation and the write of a slot: the submitter's first three
  accesses, the worker's turn, then the write.
\<close>

definition race :: "'a \<Rightarrow> 'a ix_act list" where
  "race t =
     [XSubmit 0 t, XSub False 0, XSub False 0, XSub False 0,
      XWork False 0, XWork False 0, XWork False 0, XWork False 0, XWork False 0, XWork False 0,
      XSub False 0]"


text \<open>
  Fact (an accepted task is never run).  In that race Submit reports the task as accepted, the
  worker has called nil in its place, the queues are empty and everybody is idle.
\<close>

theorem internal_executor_loses:
  "\<exists>e. ix_run iq_1024 (race t) (ix_NewExecutor iq_1024 4 1) = Ok e \<and> ix_accepted e = [t] \<and> ix_executed e = [None] \<and>
    ix_global e = [] \<and> map (\<lambda>q. (iq_head q, iq_tail q)) (ix_queues e) = [(1, 1)] \<and>
    map iw_pc (ix_workers e) = [IW_Top] \<and> map is_pc (ix_subs e) = [IS_Done True]"
  by (simp add: race_def ix_NewExecutor_def ix_add_worker_def ix_Submit_def ix_sub_step_def ix_worker_step_def
      set_sub_def set_wpc_def set_queue_def accept_def iq_1024_sel idx_def Let_def)

end
