(* ===== verification/Scheduler.thy ===== *)
theory Scheduler
  imports Prelude
begin

text \<open>
  \<^verbatim>\<open>internal/concurrency/scheduler.go\<close> (the file in \<^verbatim>\<open>core/concurrency\<close> is the same): a
  timer, a goroutine that waits for the timer or for cancellation, and Cancel, which may be
  called any number of times from anywhere.  A timer that has fired but whose channel was
  not read yet may or may not count as stopped by \<^verbatim>\<open>timer.Stop\<close>, depending on the Go
  version; both are steps.
\<close>

datatype timer = T_Active | T_Fired | T_Received | T_Stopped

record sched_task =
  tk_timer :: timer
  tk_done :: bool
  tk_gone :: bool
  tk_runs :: nat
  tk_panic :: bool

record scheduler =
  sc_tasks :: "sched_task list"
  sc_timers :: "nat set"

definition NewScheduler :: scheduler where
  "NewScheduler = \<lparr>sc_tasks = [], sc_timers = {}\<rparr>"

definition Schedule :: "scheduler \<Rightarrow> nat \<times> scheduler" where
  "Schedule s =
     (let t = length (sc_tasks s)
      in (t, s\<lparr>sc_tasks := sc_tasks s @ [\<lparr>tk_timer = T_Active, tk_done = False, tk_gone = False,
                                     tk_runs = 0, tk_panic = False\<rparr>],
               sc_timers := insert t (sc_timers s)\<rparr>))"

definition timer_fire :: "sched_task \<Rightarrow> sched_task" where
  "timer_fire k = (if tk_timer k = T_Active then k\<lparr>tk_timer := T_Fired\<rparr> else k)"

text \<open>The goroutine of \<^verbatim>\<open>Schedule\<close>: whichever case of the select is ready.\<close>

definition run_fn :: "sched_task \<Rightarrow> sched_task" where
  "run_fn k = (if \<not> tk_gone k \<and> tk_timer k = T_Fired
     then k\<lparr>tk_timer := T_Received, tk_runs := Suc (tk_runs k), tk_gone := True\<rparr> else k)"

definition see_cancel :: "sched_task \<Rightarrow> sched_task" where
  "see_cancel k = (if \<not> tk_gone k \<and> tk_done k then k\<lparr>tk_gone := True\<rparr> else k)"

text \<open>\<^verbatim>\<open>cancel\<close>: closing a closed channel would panic.\<close>

definition stop_timer :: "bool \<Rightarrow> sched_task \<Rightarrow> bool \<times> sched_task" where
  "stop_timer late k =
     (if tk_timer k = T_Active \<or> (late \<and> tk_timer k = T_Fired)
      then (True, k\<lparr>tk_timer := T_Stopped\<rparr>) else (False, k))"

definition cancel :: "bool \<Rightarrow> sched_task \<Rightarrow> sched_task" where
  "cancel late k =
     (let (stopped, k') = stop_timer late k
      in if stopped then (if tk_done k' then k'\<lparr>tk_panic := True\<rparr> else k'\<lparr>tk_done := True\<rparr>) else k')"

definition Cancel :: "bool \<Rightarrow> nat \<Rightarrow> scheduler \<Rightarrow> scheduler" where
  "Cancel late t s = s\<lparr>sc_tasks := (sc_tasks s)[t := cancel late (sc_tasks s ! t)],
     sc_timers := sc_timers s - {t}\<rparr>"

inductive sched_reach :: "scheduler \<Rightarrow> bool" where
  s_new: "sched_reach NewScheduler"
| s_schedule: "sched_reach s \<Longrightarrow> sched_reach (snd (Schedule s))"
| s_task: "sched_reach s \<Longrightarrow> f \<in> {timer_fire, see_cancel} \<Longrightarrow>
     sched_reach (s\<lparr>sc_tasks := (sc_tasks s)[t := f (sc_tasks s ! t)]\<rparr>)"
| s_run: "sched_reach s \<Longrightarrow>
     sched_reach (s\<lparr>sc_tasks := (sc_tasks s)[t := run_fn (sc_tasks s ! t)], sc_timers := sc_timers s - {t}\<rparr>)"
| s_cancel: "sched_reach s \<Longrightarrow> sched_reach (Cancel late t s)"

definition task_ok :: "sched_task \<Rightarrow> bool" where
  "task_ok k \<longleftrightarrow> \<not> tk_panic k \<and> tk_done k = (tk_timer k = T_Stopped) \<and>
     tk_runs k = (if tk_timer k = T_Received then 1 else 0) \<and>
     (tk_timer k = T_Received \<longrightarrow> tk_gone k) \<and> (tk_gone k \<longrightarrow> tk_timer k \<in> {T_Received, T_Stopped})"

lemma task_ok_steps:
  "task_ok k \<Longrightarrow> task_ok (timer_fire k)" "task_ok k \<Longrightarrow> task_ok (run_fn k)"
  "task_ok k \<Longrightarrow> task_ok (see_cancel k)" "task_ok k \<Longrightarrow> task_ok (cancel late k)"
  by (auto simp: task_ok_def timer_fire_def run_fn_def see_cancel_def cancel_def stop_timer_def)

lemma task_ok_update:
  assumes "\<forall>k\<in>set ks. task_ok k" and "\<And>k. task_ok k \<Longrightarrow> task_ok (f k)"
  shows "\<forall>k\<in>set (ks[t := f (ks ! t)]). task_ok k"
proof (cases "t < length ks")
  case True
  then show ?thesis using assms set_update_subset_insert [of ks t "f (ks ! t)"] nth_mem [OF True] by blast
qed (use assms(1) in \<open>simp add: list_update_beyond not_less\<close>)

lemma sched_reach_ok: "sched_reach s \<Longrightarrow> \<forall>k\<in>set (sc_tasks s). task_ok k"
proof (induction rule: sched_reach.induct)
  case (s_schedule s)
  then show ?case by (auto simp: Schedule_def Let_def task_ok_def)
next
  case (s_task s f t)
  have "\<forall>k\<in>set ((sc_tasks s)[t := f (sc_tasks s ! t)]). task_ok k"
    by (rule task_ok_update) (use s_task task_ok_steps in auto)
  then show ?case by simp
next
  case (s_run s t)
  have "\<forall>k\<in>set ((sc_tasks s)[t := run_fn (sc_tasks s ! t)]). task_ok k"
    by (rule task_ok_update) (use s_run task_ok_steps in auto)
  then show ?case by simp
next
  case (s_cancel s late t)
  have "\<forall>k\<in>set ((sc_tasks s)[t := cancel late (sc_tasks s ! t)]). task_ok k"
    by (rule task_ok_update) (use s_cancel task_ok_steps in auto)
  then show ?case by (simp add: Cancel_def)
qed (simp add: NewScheduler_def)

text \<open>
  Claim C23 (at most once).  Whatever the order of timers, goroutines and cancellations, a
  scheduled function runs at most once, never after a cancellation that took effect, and
  cancelling repeatedly never closes its channel twice.
\<close>

theorem scheduler_at_most_once:
  assumes "sched_reach s" and "k \<in> set (sc_tasks s)"
  shows "tk_runs k \<le> 1 \<and> (tk_done k \<longrightarrow> tk_runs k = 0) \<and> \<not> tk_panic k"
  using sched_reach_ok [OF assms(1)] assms(2) by (auto simp: task_ok_def)

theorem scheduler_at_most_once_witness:
  "\<exists>s k. sched_reach s \<and> k \<in> set (sc_tasks s) \<and> tk_done k \<and> tk_runs k = 0 \<and> \<not> tk_panic k"
proof -
  let ?s = "Cancel False 0 (Cancel False 0 (snd (Schedule NewScheduler)))"
  let ?k = "\<lparr>tk_timer = T_Stopped, tk_done = True, tk_gone = False, tk_runs = 0, tk_panic = False\<rparr>"
  have r: "sched_reach ?s" by (intro s_cancel s_schedule s_new)
  have m: "?k \<in> set (sc_tasks ?s)"
    by (simp add: Cancel_def Schedule_def NewScheduler_def cancel_def stop_timer_def Let_def)
  from scheduler_at_most_once [OF r m] r m show ?thesis by (intro exI conjI) auto
qed

end
