(* ===== verification/ConnLoops.thy ===== *)
theory ConnLoops
  imports Connection "HOL-Library.Sublist"
begin

text \<open>
  A started connection of \<^verbatim>\<open>protocol/connection.go\<close>: the goroutines \<^verbatim>\<open>recvLoop\<close> and
  \<^verbatim>\<open>sendLoop\<close>, callers of \<^verbatim>\<open>SendFrame\<close>, \<^verbatim>\<open>RecvZeroCopy\<close> and \<^verbatim>\<open>Close\<close>, interleaved.  A
  step runs one goroutine between two points where it can be observed (a channel operation,
  an atomic access, a transport call).  What the transport answers and which ready case a
  \<^verbatim>\<open>select\<close> takes is the step's choice.  Channels are buffered (\<^verbatim>\<open>channelSize\<close> at least 1).
\<close>

section \<open>Goroutines\<close>

datatype recv_pc =
    R_Off
  | R_Top
  | R_Recv
  | R_Decode
  | R_Control WSFrame
  | R_Sending WSFrame bool
  | R_Close
  | R_Enqueue WSFrame
  | R_Handle WSFrame
  | R_Exit
  | R_Stopped

datatype send_pc =
    S_Wait
  | S_Batch "WSFrame list"
  | S_Send "WSFrame list"
  | S_Close
  | S_Stopped

text \<open>
  The run-time state.  \<open>waiting\<close> are the frames of \<^verbatim>\<open>SendFrame\<close> calls blocked at the
  outbox, \<open>crashed\<close> that a goroutine panicked.  The \<open>g_\<close> fields record the history:
  bytes received, frames decoded, frames taken from the inbox, payloads handled, replies and
  frames accepted into the outbox, frames sent, and the bytes written.
\<close>

record conn = WSConnection +
  rpc :: recv_pc
  senders :: "send_pc list"
  waiting :: "WSFrame list"
  crashed :: bool
  tr_closed :: bool
  g_recv :: bytes
  g_frames :: "WSFrame list"
  g_taken :: "inbox_frame list"
  g_handled :: "bytes list"
  g_replies :: "WSFrame list"
  g_accepted :: "WSFrame list"
  g_sent :: "WSFrame list"
  g_wire :: bytes

definition new_conn :: "WSConnection \<Rightarrow> conn" where
  "new_conn c = WSConnection.extend c (conn.fields R_Off [] [] False False [] [] [] [] [] [] [] [])"

datatype choice = Go | TakeDone | Raws "bytes list" | IOErr nat

section \<open>Close, Start, SendFrame\<close>

text \<open>
  \<^verbatim>\<open>Close\<close>: the winner of the flag closes \<^verbatim>\<open>done\<close> and then the transport, in later steps.
\<close>

definition Close :: "conn \<Rightarrow> conn" where
  "Close c = c\<lparr>conn_closed := True\<rparr>"

definition close_done :: "conn \<Rightarrow> conn option" where
  "close_done c = (if conn_closed c \<and> \<not> done_closed c then Some (c\<lparr>done_closed := True\<rparr>) else None)"

definition close_transport :: "conn \<Rightarrow> conn option" where
  "close_transport c = (if done_closed c \<and> \<not> tr_closed c then Some (c\<lparr>tr_closed := True\<rparr>) else None)"

definition Start :: "conn \<Rightarrow> conn" where
  "Start c = c\<lparr>loopRunning := True, sendRunning := True, rpc := R_Top, senders := senders c @ [S_Wait]\<rparr>"

definition SetHandler :: "conn \<Rightarrow> bool \<Rightarrow> conn" where
  "SetHandler c h = c\<lparr>conn_handler := h\<rparr>"

datatype send_path = SF_Closed | SF_Queue | SF_Direct

definition SendFrame_enter :: "conn \<Rightarrow> send_path \<times> conn" where
  "SendFrame_enter c =
     (if conn_closed c then (SF_Closed, c)
      else let c1 = (if sendRunning c then c
                     else c\<lparr>sendRunning := True, senders := senders c @ [S_Wait]\<rparr>)
           in (if sendRunning c1 then SF_Queue else SF_Direct, c1))"

definition frame_data :: "WSFrame \<Rightarrow> bytes outcome" where
  "frame_data f = EncodeFrameToBufferWithMask f (Masked f) []"

definition SendFrame_direct :: "choice \<Rightarrow> conn \<Rightarrow> WSFrame \<Rightarrow> conn" where
  "SendFrame_direct ch c f =
     (case frame_data f of
        Ok data \<Rightarrow>
          (case ch of
             IOErr k \<Rightarrow> c\<lparr>g_wire := g_wire c @ take k data\<rparr>
           | _ \<Rightarrow> c\<lparr>g_wire := g_wire c @ data, framesSent := framesSent c + 1,
                    bytesSent := bytesSent c + word_of_int (PayloadLen f)\<rparr>)
      | Err e \<Rightarrow> c
      | Panic \<Rightarrow> c\<lparr>crashed := True\<rparr>)"

text \<open>The call of an application goroutine, up to the channel; then the two cases of the select.\<close>

definition SendFrame :: "choice \<Rightarrow> conn \<Rightarrow> WSFrame \<Rightarrow> conn" where
  "SendFrame ch c f =
     (case SendFrame_enter c of
        (SF_Closed, c1) \<Rightarrow> c1
      | (SF_Queue, c1) \<Rightarrow> c1\<lparr>waiting := waiting c1 @ [f]\<rparr>
      | (SF_Direct, c1) \<Rightarrow> SendFrame_direct ch c1 f)"

definition SendFrame_put :: "conn \<Rightarrow> nat \<Rightarrow> conn option" where
  "SendFrame_put c i =
     (if i < length (waiting c) \<and> length (outbox c) < chan_size c
      then Some (c\<lparr>outbox := outbox c @ [waiting c ! i], g_accepted := g_accepted c @ [waiting c ! i],
                  waiting := take i (waiting c) @ drop (Suc i) (waiting c)\<rparr>)
      else None)"

definition SendFrame_done :: "conn \<Rightarrow> nat \<Rightarrow> conn option" where
  "SendFrame_done c i =
     (if i < length (waiting c) \<and> done_closed c
      then Some (c\<lparr>waiting := take i (waiting c) @ drop (Suc i) (waiting c)\<rparr>) else None)"

section \<open>handleControl and recvLoop\<close>

definition pong_of :: "WSFrame \<Rightarrow> WSFrame" where
  "pong_of f = \<lparr>IsFinal = True, Opcode = OpcodePong, Masked = False, PayloadLen = PayloadLen f,
     MaskKey = [0, 0, 0, 0], Payload = Payload f\<rparr>"

definition after_reply :: "bool \<Rightarrow> recv_pc" where
  "after_reply isClose = (if isClose then R_Close else R_Decode)"

definition control_send :: "choice \<Rightarrow> conn \<Rightarrow> WSFrame \<Rightarrow> bool \<Rightarrow> conn" where
  "control_send ch c g isClose =
     (case SendFrame_enter c of
        (SF_Closed, c1) \<Rightarrow> c1\<lparr>rpc := after_reply isClose\<rparr>
      | (SF_Queue, c1) \<Rightarrow> c1\<lparr>rpc := R_Sending g isClose\<rparr>
      | (SF_Direct, c1) \<Rightarrow> (SendFrame_direct ch c1 g)\<lparr>rpc := after_reply isClose\<rparr>)"

definition handleControl :: "choice \<Rightarrow> conn \<Rightarrow> WSFrame \<Rightarrow> conn" where
  "handleControl ch c f =
     (if Opcode f = OpcodePing then control_send ch c (pong_of f) False
      else if Opcode f = OpcodePong then c\<lparr>rpc := R_Decode\<rparr>
      else if Opcode f = OpcodeClose then control_send ch c f True
      else c\<lparr>rpc := R_Enqueue f\<rparr>)"

definition recv_decode :: "conn \<Rightarrow> conn" where
  "recv_decode c =
     (if readBuf c = [] then c\<lparr>rpc := R_Top\<rparr>
      else case DecodeFrameFromBytes (readBuf c) of
        (DecodeErr e, b) \<Rightarrow> c\<lparr>readBuf := b, rpc := R_Exit\<rparr>
      | (DecodePanic, b) \<Rightarrow> c\<lparr>readBuf := b, crashed := True\<rparr>
      | (Incomplete, b) \<Rightarrow> c\<lparr>readBuf := b, rpc := R_Top\<rparr>
      | (Decoded f n, b) \<Rightarrow> (count_received f c)\<lparr>readBuf := drop n b, rpc := R_Control f,
          g_frames := g_frames c @ [f]\<rparr>)"

definition recv_sending :: "choice \<Rightarrow> conn \<Rightarrow> WSFrame \<Rightarrow> bool \<Rightarrow> conn option" where
  "recv_sending ch c g isClose =
     (case ch of
        Go \<Rightarrow> if length (outbox c) < chan_size c
              then Some (c\<lparr>outbox := outbox c @ [g], g_accepted := g_accepted c @ [g],
                          g_replies := g_replies c @ [g], rpc := after_reply isClose\<rparr>)
              else None
      | TakeDone \<Rightarrow> if done_closed c then Some (c\<lparr>rpc := after_reply isClose\<rparr>) else None
      | _ \<Rightarrow> None)"

definition recv_enqueue :: "choice \<Rightarrow> conn \<Rightarrow> WSFrame \<Rightarrow> conn option" where
  "recv_enqueue ch c f =
     (case ch of
        Go \<Rightarrow> if length (inbox c) < chan_size c
              then Some (c\<lparr>inbox := inbox c @ [\<lparr>in_frame = f, in_Buf = Some (Payload f)\<rparr>], rpc := R_Handle f\<rparr>)
              else None
      | TakeDone \<Rightarrow> if done_closed c then Some (c\<lparr>rpc := R_Exit\<rparr>) else None
      | _ \<Rightarrow> None)"

definition recv_handle :: "conn \<Rightarrow> WSFrame \<Rightarrow> conn" where
  "recv_handle c f =
     c\<lparr>rpc := R_Decode,
       g_handled := (if conn_handler c \<and> PayloadLen f \<le> MaxFramePayload \<and> PayloadLen f \<ge> 0
                     then g_handled c @ [Payload f] else g_handled c)\<rparr>"

fun recv_step :: "choice \<Rightarrow> recv_pc \<Rightarrow> conn \<Rightarrow> conn option" where
  "recv_step ch R_Off c = None"
| "recv_step ch R_Top c = Some (c\<lparr>rpc := (if done_closed c then R_Exit else R_Recv)\<rparr>)"
| "recv_step ch R_Recv c =
     (case ch of
        Raws raws \<Rightarrow> Some (c\<lparr>readBuf := readBuf c @ concat raws, g_recv := g_recv c @ concat raws,
                            rpc := R_Decode\<rparr>)
      | IOErr _ \<Rightarrow> Some (c\<lparr>rpc := R_Exit\<rparr>)
      | _ \<Rightarrow> None)"
| "recv_step ch R_Decode c = Some (recv_decode c)"
| "recv_step ch (R_Control f) c = Some (handleControl ch c f)"
| "recv_step ch (R_Sending g isClose) c = recv_sending ch c g isClose"
| "recv_step ch R_Close c = Some ((Close c)\<lparr>rpc := R_Decode\<rparr>)"
| "recv_step ch (R_Enqueue f) c = recv_enqueue ch c f"
| "recv_step ch (R_Handle f) c = Some (recv_handle c f)"
| "recv_step ch R_Exit c = Some ((Close c)\<lparr>rpc := R_Stopped\<rparr>)"
| "recv_step ch R_Stopped c = None"

section \<open>sendLoop\<close>

definition maxBatch :: nat where "maxBatch = 32"

fun encode_batch :: "WSFrame list \<Rightarrow> bytes list outcome" where
  "encode_batch [] = Ok []"
| "encode_batch (f # fs) =
     bind_outcome (frame_data f) (\<lambda>data. bind_outcome (encode_batch fs) (\<lambda>out. Ok (data # out)))"

definition send_batch :: "choice \<Rightarrow> conn \<Rightarrow> nat \<Rightarrow> WSFrame list \<Rightarrow> conn option" where
  "send_batch ch c i fs =
     (case encode_batch fs of
        Ok out \<Rightarrow>
          (case ch of
             Go \<Rightarrow> Some (c\<lparr>g_wire := g_wire c @ concat out, g_sent := g_sent c @ fs,
                          senders := (senders c)[i := S_Wait]\<rparr>)
           | IOErr k \<Rightarrow> Some (c\<lparr>g_wire := g_wire c @ take k (concat out),
                               senders := (senders c)[i := S_Close]\<rparr>)
           | _ \<Rightarrow> None)
      | Err e \<Rightarrow> Some (c\<lparr>senders := (senders c)[i := S_Close]\<rparr>)
      | Panic \<Rightarrow> Some (c\<lparr>crashed := True\<rparr>))"

fun send_step :: "choice \<Rightarrow> nat \<Rightarrow> send_pc \<Rightarrow> conn \<Rightarrow> conn option" where
  "send_step ch i S_Wait c =
     (case ch of
        TakeDone \<Rightarrow> if done_closed c then Some (c\<lparr>senders := (senders c)[i := S_Stopped]\<rparr>) else None
      | Go \<Rightarrow> (case outbox c of
                  [] \<Rightarrow> None
                | f # rest \<Rightarrow> Some (c\<lparr>outbox := rest, senders := (senders c)[i := S_Batch [f]]\<rparr>))
      | _ \<Rightarrow> None)"
| "send_step ch i (S_Batch fs) c =
     (if length fs < maxBatch
      then (case outbox c of
              [] \<Rightarrow> Some (c\<lparr>senders := (senders c)[i := S_Send fs]\<rparr>)
            | f # rest \<Rightarrow> Some (c\<lparr>outbox := rest, senders := (senders c)[i := S_Batch (fs @ [f])]\<rparr>))
      else Some (c\<lparr>senders := (senders c)[i := S_Send fs]\<rparr>))"
| "send_step ch i (S_Send fs) c = send_batch ch c i fs"
| "send_step ch i S_Close c = Some ((Close c)\<lparr>senders := (senders c)[i := S_Stopped]\<rparr>)"
| "send_step ch i S_Stopped c = None"

section \<open>Runs\<close>

text \<open>
  \<open>AppTake\<close> is \<^verbatim>\<open>RecvZeroCopy\<close> in loop mode taking a frame (its result is \<open>recv_inbox\<close>), or
  another reader of \<^verbatim>\<open>GetInboxChan\<close>.  \<^verbatim>\<open>Start\<close> is called once.
\<close>

datatype conn_act =
    ARecv choice
  | ASend nat choice
  | AppSend WSFrame choice
  | AppPut nat
  | AppDone nat
  | AppTake
  | AppClose
  | CloseDone
  | CloseTransport
  | AppStart
  | AppHandler bool

fun conn_step :: "conn_act \<Rightarrow> conn \<Rightarrow> conn option" where
  "conn_step (ARecv ch) c = recv_step ch (rpc c) c"
| "conn_step (ASend i ch) c = (if i < length (senders c) then send_step ch i (senders c ! i) c else None)"
| "conn_step (AppSend f ch) c = Some (SendFrame ch c f)"
| "conn_step (AppPut i) c = SendFrame_put c i"
| "conn_step (AppDone i) c = SendFrame_done c i"
| "conn_step AppTake c =
     (case inbox c of
        [] \<Rightarrow> None
      | q # rest \<Rightarrow> if loopRunning c then Some (c\<lparr>inbox := rest, g_taken := g_taken c @ [q]\<rparr>) else None)"
| "conn_step AppClose c = Some (Close c)"
| "conn_step CloseDone c = close_done c"
| "conn_step CloseTransport c = close_transport c"
| "conn_step AppStart c = (if rpc c = R_Off then Some (Start c) else None)"
| "conn_step (AppHandler h) c = Some (SetHandler c h)"

fun conn_run :: "conn_act list \<Rightarrow> conn \<Rightarrow> conn option" where
  "conn_run [] c = Some c"
| "conn_run (a # as) c =
     (if crashed c then None
      else case conn_step a c of None \<Rightarrow> None | Some c' \<Rightarrow> conn_run as c')"

section \<open>Invariants\<close>

lemma conn_run_invariant:
  assumes "\<And>a c c'. J c \<Longrightarrow> conn_step a c = Some c' \<Longrightarrow> J c'"
  shows "conn_run as c = Some c' \<Longrightarrow> J c \<Longrightarrow> J c'"
  by (induction as arbitrary: c) (auto split: if_splits option.splits dest: assms)

definition is_data :: "WSFrame \<Rightarrow> bool" where
  "is_data f \<longleftrightarrow> Opcode f \<noteq> OpcodePing \<and> Opcode f \<noteq> OpcodePong \<and> Opcode f \<noteq> OpcodeClose"

definition reply_of :: "WSFrame \<Rightarrow> WSFrame list" where
  "reply_of f = (if Opcode f = OpcodePing then [pong_of f] else if Opcode f = OpcodeClose then [f] else [])"

fun pending_data :: "recv_pc \<Rightarrow> WSFrame list" where
  "pending_data (R_Control f) = (if is_data f then [f] else [])"
| "pending_data (R_Enqueue f) = [f]"
| "pending_data _ = []"

fun pending_reply :: "recv_pc \<Rightarrow> WSFrame list" where
  "pending_reply (R_Control f) = reply_of f"
| "pending_reply (R_Sending g _) = [g]"
| "pending_reply _ = []"

fun batch_of :: "send_pc \<Rightarrow> WSFrame list" where
  "batch_of (S_Batch fs) = fs"
| "batch_of (S_Send fs) = fs"
| "batch_of _ = []"

definition frame_bytes :: "WSFrame \<Rightarrow> bytes" where
  "frame_bytes f = (case frame_data f of Ok data \<Rightarrow> data | _ \<Rightarrow> [])"

text \<open>What was decoded and what the read buffer still holds are what was received.\<close>

definition rx_inv :: "conn \<Rightarrow> bool" where
  "rx_inv c \<longleftrightarrow>
     drain (g_recv c) = (let (fs, rest, st) = drain (readBuf c) in (g_frames c @ fs, rest, st)) \<and>
     (rpc c \<in> {R_Off, R_Top, R_Recv} \<longrightarrow> drain (readBuf c) = ([], readBuf c, Waiting)) \<and>
     (\<forall>f\<in>set (g_frames c). wf_frame f)"

text \<open>Data frames are with the reader, in the inbox, in hand, or given up at the end.\<close>

definition data_inv :: "conn \<Rightarrow> bool" where
  "data_inv c \<longleftrightarrow>
     (\<exists>lost. filter is_data (g_frames c) = map in_frame (g_taken c @ inbox c) @ pending_data (rpc c) @ lost \<and>
        (lost \<noteq> [] \<longrightarrow> rpc c \<in> {R_Exit, R_Stopped})) \<and>
     (\<forall>q\<in>set (g_taken c @ inbox c). in_Buf q = Some (Payload (in_frame q)))"

definition reply_inv :: "conn \<Rightarrow> bool" where
  "reply_inv c \<longleftrightarrow> (done_closed c \<longrightarrow> conn_closed c) \<and>
     (\<not> conn_closed c \<longrightarrow> g_replies c @ pending_reply (rpc c) = concat (map reply_of (g_frames c)))"

definition stat_inv :: "conn \<Rightarrow> bool" where
  "stat_inv c \<longleftrightarrow> framesSent c = 0 \<and> bytesSent c = 0 \<and>
     framesReceived c = of_nat (length (g_frames c)) \<and>
     bytesReceived c = of_nat (sum_list (map (\<lambda>f. length (Payload f)) (g_frames c))) \<and>
     length (inbox c) \<le> chan_size c \<and> length (outbox c) \<le> chan_size c"

text \<open>With one send loop: accepted frames are sent, in its batch, given up, or queued.\<close>

definition tx_inv :: "conn \<Rightarrow> bool" where
  "tx_inv c \<longleftrightarrow> (length (senders c) \<le> 1 \<longrightarrow>
     (\<exists>lost torn. g_accepted c = g_sent c @ concat (map batch_of (senders c)) @ lost @ outbox c \<and>
        g_wire c = concat (map frame_bytes (g_sent c)) @ torn \<and>
        prefix torn (concat (map frame_bytes lost)) \<and>
        (lost \<noteq> [] \<longrightarrow> senders c = [S_Close] \<or> senders c = [S_Stopped])))"

text \<open>A frame is never sent directly: \<^verbatim>\<open>SendFrame\<close> starts a send loop first.\<close>

definition with_sender :: "conn \<Rightarrow> conn" where
  "with_sender c = (if sendRunning c then c else c\<lparr>sendRunning := True, senders := senders c @ [S_Wait]\<rparr>)"

lemma SendFrame_enter_eq:
  "SendFrame_enter c = (if conn_closed c then (SF_Closed, c) else (SF_Queue, with_sender c))"
  by (simp add: SendFrame_enter_def with_sender_def Let_def)

lemma SendFrame_eq:
  "SendFrame ch c f = (if conn_closed c then c else (with_sender c)\<lparr>waiting := waiting c @ [f]\<rparr>)"
  by (simp add: SendFrame_def SendFrame_enter_eq) (simp add: with_sender_def)

lemma control_send_eq:
  "control_send ch c g isClose =
     (if conn_closed c then c\<lparr>rpc := after_reply isClose\<rparr> else (with_sender c)\<lparr>rpc := R_Sending g isClose\<rparr>)"
  by (simp add: control_send_def SendFrame_enter_eq)

lemmas conn_defs = Close_def close_done_def close_transport_def Start_def SetHandler_def
  SendFrame_eq SendFrame_put_def SendFrame_done_def control_send_eq handleControl_def recv_sending_def
  recv_enqueue_def recv_handle_def after_reply_def send_batch_def with_sender_def

lemma not_Decoded_untouched:
  "DecodeFrameFromBytes raw = (d, b) \<Longrightarrow> (\<nexists>f n. d = Decoded f n) \<Longrightarrow> b = raw"
  by (auto simp: DecodeFrameFromBytes_def Let_def split: if_splits option.splits)

text \<open>The outcome of a decoding step, with the drained buffer in view.\<close>

lemma recv_decode_cases:
  obtains (empty) "readBuf c = []" "recv_decode c = c\<lparr>rpc := R_Top\<rparr>"
  | (more) "drain (readBuf c) = ([], readBuf c, Waiting)" "recv_decode c = c\<lparr>rpc := R_Top\<rparr>"
  | (error) "recv_decode c = c\<lparr>rpc := R_Exit\<rparr>"
  | (panic) "recv_decode c = c\<lparr>crashed := True\<rparr>" "rpc (recv_decode c) = rpc c"
  | (frame) f n where "drain (readBuf c) = (let (fs, rest, st) = drain (drop n (readBuf c)) in (f # fs, rest, st))"
      "wf_frame f" "recv_decode c = (count_received f c)\<lparr>readBuf := drop n (readBuf c), rpc := R_Control f,
          g_frames := g_frames c @ [f]\<rparr>"
proof (cases "readBuf c = []")
  case True
  then show thesis by (intro empty) (simp_all add: recv_decode_def)
next
  case ne: False
  obtain d b where d: "DecodeFrameFromBytes (readBuf c) = (d, b)" by fastforce
  show thesis
  proof (cases d)
    case (Decoded f n)
    then have "wf_frame f" "drop n b = drop n (readBuf c)"
      using Decoded_bounds [of "readBuf c" f n b] d by (simp_all add: wf_frame_def)
    then show thesis using frame [of n f] drain_Decoded [of "readBuf c" f n] d Decoded ne
      by (simp add: recv_decode_def)
  next
    case Incomplete
    then show thesis
      using more drain_Incomplete [of "readBuf c"] not_Decoded_untouched [OF d] d ne
      by (simp add: recv_decode_def)
  next
    case (DecodeErr e)
    then show thesis using error not_Decoded_untouched [OF d] d ne by (simp add: recv_decode_def)
  next
    case DecodePanic
    then show thesis using panic not_Decoded_untouched [OF d] d ne by (simp add: recv_decode_def)
  qed
qed

text \<open>Only the receive loop touches its own side of the connection.\<close>

lemma others_keep_rx:
  assumes "conn_step a c = Some c'" and "\<nexists>ch. a = ARecv ch"
  shows "g_recv c' = g_recv c \<and> readBuf c' = readBuf c \<and> g_frames c' = g_frames c \<and>
    g_replies c' = g_replies c \<and> g_taken c' @ inbox c' = g_taken c @ inbox c \<and>
    (rpc c' = rpc c \<or> rpc c = R_Off \<and> rpc c' = R_Top) \<and> framesReceived c' = framesReceived c \<and>
    bytesReceived c' = bytesReceived c \<and> framesSent c' = framesSent c \<and> bytesSent c' = bytesSent c \<and>
    chan_size c' = chan_size c \<and> length (inbox c') \<le> length (inbox c) \<and>
    (length (outbox c) \<le> chan_size c \<longrightarrow> length (outbox c') \<le> chan_size c) \<and>
    (conn_closed c \<longrightarrow> conn_closed c') \<and>
    ((done_closed c \<longrightarrow> conn_closed c) \<longrightarrow> done_closed c' \<longrightarrow> conn_closed c')"
proof (cases a)
  case (ASend i ch)
  with assms(1) show ?thesis
    by (cases "senders c ! i")
      (auto simp: conn_defs split: if_splits choice.splits list.splits outcome.splits)
qed (use assms in \<open>auto simp: conn_defs split: if_splits list.splits\<close>)

lemma rx_inv_step:
  assumes "rx_inv c" and "conn_step a c = Some c'"
  shows "rx_inv c'"
proof (cases "\<exists>ch. a = ARecv ch")
  case False
  with others_keep_rx [OF assms(2)] assms(1) show ?thesis by (auto simp: rx_inv_def)
next
  case True
  then obtain ch where step: "recv_step ch (rpc c) c = Some c'" using assms(2) by auto
  show ?thesis
  proof (cases "rpc c")
    case R_Recv
    then have w: "drain (g_recv c) = (g_frames c, readBuf c, Waiting)" using assms(1) by (simp add: rx_inv_def)
    from step R_Recv consider (raws) raws where "c' = c\<lparr>readBuf := readBuf c @ concat raws,
        g_recv := g_recv c @ concat raws, rpc := R_Decode\<rparr>" | (fail) "c' = c\<lparr>rpc := R_Exit\<rparr>"
      by (auto split: choice.splits)
    then show ?thesis
    proof cases
      case raws
      have "drain (g_recv c @ concat raws) =
          (let (fs, rest, st) = drain (readBuf c @ concat raws) in (g_frames c @ fs, rest, st))"
        by (subst drain_append) (simp only: w prod.case stop.case)
      with raws assms(1) show ?thesis by (simp add: rx_inv_def)
    next
      case fail
      with assms(1) show ?thesis by (simp add: rx_inv_def)
    qed
  next
    case R_Decode
    then have c': "c' = recv_decode c" using step by simp
    show ?thesis
    proof (cases c rule: recv_decode_cases)
      case (frame f n)
      then show ?thesis using assms(1) c'
        by (auto simp: rx_inv_def count_received_def Let_def split: prod.splits)
    qed (use assms(1) c' R_Decode in \<open>auto simp: rx_inv_def\<close>)
  qed (use step assms(1) in \<open>auto simp: rx_inv_def conn_defs split: if_splits choice.splits\<close>)
qed

lemma data_inv_step:
  assumes "data_inv c" and "conn_step a c = Some c'"
  shows "data_inv c'"
proof (cases "\<exists>ch. a = ARecv ch")
  case False
  with others_keep_rx [OF assms(2)] assms(1) show ?thesis
    by (auto simp: data_inv_def simp flip: map_append set_append)
next
  case True
  then obtain ch where step: "recv_step ch (rpc c) c = Some c'" using assms(2) by auto
  show ?thesis
  proof (cases "rpc c")
    case R_Decode
    then have c': "c' = recv_decode c" using step by simp
    show ?thesis
      by (cases c rule: recv_decode_cases)
        (use assms(1) c' R_Decode in \<open>auto simp: data_inv_def count_received_def\<close>)
  next
    case (R_Enqueue f)
    with assms(1) have d: "filter is_data (g_frames c) = map in_frame (g_taken c @ inbox c) @ [f]"
      by (auto simp: data_inv_def)
    with step R_Enqueue assms(1) show ?thesis
      by (auto simp: data_inv_def recv_enqueue_def split: if_splits choice.splits)
  qed (use step assms(1) in \<open>auto simp: data_inv_def is_data_def conn_defs split: if_splits choice.splits\<close>)
qed

lemma reply_inv_step:
  assumes "reply_inv c" and "conn_step a c = Some c'"
  shows "reply_inv c'"
proof (cases "\<exists>ch. a = ARecv ch")
  case False
  with others_keep_rx [OF assms(2)] assms(1) show ?thesis by (auto simp: reply_inv_def)
next
  case True
  then obtain ch where step: "recv_step ch (rpc c) c = Some c'" using assms(2) by auto
  show ?thesis
  proof (cases "rpc c")
    case R_Decode
    then have c': "c' = recv_decode c" using step by simp
    show ?thesis
      by (cases c rule: recv_decode_cases)
        (use assms(1) c' R_Decode in \<open>auto simp: reply_inv_def count_received_def\<close>)
  qed (use step assms(1) in \<open>auto simp: reply_inv_def reply_of_def conn_defs opcode_defs split: if_splits choice.splits\<close>)
qed

lemma stat_inv_step:
  assumes "stat_inv c" and "conn_step a c = Some c'"
  shows "stat_inv c'"
proof (cases "\<exists>ch. a = ARecv ch")
  case False
  with others_keep_rx [OF assms(2)] assms(1) show ?thesis by (auto simp: stat_inv_def)
next
  case True
  then obtain ch where step: "recv_step ch (rpc c) c = Some c'" using assms(2) by auto
  show ?thesis
  proof (cases "rpc c")
    case R_Decode
    then have c': "c' = recv_decode c" using step by simp
    show ?thesis
    proof (cases c rule: recv_decode_cases)
      case (frame f n)
      then show ?thesis using assms(1) c' by (simp add: stat_inv_def count_received_def wf_frame_def)
    qed (use assms(1) c' R_Decode in \<open>auto simp: stat_inv_def\<close>)
  qed (use step assms(1) in \<open>auto simp: stat_inv_def conn_defs split: if_splits choice.splits\<close>)
qed

lemma encode_batch_bytes: "encode_batch fs = Ok out \<Longrightarrow> concat out = concat (map frame_bytes fs)"
  by (induction fs arbitrary: out) (auto simp: bind_outcome_eq_Ok frame_bytes_def)

text \<open>The invariant of the sending side, for one loop at the point \<open>pc\<close>.\<close>

definition tx_at :: "send_pc \<Rightarrow> conn \<Rightarrow> bool" where
  "tx_at pc c \<longleftrightarrow>
     (\<exists>lost torn. g_accepted c = g_sent c @ batch_of pc @ lost @ outbox c \<and>
        g_wire c = concat (map frame_bytes (g_sent c)) @ torn \<and>
        prefix torn (concat (map frame_bytes lost)) \<and>
        (lost \<noteq> [] \<longrightarrow> pc = S_Close \<or> pc = S_Stopped))"

lemma tx_inv_one: "senders c = [pc] \<Longrightarrow> tx_inv c = tx_at pc c"
  by (simp add: tx_inv_def tx_at_def)

lemma tx_inv_none:
  "senders c = [] \<Longrightarrow> tx_inv c \<longleftrightarrow> g_accepted c = g_sent c @ outbox c \<and>
     g_wire c = concat (map frame_bytes (g_sent c))"
  by (auto simp: tx_inv_def)

lemma tx_at_idle:
  assumes "pc \<noteq> S_Close" "pc \<noteq> S_Stopped"
  shows "tx_at pc c \<longleftrightarrow> g_accepted c = g_sent c @ batch_of pc @ outbox c \<and>
     g_wire c = concat (map frame_bytes (g_sent c))"
  using assms by (auto simp: tx_at_def)

lemma tx_at_end:
  assumes "tx_at S_Close c \<or> tx_at S_Stopped c" "g_accepted c' = g_accepted c @ fs" "outbox c' = outbox c @ fs"
    "g_sent c' = g_sent c" "g_wire c' = g_wire c"
  shows "tx_at S_Close c' \<and> tx_at S_Stopped c'"
  using assms by (auto simp: tx_at_def)

lemma send_step_tx:
  assumes "tx_at pc c" and "send_step ch 0 pc c = Some c'" and one: "senders c = [pc]"
  shows "tx_inv c'"
proof (cases pc)
  case (S_Send fs)
  then have st: "g_accepted c = g_sent c @ fs @ outbox c" "g_wire c = concat (map frame_bytes (g_sent c))"
    using assms(1) by (simp_all add: tx_at_idle)
  have step: "send_batch ch c 0 fs = Some c'" using assms(2) S_Send by simp
  show ?thesis
  proof (cases "encode_batch fs")
    case (Ok out)
    note bytes = encode_batch_bytes [OF Ok]
    show ?thesis
    proof (cases ch)
      case Go
      then have c': "c' = c\<lparr>g_wire := g_wire c @ concat out, g_sent := g_sent c @ fs, senders := [S_Wait]\<rparr>"
        using step Ok one by (simp add: send_batch_def)
      then have "senders c' = [S_Wait]" by simp
      then show ?thesis using c' st bytes by (simp add: tx_inv_one tx_at_idle)
    next
      case (IOErr k)
      then have c': "c' = c\<lparr>g_wire := g_wire c @ take k (concat out), senders := [S_Close]\<rparr>"
        using step Ok one by (simp add: send_batch_def)
      then have s: "senders c' = [S_Close]" by simp
      have "prefix (take k (concat out)) (concat (map frame_bytes fs))"
        using bytes take_is_prefix [of k "concat out"] by simp
      then show ?thesis using c' st unfolding tx_inv_one [OF s] tx_at_def
        by (intro exI [of _ fs] exI [of _ "take k (concat out)"]) simp
    qed (use step Ok in \<open>simp_all add: send_batch_def\<close>)
  next
    case (Err e)
    then have c': "c' = c\<lparr>senders := [S_Close]\<rparr>" using step one by (simp add: send_batch_def)
    then have s: "senders c' = [S_Close]" by simp
    show ?thesis using c' st unfolding tx_inv_one [OF s] tx_at_def
      by (intro exI [of _ fs] exI [of _ "[]"]) simp
  next
    case Panic
    then have c': "c' = c\<lparr>crashed := True\<rparr>" using step by (simp add: send_batch_def)
    then have "senders c' = [pc]" using one by simp
    then show ?thesis using c' st S_Send by (simp add: tx_inv_one tx_at_idle)
  qed
next
  case S_Close
  then show ?thesis using assms tx_at_end [of c c' "[]"] by (auto simp: tx_inv_one conn_defs)
qed (use assms in \<open>auto simp: tx_inv_one tx_at_idle split: choice.splits if_splits list.splits,
      auto simp: tx_at_def\<close>)

lemma tx_inv_step:
  assumes "tx_inv c" and "conn_step a c = Some c'"
  shows "tx_inv c'"
proof (cases "\<exists>i ch. a = ASend i ch")
  case True
  then obtain i ch where a: "a = ASend i ch" by blast
  then have i: "i < length (senders c)" "send_step ch i (senders c ! i) c = Some c'"
    using assms(2) by (auto split: if_splits)
  have len: "length (senders c') = length (senders c)"
    using i(2) by (cases "senders c ! i") (auto simp: conn_defs split: if_splits choice.splits list.splits outcome.splits)
  show ?thesis
  proof (cases "length (senders c) \<le> 1")
    case le: True
    with i(1) obtain pc where one: "senders c = [pc]" "i = 0" by (cases "senders c") auto
    with assms(1) i(2) show ?thesis using send_step_tx [of pc c ch c'] tx_inv_one [of c pc] by simp
  qed (use len in \<open>simp add: tx_inv_def\<close>)
next
  case False
  have keep: "(\<exists>fs. g_accepted c' = g_accepted c @ fs \<and> outbox c' = outbox c @ fs) \<and> g_sent c' = g_sent c \<and>
      g_wire c' = g_wire c \<and> (senders c' = senders c \<or> senders c' = senders c @ [S_Wait])"
  proof (cases a)
    case (ARecv ch)
    then have step: "recv_step ch (rpc c) c = Some c'" using assms(2) by simp
    show ?thesis
    proof (cases "rpc c")
      case R_Decode
      with step have "c' = recv_decode c" by simp
      then show ?thesis by (cases c rule: recv_decode_cases) (auto simp: count_received_def)
    qed (use step in \<open>auto simp: conn_defs split: if_splits choice.splits\<close>)
  qed (use assms(2) False in \<open>auto simp: conn_defs split: if_splits list.splits\<close>)
  then obtain fs where fs: "g_accepted c' = g_accepted c @ fs" "outbox c' = outbox c @ fs" by blast
  show ?thesis
  proof (cases "senders c' = senders c")
    case True
    with assms(1) keep fs show ?thesis by (auto simp: tx_inv_def)
  next
    case new: False
    then have s: "senders c' = senders c @ [S_Wait]" using keep by blast
    show ?thesis
    proof (cases "senders c = []")
      case True
      then have "senders c' = [S_Wait]" using s by simp
      with assms(1) True keep fs show ?thesis by (simp add: tx_inv_one tx_inv_none tx_at_idle)
    qed (use s in \<open>simp add: tx_inv_def Suc_le_eq\<close>)
  qed
qed

definition conn_inv :: "conn \<Rightarrow> bool" where
  "conn_inv c \<longleftrightarrow> rx_inv c \<and> data_inv c \<and> reply_inv c \<and> stat_inv c \<and> tx_inv c"

lemma conn_inv_new: "NewWSConnectionWithPath pool n path = Ok c0 \<Longrightarrow> conn_inv (new_conn c0)"
  by (auto simp: NewWSConnectionWithPath_def new_conn_def conn_inv_def rx_inv_def data_inv_def
      reply_inv_def stat_inv_def tx_inv_def WSConnection.defs conn.defs split: if_splits)

lemma conn_inv_run:
  assumes "NewWSConnectionWithPath pool n path = Ok c0" and "conn_run as (new_conn c0) = Some c"
  shows "conn_inv c"
  using assms(2) conn_inv_new [OF assms(1)]
  by (rule conn_run_invariant [rotated])
    (auto simp: conn_inv_def intro: rx_inv_step data_inv_step reply_inv_step stat_inv_step tx_inv_step)

lemma rx_inv_drained:
  assumes "rx_inv c" "rpc c \<in> {R_Off, R_Top, R_Recv}"
  shows "drain (g_recv c) = (g_frames c, readBuf c, Waiting)"
  using assms by (auto simp: rx_inv_def)

lemma rx_inv_frames: "rx_inv c \<Longrightarrow> prefix (g_frames c) (fst (drain (g_recv c)))"
  by (auto simp: rx_inv_def Let_def split: prod.splits)

lemma data_inv_prefix:
  "data_inv c \<Longrightarrow> prefix (map in_frame (g_taken c @ inbox c)) (filter is_data (g_frames c))"
  by (auto simp: data_inv_def)

lemma data_inv_idle:
  "data_inv c \<Longrightarrow> rpc c \<in> {R_Off, R_Top, R_Recv} \<Longrightarrow>
     map in_frame (g_taken c @ inbox c) = filter is_data (g_frames c)"
  by (auto simp: data_inv_def)

lemma recv_inbox_alias:
  assumes "rx_inv c" "data_inv c" "q \<in> set (g_taken c @ inbox c)"
  shows "recv_inbox w p q = Some (Ok ([Aliased (Payload (in_frame q))], w))"
proof -
  have "in_frame q \<in> set (g_frames c)"
    using set_mono_prefix [OF data_inv_prefix [OF assms(2)]] assms(3) by auto
  then have "wf_frame (in_frame q)" using assms(1) by (simp add: rx_inv_def)
  moreover have "in_Buf q = Some (Payload (in_frame q))" using assms(2,3) by (simp add: data_inv_def)
  ultimately show ?thesis by (auto simp: recv_inbox_def wf_frame_def)
qed

section \<open>Properties\<close>

text \<open>
  Claim C16 (delivery).  In every state of a connection, under any interleaving, the frames
  taken from the inbox followed by those in it are an initial part of the data frames of the
  received stream, in order; when the loop waits for the transport they are all of them.  A
  receive call returns exactly the payload of the frame it takes.
\<close>

theorem conn_delivers:
  assumes "NewWSConnectionWithPath pool n path = Ok c0" and "conn_run as (new_conn c0) = Some c"
  shows "prefix (map in_frame (g_taken c @ inbox c)) (filter is_data (fst (drain (g_recv c)))) \<and>
    (rpc c = R_Recv \<longrightarrow> map in_frame (g_taken c @ inbox c) = filter is_data (fst (drain (g_recv c)))) \<and>
    (\<forall>q\<in>set (g_taken c). recv_inbox w p q = Some (Ok ([Aliased (Payload (in_frame q))], w)))"
proof -
  from conn_inv_run [OF assms] have inv: "rx_inv c" "data_inv c" by (simp_all add: conn_inv_def)
  obtain fs where fs: "fst (drain (g_recv c)) = g_frames c @ fs"
    using rx_inv_frames [OF inv(1)] by (auto simp: prefix_def)
  have "prefix (map in_frame (g_taken c @ inbox c)) (filter is_data (fst (drain (g_recv c))))"
    using data_inv_prefix [OF inv(2)] fs by (auto simp: prefix_def)
  moreover have "rpc c = R_Recv \<longrightarrow> map in_frame (g_taken c @ inbox c) = filter is_data (fst (drain (g_recv c)))"
    using data_inv_idle [OF inv(2)] rx_inv_drained [OF inv(1)] by simp
  moreover have "recv_inbox w p q = Some (Ok ([Aliased (Payload (in_frame q))], w))" if "q \<in> set (g_taken c)" for q
    using recv_inbox_alias [OF inv] that by simp
  ultimately show ?thesis by blast
qed

definition hello_run :: "conn_act list" where
  "hello_run = [AppStart, ARecv Go, ARecv (Raws [take 3 (encode_frame True hello_frame)]), ARecv Go, ARecv Go,
     ARecv (Raws [drop 3 (encode_frame True hello_frame)]), ARecv Go, ARecv Go, ARecv Go, ARecv Go,
     ARecv Go, ARecv Go, AppTake]"

lemma hello_run_state:
  "(case conn_run hello_run (new_conn idle_conn) of
      None \<Rightarrow> False
    | Some c \<Rightarrow> rpc c = R_Recv \<and> g_recv c = encode_frame True hello_frame \<and> inbox c = [] \<and>
        map (\<lambda>q. Payload (in_frame q)) (g_taken c) = [Payload hello_frame] \<and> \<not> conn_closed c \<and>
        senders c = [S_Wait] \<and> g_replies c = [])"
  by code_simp

lemma idle_conn_new: "NewWSConnectionWithPath 0 1 [] = Ok idle_conn"
  by (simp add: NewWSConnectionWithPath_def idle_conn_def)

lemma hello_run_obtain:
  obtains c where "conn_run hello_run (new_conn idle_conn) = Some c" "rpc c = R_Recv"
    "g_recv c = encode_frame True hello_frame" "inbox c = []" "\<not> conn_closed c"
    "map (\<lambda>q. Payload (in_frame q)) (g_taken c) = [Payload hello_frame]" "senders c = [S_Wait]"
  using hello_run_state by (auto split: option.splits)

theorem conn_delivers_witness:
  "\<exists>c. conn_run hello_run (new_conn idle_conn) = Some c \<and>
     map in_frame (g_taken c @ inbox c) = filter is_data (fst (drain (g_recv c))) \<and>
     (\<forall>q\<in>set (g_taken c). recv_inbox one_pool 0 q = Some (Ok ([Aliased (Payload (in_frame q))], one_pool)))"
  by (rule hello_run_obtain) (use conn_delivers [OF idle_conn_new] in blast)



text \<open>
  Claim C18 (control replies).  As long as the connection is not closed, the receive loop has
  queued one Pong with the same payload for each Ping and the echo of each Close it decoded,
  in order and nothing else, but for the reply it is about to queue.
\<close>

theorem conn_replies:
  assumes "NewWSConnectionWithPath pool n path = Ok c0" and "conn_run as (new_conn c0) = Some c"
    and "\<not> conn_closed c"
  shows "\<exists>due. concat (map reply_of (g_frames c)) = g_replies c @ due \<and> length due \<le> 1 \<and>
    (rpc c = R_Recv \<longrightarrow> due = [] \<and> g_frames c = fst (drain (g_recv c)))"
proof -
  from conn_inv_run [OF assms(1,2)] have inv: "rx_inv c" "reply_inv c" by (simp_all add: conn_inv_def)
  have "concat (map reply_of (g_frames c)) = g_replies c @ pending_reply (rpc c)"
    using inv(2) assms(3) by (simp add: reply_inv_def)
  moreover have "length (pending_reply (rpc c)) \<le> 1"
    by (cases "rpc c") (simp_all add: reply_of_def)
  ultimately show ?thesis using rx_inv_drained [OF inv(1)] by (intro exI [of _ "pending_reply (rpc c)"]) simp
qed

definition ping_frame :: WSFrame where
  "ping_frame = hello_frame\<lparr>Opcode := OpcodePing\<rparr>"

definition ping_run :: "conn_act list" where
  "ping_run = [AppStart, ARecv Go, ARecv (Raws [encode_frame True ping_frame]), ARecv Go, ARecv Go, ARecv Go,
     ARecv Go, ARecv Go, ASend 0 Go, ASend 0 Go, ASend 0 Go]"

lemma ping_run_state:
  "(case conn_run ping_run (new_conn idle_conn) of
      None \<Rightarrow> False
    | Some c \<Rightarrow> rpc c = R_Recv \<and> \<not> conn_closed c \<and> senders c = [S_Wait] \<and> outbox c = [] \<and>
        length (g_replies c) = 1 \<and> g_accepted c = g_replies c \<and> g_wire c = encode_frame False (pong_of ping_frame))"
  by code_simp

theorem conn_replies_witness:
  "\<exists>c. conn_run ping_run (new_conn idle_conn) = Some c \<and> length (g_replies c) = 1 \<and>
     concat (map reply_of (fst (drain (g_recv c)))) = g_replies c"
proof -
  from ping_run_state obtain c where c: "conn_run ping_run (new_conn idle_conn) = Some c"
    "rpc c = R_Recv" "\<not> conn_closed c" "length (g_replies c) = 1" by (auto split: option.splits)
  from conn_replies [OF idle_conn_new c(1,3)] c show ?thesis by auto
qed

text \<open>
  Claim C19 (wire order).  With one send loop, the bytes written are an initial part of the
  encodings of the frames accepted into the outbox, in that order, and all of them once the
  loop waits at an empty outbox.
\<close>

theorem conn_wire_order:
  assumes "NewWSConnectionWithPath pool n path = Ok c0" and "conn_run as (new_conn c0) = Some c"
    and "length (senders c) \<le> 1"
  shows "prefix (g_wire c) (concat (map frame_bytes (g_accepted c))) \<and>
    (senders c = [S_Wait] \<and> outbox c = [] \<longrightarrow> g_wire c = concat (map frame_bytes (g_accepted c)))"
proof -
  from conn_inv_run [OF assms(1,2)] assms(3) obtain lost torn where
    "g_accepted c = g_sent c @ concat (map batch_of (senders c)) @ lost @ outbox c"
    "g_wire c = concat (map frame_bytes (g_sent c)) @ torn" "prefix torn (concat (map frame_bytes lost))"
    "lost \<noteq> [] \<longrightarrow> senders c = [S_Close] \<or> senders c = [S_Stopped]"
    by (auto simp: conn_inv_def tx_inv_def)
  moreover then have "concat (map batch_of (senders c)) = [] \<or> lost = []" by auto
  ultimately show ?thesis by (cases "lost = []") (auto simp: prefix_def)
qed

theorem conn_wire_order_witness:
  "\<exists>c. conn_run ping_run (new_conn idle_conn) = Some c \<and>
     g_wire c = concat (map frame_bytes (g_accepted c)) \<and> g_wire c \<noteq> []"
proof -
  from ping_run_state obtain c where c: "conn_run ping_run (new_conn idle_conn) = Some c"
    "senders c = [S_Wait]" "outbox c = []" "g_wire c = encode_frame False (pong_of ping_frame)"
    by (auto split: option.splits)
  moreover have "encode_frame False (pong_of ping_frame) \<noteq> []" by code_simp
  ultimately show ?thesis using conn_wire_order [OF idle_conn_new c(1)] by auto
qed

definition reorder_run :: "conn_act list" where
  "reorder_run = [AppSend hello_frame Go, AppPut 0, ASend 0 Go, ASend 0 Go, AppStart, AppSend ping_frame Go,
     AppPut 0, ASend 1 Go, ASend 1 Go, ASend 1 Go, ASend 0 Go]"

lemma reorder_run_state:
  "(case conn_run reorder_run (new_conn (idle_conn\<lparr>chan_size := 2\<rparr>)) of
      None \<Rightarrow> False
    | Some c \<Rightarrow> length (senders c) = 2 \<and> outbox c = [] \<and> g_accepted c = [hello_frame, ping_frame] \<and>
        g_wire c = frame_bytes ping_frame @ frame_bytes hello_frame)"
  by code_simp

text \<open>
  Claim C0 (two send loops).  A frame sent before \<^verbatim>\<open>Start\<close> starts a send loop, and \<^verbatim>\<open>Start\<close>
  starts another: then frames accepted in one order can be written in the other.
\<close>

theorem conn_two_senders_reorder:
  "\<exists>as c. conn_run as (new_conn (idle_conn\<lparr>chan_size := 2\<rparr>)) = Some c \<and> length (senders c) = 2 \<and>
     outbox c = [] \<and> g_accepted c = [hello_frame, ping_frame] \<and>
     g_wire c = frame_bytes ping_frame @ frame_bytes hello_frame"
  using reorder_run_state by (intro exI [of _ reorder_run]) (auto split: option.splits)

text \<open>
  Fact (statistics).  In every state the receive counters are the number of frames decoded
  and their payload bytes (modulo 2 to the 64), and the send counters are zero, whatever was
  sent.
\<close>

theorem conn_stats:
  assumes "NewWSConnectionWithPath pool n path = Ok c0" and "conn_run as (new_conn c0) = Some c"
  shows "framesReceived c = of_nat (length (g_frames c)) \<and>
    bytesReceived c = of_nat (sum_list (map (\<lambda>f. length (Payload f)) (g_frames c))) \<and>
    map_of (GetStats c) ''frames_sent'' = Some 0 \<and> map_of (GetStats c) ''bytes_sent'' = Some 0 \<and>
    length (inbox c) \<le> chan_size c \<and> length (outbox c) \<le> chan_size c"
  using conn_inv_run [OF assms] by (simp add: conn_inv_def stat_inv_def GetStats_def)

theorem conn_stats_witness:
  "\<exists>c. conn_run ping_run (new_conn idle_conn) = Some c \<and> g_wire c \<noteq> [] \<and>
     map_of (GetStats c) ''frames_sent'' = Some 0"
proof -
  from ping_run_state obtain c where c: "conn_run ping_run (new_conn idle_conn) = Some c"
    "g_wire c = encode_frame False (pong_of ping_frame)" by (auto split: option.splits)
  moreover have "encode_frame False (pong_of ping_frame) \<noteq> []" by code_simp
  ultimately show ?thesis using conn_stats [OF idle_conn_new c(1)] by auto
qed

end
