(* ===== verification/IWebSocket.thy ===== *)
theory IWebSocket
  imports ConnLoops Handshake
begin

text \<open>
  The wrapper of \<^verbatim>\<open>internal/websocket\<close>: a connection with a goroutine that hands every received
  buffer to a handler, one that pings, and the upgrade of an HTTP request.  The goroutines run beside
  the connection's own; deadlines of the transport show only as its failures.  A handler that panics
  ends the program and is not considered.
\<close>

section \<open>State\<close>

datatype message_pc = M_Off | M_Recv | M_Gone

text \<open>\<open>iws_handled\<close> are the contents given to the handler, \<open>iws_ticks\<close> tells that the pinging goroutine runs.\<close>

record iws =
  iws_conn :: conn
  iws_pools :: pools
  iws_handler :: bool
  iws_loop :: message_pc
  iws_ticks :: bool
  iws_handled :: "bytes list"

definition iws_NewConnection :: "conn \<Rightarrow> pools \<Rightarrow> iws" where
  "iws_NewConnection ws w =
     \<lparr>iws_conn = ws, iws_pools = w, iws_handler = False, iws_loop = M_Off, iws_ticks = False, iws_handled = []\<rparr>"

definition iws_SetHandler :: "iws \<Rightarrow> iws" where
  "iws_SetHandler s = s\<lparr>iws_handler := True\<rparr>"

definition iws_Start :: "iws \<Rightarrow> iws option" where
  "iws_Start s =
     (case conn_step AppStart (iws_conn s) of
        None \<Rightarrow> None
      | Some c \<Rightarrow> Some (s\<lparr>iws_conn := c, iws_loop := M_Recv, iws_ticks := True\<rparr>))"

section \<open>The goroutines\<close>

text \<open>The inner loop over the buffers of one receive: handle, release.\<close>

fun dispatch :: "recv_buffer list \<Rightarrow> iws \<Rightarrow> iws outcome option" where
  "dispatch [] s = Some (Ok s)"
| "dispatch (b # bs) s =
     bind_loop (recv_release (iws_pools s) b) (\<lambda>w.
       dispatch bs (s\<lparr>iws_pools := w, iws_handled :=
         (if iws_handler s then iws_handled s @ [recv_bytes (pl_heap (iws_pools s)) b] else iws_handled s)\<rparr>))"

definition message_end :: "iws \<Rightarrow> iws" where
  "message_end s = s\<lparr>iws_conn := Close (iws_conn s), iws_loop := M_Gone\<rparr>"

text \<open>
  One round of \<^verbatim>\<open>messageLoop\<close> on a started connection; \<open>sel\<close>: the select of the receive takes the
  closed channel when a frame is there too.  A panic ends the program.
\<close>

definition messageLoop :: "bool \<Rightarrow> iws \<Rightarrow> iws option" where
  "messageLoop sel s =
     (if iws_loop s \<noteq> M_Recv then None
      else if done_closed (iws_conn s) \<and> (sel \<or> inbox (iws_conn s) = []) then Some (message_end s)
      else case inbox (iws_conn s) of
        [] \<Rightarrow> None
      | q # _ \<Rightarrow>
          (case conn_step AppTake (iws_conn s) of
             None \<Rightarrow> None
           | Some c \<Rightarrow>
               (case recv_inbox (iws_pools s) (bufPool c) q of
                  Some (Ok (bufs, w)) \<Rightarrow>
                    (case dispatch bufs (s\<lparr>iws_conn := c, iws_pools := w\<rparr>) of Some (Ok s') \<Rightarrow> Some s' | _ \<Rightarrow> None)
                | Some (Err e) \<Rightarrow> Some (message_end (s\<lparr>iws_conn := c\<rparr>))
                | _ \<Rightarrow> None)))"

definition keep_alive_ping :: WSFrame where
  "keep_alive_ping = \<lparr>IsFinal = False, Opcode = OpcodePing, Masked = False, PayloadLen = 0, MaskKey = [0, 0, 0, 0], Payload = []\<rparr>"

text \<open>One tick; the loop has no end, and the result of the send is ignored.\<close>

definition keepAlive :: "choice \<Rightarrow> iws \<Rightarrow> iws option" where
  "keepAlive ch s = (if iws_ticks s then Some (s\<lparr>iws_conn := SendFrame ch (iws_conn s) keep_alive_ping\<rparr>) else None)"

section \<open>Upgrade\<close>

record Upgrader =
  up_pool :: nat
  up_channelSize :: int

text \<open>The response as the writer collects it: its status and headers.\<close>

record response_writer =
  rw_status :: "int option"
  rw_header :: header

definition header_Add :: "header \<Rightarrow> string \<Rightarrow> string \<Rightarrow> header" where
  "header_Add h name v =
     (let k = CanonicalHeaderKey name
      in if map_of h k = None then h @ [(k, [v])]
         else map (\<lambda>(k', vs). if k' = k then (k', vs @ [v]) else (k', vs)) h)"

text \<open>\<open>body\<close> is what http.ReadRequest makes of the body of the request.\<close>

definition Upgrade :: "Upgrader \<Rightarrow> http_request outcome \<Rightarrow> response_writer \<Rightarrow> conn outcome \<times> response_writer" where
  "Upgrade u body rw =
     (case DoHandshakeCore body of
        Err e \<Rightarrow> (Err e, rw)
      | Panic \<Rightarrow> (Panic, rw)
      | Ok hdrs \<Rightarrow>
          (map_outcome new_conn (NewWSConnection (up_pool u) (up_channelSize u)),
           rw\<lparr>rw_header := fold (\<lambda>(k, vs) h. fold (\<lambda>v h. header_Add h k v) vs h) hdrs (rw_header rw), rw_status := Some 101\<rparr>))"

section \<open>Runs\<close>

text \<open>The connection's own steps are all but starting it and receiving, which are the wrapper's.\<close>

datatype iws_act = IStart | IHandler | IMessage bool | ITick choice | IConn conn_act

fun iws_step :: "iws_act \<Rightarrow> iws \<Rightarrow> iws option" where
  "iws_step IStart s = (if iws_loop s = M_Off then iws_Start s else None)"
| "iws_step IHandler s = Some (iws_SetHandler s)"
| "iws_step (IMessage sel) s = messageLoop sel s"
| "iws_step (ITick ch) s = keepAlive ch s"
| "iws_step (IConn a) s =
     (if a = AppTake \<or> a = AppStart then None
      else case conn_step a (iws_conn s) of None \<Rightarrow> None | Some c \<Rightarrow> Some (s\<lparr>iws_conn := c\<rparr>))"

fun iws_run :: "iws_act list \<Rightarrow> iws \<Rightarrow> iws option" where
  "iws_run [] s = Some s"
| "iws_run (a # as) s =
     (if crashed (iws_conn s) then None else case iws_step a s of None \<Rightarrow> None | Some s' \<Rightarrow> iws_run as s')"

section \<open>Properties\<close>

lemma conn_step_taken:
  assumes "conn_step a c = Some c'" and "a \<noteq> AppTake"
  shows "g_taken c' = g_taken c \<and> (conn_closed c \<longrightarrow> conn_closed c')"
proof (cases a)
  case (ARecv ch)
  with assms(1) show ?thesis
    by (cases "rpc c") (auto simp: recv_decode_def handleControl_def control_send_def recv_sending_def recv_enqueue_def
        recv_handle_def Close_def SendFrame_enter_def SendFrame_direct_def Let_def count_received_def
        split: if_splits option.splits choice.splits decoded.splits prod.splits send_path.splits outcome.splits list.splits)
next
  case (ASend i ch)
  with assms(1) show ?thesis
    by (cases "senders c ! i") (auto simp: send_batch_def Close_def Let_def
        split: if_splits option.splits choice.splits outcome.splits list.splits)
qed (use assms in \<open>auto simp: SendFrame_def SendFrame_enter_def SendFrame_direct_def SendFrame_put_def SendFrame_done_def
       Close_def close_done_def close_transport_def Start_def SetHandler_def Let_def
       split: if_splits outcome.splits choice.splits send_path.splits prod.splits\<close>)

text \<open>Everything taken from the inbox has been handled, and the goroutine ends with the connection closed.\<close>

definition iws_inv :: "iws \<Rightarrow> bool" where
  "iws_inv s \<longleftrightarrow> conn_inv (iws_conn s) \<and> iws_handler s \<and>
     iws_handled s = map (\<lambda>q. Payload (in_frame q)) (g_taken (iws_conn s)) \<and>
     (iws_loop s = M_Gone \<longrightarrow> conn_closed (iws_conn s))"

lemma conn_inv_step: "conn_inv c \<Longrightarrow> conn_step a c = Some c' \<Longrightarrow> conn_inv c'"
  by (auto simp: conn_inv_def intro: rx_inv_step data_inv_step reply_inv_step stat_inv_step tx_inv_step)

lemma iws_conn_step:
  assumes "iws_inv s" and "conn_step a (iws_conn s) = Some c" and "a \<noteq> AppTake"
  shows "iws_inv (s\<lparr>iws_conn := c\<rparr>)"
  using assms(1) conn_inv_step [OF _ assms(2)] conn_step_taken [OF assms(2,3)] by (auto simp: iws_inv_def)

lemma message_end_inv: "iws_inv s \<Longrightarrow> iws_inv (message_end s)"
  using iws_conn_step [of s AppClose "Close (iws_conn s)"] by (auto simp: iws_inv_def message_end_def Close_def)

lemma messageLoop_inv:
  assumes inv: "iws_inv s" and step: "messageLoop sel s = Some s'"
  shows "iws_inv s'"
proof (cases "done_closed (iws_conn s) \<and> (sel \<or> inbox (iws_conn s) = [])")
  case True
  with step show ?thesis using message_end_inv [OF inv] by (auto simp: messageLoop_def split: if_splits)
next
  case False
  with step obtain q rest c where q: "inbox (iws_conn s) = q # rest" and c: "conn_step AppTake (iws_conn s) = Some c"
    and go: "iws_loop s = M_Recv"
    by (auto simp: messageLoop_def split: if_splits list.splits option.splits)
  have "rx_inv (iws_conn s)" "data_inv (iws_conn s)" using inv by (simp_all add: iws_inv_def conn_inv_def)
  from recv_inbox_alias [OF this] q have "recv_inbox (iws_pools s) (bufPool c) q = Some (Ok ([Aliased (Payload (in_frame q))], iws_pools s))"
    by simp
  with step False q c go inv have s': "s' = s\<lparr>iws_conn := c, iws_handled := iws_handled s @ [Payload (in_frame q)]\<rparr>"
    by (cases s) (auto simp: messageLoop_def recv_release_def recv_bytes_def iws_inv_def)
  have "g_taken c = g_taken (iws_conn s) @ [q]" using c q by (auto split: if_splits)
  moreover have "conn_inv c" using inv conn_inv_step [OF _ c] by (simp add: iws_inv_def)
  ultimately show ?thesis using inv go unfolding s' by (simp add: iws_inv_def)
qed

lemma iws_step_inv:
  assumes "iws_inv s" and "iws_step a s = Some s'"
  shows "iws_inv s'"
proof (cases a)
  case IStart
  then obtain c where "conn_step AppStart (iws_conn s) = Some c" "s' = s\<lparr>iws_conn := c, iws_loop := M_Recv, iws_ticks := True\<rparr>"
    using assms(2) by (auto simp: iws_Start_def simp del: conn_step.simps split: if_splits option.splits)
  moreover from this(1) have "iws_inv (s\<lparr>iws_conn := c\<rparr>)" by (rule iws_conn_step [OF assms(1)]) simp
  ultimately show ?thesis by (simp add: iws_inv_def)
next
  case (IMessage sel)
  then show ?thesis using messageLoop_inv assms by simp
next
  case (ITick ch)
  then show ?thesis using assms iws_conn_step [of s "AppSend keep_alive_ping ch"] by (auto simp: keepAlive_def split: if_splits)
next
  case (IConn act)
  then show ?thesis using assms iws_conn_step by (auto simp del: conn_step.simps split: if_splits option.splits)
qed (use assms in \<open>auto simp: iws_SetHandler_def iws_inv_def\<close>)

lemma iws_run_inv: "iws_run as s = Some s' \<Longrightarrow> iws_inv s \<Longrightarrow> iws_inv s'"
  by (induction as arbitrary: s) (auto split: if_splits option.splits intro: iws_step_inv)

text \<open>
  Fact (dispatch).  With the handler set before anything else, under every interleaving of the
  wrapper's goroutines with the connection's own, the handler has been given the payloads of an
  initial part of the data frames of the received stream, in order and each once; what it was not given of
  the frames read so far is in the inbox while the receive loop waits for the transport; and when the
  dispatching goroutine has ended the connection is closed.
\<close>

theorem iws_dispatches:
  assumes "NewWSConnectionWithPath pool n path = Ok c0"
    and "iws_run as (iws_SetHandler (iws_NewConnection (new_conn c0) w)) = Some s"
  shows "prefix (iws_handled s) (map Payload (filter is_data (fst (drain (g_recv (iws_conn s)))))) \<and>
    (rpc (iws_conn s) = R_Recv \<longrightarrow>
      iws_handled s @ map (\<lambda>q. Payload (in_frame q)) (inbox (iws_conn s)) =
        map Payload (filter is_data (fst (drain (g_recv (iws_conn s)))))) \<and>
    (iws_loop s = M_Gone \<longrightarrow> conn_closed (iws_conn s))"
proof -
  have "iws_inv (iws_SetHandler (iws_NewConnection (new_conn c0) w))"
    using conn_inv_new [OF assms(1)]
    by (simp add: iws_inv_def iws_SetHandler_def iws_NewConnection_def new_conn_def WSConnection.defs conn.defs)
  from iws_run_inv [OF assms(2) this] have inv: "iws_inv s" .
  then have c: "rx_inv (iws_conn s)" "data_inv (iws_conn s)"
    and h: "iws_handled s = map (Payload \<circ> in_frame) (g_taken (iws_conn s))" by (simp_all add: iws_inv_def conn_inv_def)
  obtain fs where fs: "fst (drain (g_recv (iws_conn s))) = g_frames (iws_conn s) @ fs"
    using rx_inv_frames [OF c(1)] by (auto simp: prefix_def)
  have "prefix (map in_frame (g_taken (iws_conn s) @ inbox (iws_conn s))) (filter is_data (fst (drain (g_recv (iws_conn s)))))"
    using data_inv_prefix [OF c(2)] fs by (auto simp: prefix_def)
  then have "prefix (map in_frame (g_taken (iws_conn s))) (filter is_data (fst (drain (g_recv (iws_conn s)))))"
    by (auto simp: prefix_def)
  from map_mono_prefix [OF this, of Payload] h
  have "prefix (iws_handled s) (map Payload (filter is_data (fst (drain (g_recv (iws_conn s))))))" by simp
  moreover have "iws_handled s @ map (\<lambda>q. Payload (in_frame q)) (inbox (iws_conn s)) =
        map Payload (filter is_data (fst (drain (g_recv (iws_conn s)))))" if "rpc (iws_conn s) = R_Recv"
    using arg_cong [OF data_inv_idle [OF c(2)], of "map Payload"] rx_inv_drained [OF c(1)] that h by (simp add: comp_def)
  ultimately show ?thesis using inv by (simp add: iws_inv_def)
qed

text \<open>The hello frame arrives in one piece and is dispatched.\<close>

definition no_pools :: pools where
  "no_pools = \<lparr>pl_heap = [], pl_slabs = [], pl_nodes = []\<rparr>"

definition dispatch_run :: "iws_act list" where
  "dispatch_run = [IStart, IConn (ARecv Go), IConn (ARecv (Raws [encode_frame True hello_frame])), IConn (ARecv Go), IConn (ARecv Go),
     IConn (ARecv Go), IConn (ARecv Go), IMessage False]"

lemma dispatch_run_state:
  "(case iws_run dispatch_run (iws_SetHandler (iws_NewConnection (new_conn idle_conn) no_pools)) of
      None \<Rightarrow> False | Some s \<Rightarrow> iws_handled s = [Payload hello_frame])"
  by code_simp

theorem iws_dispatches_witness:
  "\<exists>s. iws_run dispatch_run (iws_SetHandler (iws_NewConnection (new_conn idle_conn) no_pools)) = Some s \<and>
     iws_handled s = [Payload hello_frame] \<and>
     prefix [Payload hello_frame] (map Payload (filter is_data (fst (drain (g_recv (iws_conn s))))))"
proof -
  obtain s where s: "iws_run dispatch_run (iws_SetHandler (iws_NewConnection (new_conn idle_conn) no_pools)) = Some s"
    "iws_handled s = [Payload hello_frame]" using dispatch_run_state by (auto split: option.splits)
  from iws_dispatches [OF idle_conn_new s(1)] s show ?thesis by (intro exI [of _ s] conjI) simp_all
qed

text \<open>
  Fact (the pinging goroutine never ends).  Once started it can always go on, whatever happened to
  the connection; after the close it does nothing; and the frame it sends has no final bit, which RFC 6455 forbids
  for a ping.
\<close>

theorem keep_alive_endless:
  assumes "iws_run as s = Some s'" and "iws_ticks s"
  shows "\<exists>s''. keepAlive ch s' = Some s'' \<and> (conn_closed (iws_conn s') \<longrightarrow> s'' = s')"
    and "frame_data keep_alive_ping = Ok [9, 0]"
proof -
  have keep: "iws_ticks t'" if "iws_step a t = Some t'" "iws_ticks t" for a t t'
  proof (cases a)
    case (IMessage sel)
    have d: "iws_ticks t2" if "dispatch bs t1 = Some (Ok t2)" "iws_ticks t1" for bs t1 t2
      using that by (induction bs arbitrary: t1) (auto simp: bind_loop_eq_Ok)
    from IMessage that show ?thesis
      by (auto simp: messageLoop_def message_end_def intro: d simp del: conn_step.simps split: if_splits list.splits option.splits outcome.splits)
  qed (use that in \<open>auto simp: iws_Start_def iws_SetHandler_def keepAlive_def simp del: conn_step.simps split: if_splits option.splits\<close>)
  have "iws_ticks s'" using assms by (induction as arbitrary: s) (auto split: if_splits option.splits intro: keep)
  then show "\<exists>s''. keepAlive ch s' = Some s'' \<and> (conn_closed (iws_conn s') \<longrightarrow> s'' = s')"
    by (simp add: keepAlive_def SendFrame_eq)
  show "frame_data keep_alive_ping = Ok [9, 0]"
    by code_simp
qed

end
