(* ===== verification/Store_Spec.thy ===== *)
theory Store_Spec
  imports Prelude "HOL-Library.AList"
begin

text \<open>
  The contract the keyed stores share (the session context, the configuration, the metrics
  and the debug probes): a lookup sees the last value put under its key unless the key was
  deleted since, and nothing else.
\<close>

datatype ('k, 'v) kv_op = Put 'k 'v | Del 'k

fun kv_spec :: "('k, 'v) kv_op \<Rightarrow> ('k \<rightharpoonup> 'v) \<Rightarrow> ('k \<rightharpoonup> 'v)" where
  "kv_spec (Put k v) m = m(k \<mapsto> v)"
| "kv_spec (Del k) m = m(k := None)"

fun kv_last :: "('k, 'v) kv_op list \<Rightarrow> 'k \<Rightarrow> ('k, 'v) kv_op option" where
  "kv_last [] k = None"
| "kv_last (op # ops) k =
     (case kv_last ops k of
        Some op' \<Rightarrow> Some op'
      | None \<Rightarrow> (case op of Put k' v \<Rightarrow> if k' = k then Some op else None
                  | Del k' \<Rightarrow> if k' = k then Some op else None))"

locale kv_store =
  fixes lookup :: "'s \<Rightarrow> 'k \<Rightarrow> 'v option"
    and put :: "'s \<Rightarrow> 'k \<Rightarrow> 'v \<Rightarrow> 's"
    and del :: "'s \<Rightarrow> 'k \<Rightarrow> 's"
  assumes lookup_put: "lookup (put s k v) = (lookup s)(k \<mapsto> v)"
    and lookup_del: "lookup (del s k) = (lookup s)(k := None)"
begin

fun kv_do :: "('k, 'v) kv_op \<Rightarrow> 's \<Rightarrow> 's" where
  "kv_do (Put k v) s = put s k v"
| "kv_do (Del k) s = del s k"

lemma do_refines: "lookup (kv_do op s) = kv_spec op (lookup s)"
  by (cases op) (simp_all add: lookup_put lookup_del)

lemma run_refines: "lookup (fold kv_do ops s) = fold kv_spec ops (lookup s)"
  by (induction ops arbitrary: s) (simp_all add: do_refines)

lemma run_last:
  "lookup (fold kv_do ops s) k =
     (case kv_last ops k of None \<Rightarrow> lookup s k | Some (Put _ v) \<Rightarrow> Some v | Some (Del _) \<Rightarrow> None)"
proof (induction ops arbitrary: s)
  case (Cons op ops)
  then show ?case
    by (cases op) (auto simp: lookup_put lookup_del split: option.split kv_op.split)
qed simp

lemma puts_commute:
  assumes "distinct (map fst kvs)" "set kvs' = set kvs" "distinct (map fst kvs')"
  shows "lookup (fold (\<lambda>(k, v) s. put s k v) kvs s) = lookup (fold (\<lambda>(k, v) s. put s k v) kvs' s)"
proof -
  have run: "lookup (fold (\<lambda>(k, v) s. put s k v) xs s) = lookup s ++ map_of xs" if "distinct (map fst xs)" for xs s
    using that
  proof (induction xs arbitrary: s)
    case (Cons x xs)
    obtain k v where x: "x = (k, v)" by (cases x)
    have "map_of xs k = None" using Cons.prems x by (simp add: map_of_eq_None_iff)
    then show ?case using Cons x by (auto simp: lookup_put map_add_def fun_eq_iff split: option.split)
  qed simp
  have "map_of kvs' = map_of kvs" using assms by (simp add: map_of_inject_set)
  then show ?thesis using run [OF assms(1)] run [OF assms(3)] by simp
qed

end

text \<open>An association list with \<^verbatim>\<open>AList\<close>'s operations is such a store.\<close>

interpretation alist: kv_store map_of "\<lambda>al k v. AList.update k v al" "\<lambda>al k. AList.delete k al"
  by unfold_locales (simp_all add: update_conv' delete_conv')

end
