(* ===== verification/Session.thy ===== *)
theory Session
  imports Store_Spec Pow2
begin

unbundle bit_operations_syntax

text \<open>
  Session state: the context store of \<^verbatim>\<open>internal/session/context_store.go\<close>, the session object
  of \<^verbatim>\<open>session.go\<close> and the sharded manager of \<^verbatim>\<open>store.go\<close>.  Every operation holds the mutex of
  its store or shard, so operations are atomic.  Times are nanoseconds; the zero time is
  \<^const>\<open>None\<close>.  Go maps are association lists without duplicate keys, whose order is open.
\<close>

section \<open>Context store\<close>

record 'v entry =
  e_value :: 'v
  e_propagated :: bool
  e_expiry :: "int option"

type_synonym 'v contextStore = "(string \<times> 'v entry) list"

definition NewContextStore :: "'v contextStore" where
  "NewContextStore = []"

definition ctx_Set :: "'v contextStore \<Rightarrow> string \<Rightarrow> 'v \<Rightarrow> bool \<Rightarrow> 'v contextStore" where
  "ctx_Set c key v propagated = AList.update key \<lparr>e_value = v, e_propagated = propagated, e_expiry = None\<rparr> c"

definition ctx_Get :: "int \<Rightarrow> 'v contextStore \<Rightarrow> string \<Rightarrow> 'v option" where
  "ctx_Get now c key =
     (case map_of c key of
        None \<Rightarrow> None
      | Some e \<Rightarrow>
          (case e_expiry e of
             Some t \<Rightarrow> if now > t then None else Some (e_value e)
           | None \<Rightarrow> Some (e_value e)))"

definition ctx_Delete :: "'v contextStore \<Rightarrow> string \<Rightarrow> 'v contextStore" where
  "ctx_Delete c key = AList.delete key c"

fun ctx_copy :: "'v contextStore \<Rightarrow> 'v contextStore \<Rightarrow> 'v contextStore" where
  "ctx_copy acc [] = acc"
| "ctx_copy acc ((k, e) # rest) = ctx_copy (AList.update k e acc) rest"

definition ctx_Clone :: "'v contextStore \<Rightarrow> 'v contextStore" where
  "ctx_Clone c = ctx_copy [] c"

definition WithExpiration :: "int \<Rightarrow> 'v contextStore \<Rightarrow> string \<Rightarrow> int \<Rightarrow> 'v contextStore" where
  "WithExpiration now c key ttl =
     (case map_of c key of
        None \<Rightarrow> c
      | Some e \<Rightarrow> AList.update key (e\<lparr>e_expiry := Some (now + ttl)\<rparr>) c)"

definition IsPropagated :: "'v contextStore \<Rightarrow> string \<Rightarrow> bool" where
  "IsPropagated c key = (case map_of c key of None \<Rightarrow> False | Some e \<Rightarrow> e_propagated e)"

definition ctx_Keys :: "int \<Rightarrow> 'v contextStore \<Rightarrow> string list" where
  "ctx_Keys now c =
     map fst (filter (\<lambda>(k, e). case e_expiry e of None \<Rightarrow> True | Some t \<Rightarrow> t > now) c)"

section \<open>Sessions\<close>

record sessionImpl =
  ss_id :: string
  ss_done :: bool
  ss_deadline :: "int option"

definition newSession :: "string \<Rightarrow> sessionImpl" where
  "newSession sid = \<lparr>ss_id = sid, ss_done = False, ss_deadline = None\<rparr>"

definition session_Cancel :: "sessionImpl \<Rightarrow> sessionImpl" where
  "session_Cancel s = s\<lparr>ss_done := True\<rparr>"

definition session_Deadline :: "sessionImpl \<Rightarrow> int option" where
  "session_Deadline s = ss_deadline s"

definition WithDeadline :: "sessionImpl \<Rightarrow> int option \<Rightarrow> sessionImpl" where
  "WithDeadline s t = s\<lparr>ss_deadline := t\<rparr>"

section \<open>The session manager\<close>

text \<open>FNV-1a of \<^verbatim>\<open>hash/fnv\<close> on the bytes of the key.\<close>

definition fnv32 :: "string \<Rightarrow> uint32" where
  "fnv32 key = foldl (\<lambda>h c. (h XOR of_nat (of_char c)) * 16777619) 2166136261 key"

definition nextPowerOfTwo :: "uint32 \<Rightarrow> uint32" where
  "nextPowerOfTwo v =
     smear_step 16 (smear_step 8 (smear_step 4 (smear_step 2 (smear_step 1 (v - 1))))) + 1"

text \<open>A shard maps identifiers to session objects, which are names into \<open>sm_sessions\<close>.\<close>

record sessionManager =
  sm_shards :: "(string \<times> nat) list list"
  sm_mask :: uint32
  sm_sessions :: "sessionImpl list"

definition NewSessionManager :: "int \<Rightarrow> sessionManager" where
  "NewSessionManager shardCount0 =
     (let shardCount = (if shardCount0 \<le> 0 then 16 else shardCount0);
          m = nextPowerOfTwo (word_of_int shardCount)
      in \<lparr>sm_shards = replicate (unat m) [], sm_mask = m - 1, sm_sessions = []\<rparr>)"

definition shard :: "sessionManager \<Rightarrow> string \<Rightarrow> nat outcome" where
  "shard m sid =
     (let i = unat (fnv32 sid AND sm_mask m) in if i < length (sm_shards m) then Ok i else Panic)"

definition sm_Create :: "sessionManager \<Rightarrow> string \<Rightarrow> (nat \<times> sessionManager) outcome" where
  "sm_Create m sid =
     bind_outcome (shard m sid) (\<lambda>i.
       case map_of (sm_shards m ! i) sid of
         Some s \<Rightarrow> Ok (s, m)
       | None \<Rightarrow>
           let s = length (sm_sessions m)
           in Ok (s, m\<lparr>sm_sessions := sm_sessions m @ [newSession sid],
                       sm_shards := (sm_shards m)[i := AList.update sid s (sm_shards m ! i)]\<rparr>))"

definition sm_Get :: "sessionManager \<Rightarrow> string \<Rightarrow> nat option outcome" where
  "sm_Get m sid = bind_outcome (shard m sid) (\<lambda>i. Ok (map_of (sm_shards m ! i) sid))"

definition sm_Delete :: "sessionManager \<Rightarrow> string \<Rightarrow> sessionManager outcome" where
  "sm_Delete m sid =
     bind_outcome (shard m sid) (\<lambda>i.
       case map_of (sm_shards m ! i) sid of
         Some s \<Rightarrow> Ok (m\<lparr>sm_sessions := (sm_sessions m)[s := session_Cancel (sm_sessions m ! s)],
                          sm_shards := (sm_shards m)[i := AList.delete sid (sm_shards m ! i)]\<rparr>)
       | None \<Rightarrow> Ok m)"

definition sm_Range :: "sessionManager \<Rightarrow> nat list" where
  "sm_Range m = concat (map (map snd) (sm_shards m))"

section \<open>The context store\<close>

definition ctx_lookup :: "'v contextStore \<Rightarrow> string \<Rightarrow> ('v \<times> bool) option" where
  "ctx_lookup c k = map_option (\<lambda>e. (e_value e, e_propagated e)) (map_of c k)"

interpretation ctx: kv_store ctx_lookup "\<lambda>c k (v, p). ctx_Set c k v p" ctx_Delete
  by unfold_locales
    (auto simp: fun_eq_iff ctx_lookup_def ctx_Set_def ctx_Delete_def update_conv' delete_conv')

lemma ctx_lookup_WithExpiration [simp]: "ctx_lookup (WithExpiration now c k ttl) = ctx_lookup c"
  by (auto simp: fun_eq_iff ctx_lookup_def WithExpiration_def update_conv' split: option.split)

lemma IsPropagated_lookup: "IsPropagated c k \<longleftrightarrow> (\<exists>v. ctx_lookup c k = Some (v, True))"
  by (auto simp: IsPropagated_def ctx_lookup_def split: option.split)

lemma ctx_Get_Set: "ctx_Get now (ctx_Set c k v p) k' = (if k' = k then Some v else ctx_Get now c k')"
  by (simp add: ctx_Get_def ctx_Set_def update_conv')

lemma ctx_Get_Delete: "ctx_Get now (ctx_Delete c k) k' = (if k' = k then None else ctx_Get now c k')"
  by (simp add: ctx_Get_def ctx_Delete_def delete_conv')

lemma ctx_Get_WithExpiration:
  "ctx_Get now (WithExpiration t c k ttl) k' =
     (if k' = k then if now > t + ttl then None else map_option fst (ctx_lookup c k) else ctx_Get now c k')"
  by (auto simp: ctx_Get_def WithExpiration_def ctx_lookup_def update_conv' split: option.split)

lemma ctx_copy_map: "distinct (map fst c) \<Longrightarrow> map_of (ctx_copy acc c) = map_of acc ++ map_of c"
proof (induction acc c rule: ctx_copy.induct)
  case (2 acc k e rest)
  then have "map_of rest k = None" by (simp add: map_of_eq_None_iff)
  with 2 show ?case by (auto simp: update_conv' map_add_def fun_eq_iff split: option.split)
qed simp

lemma ctx_Clone_map: "distinct (map fst c) \<Longrightarrow> map_of (ctx_Clone c) = map_of c"
  by (simp add: ctx_Clone_def ctx_copy_map)

text \<open>
  Keys and Get agree except at the very instant of expiry, when Get still finds the value.
\<close>

lemma ctx_Keys_Get:
  assumes "distinct (map fst c)"
  shows "k \<in> set (ctx_Keys now c) \<longleftrightarrow>
    ctx_Get now c k \<noteq> None \<and> (\<forall>e. map_of c k = Some e \<longrightarrow> e_expiry e \<noteq> Some now)"
proof -
  have "k \<in> set (ctx_Keys now c) \<longleftrightarrow>
      (\<exists>e. map_of c k = Some e \<and> (case e_expiry e of None \<Rightarrow> True | Some t \<Rightarrow> t > now))"
    using assms by (force simp: ctx_Keys_def)
  then show ?thesis by (auto simp: ctx_Get_def split: option.splits)
qed

section \<open>The manager refines a map\<close>

definition home :: "sessionManager \<Rightarrow> string \<Rightarrow> nat" where
  "home m sid = unat (fnv32 sid AND sm_mask m)"

definition sm_abs :: "sessionManager \<Rightarrow> string \<Rightarrow> nat option" where
  "sm_abs m sid = map_of (sm_shards m ! home m sid) sid"

definition live :: "sessionManager \<Rightarrow> nat \<Rightarrow> bool" where
  "live m s \<longleftrightarrow> s < length (sm_sessions m) \<and> \<not> ss_done (sm_sessions m ! s)"

text \<open>
  Every identifier's shard exists, entries sit in their own shard, and the sessions entered
  are exactly those not cancelled.
\<close>

definition sm_inv :: "sessionManager \<Rightarrow> bool" where
  "sm_inv m \<longleftrightarrow> (\<forall>sid. home m sid < length (sm_shards m)) \<and>
     (\<forall>i<length (sm_shards m). distinct (map fst (sm_shards m ! i)) \<and>
        (\<forall>sid s. map_of (sm_shards m ! i) sid = Some s \<longrightarrow> home m sid = i)) \<and>
     (\<forall>sid s. sm_abs m sid = Some s \<longleftrightarrow> live m s \<and> ss_id (sm_sessions m ! s) = sid)"

datatype sm_op = SCreate string | SDelete string

fun sm_do :: "sm_op \<Rightarrow> sessionManager \<Rightarrow> sessionManager outcome" where
  "sm_do (SCreate sid) m = bind_outcome (sm_Create m sid) (\<lambda>(s, m'). Ok m')"
| "sm_do (SDelete sid) m = sm_Delete m sid"

fun sm_run :: "sm_op list \<Rightarrow> sessionManager \<Rightarrow> sessionManager outcome" where
  "sm_run [] m = Ok m"
| "sm_run (op # ops) m = bind_outcome (sm_do op m) (sm_run ops)"

text \<open>The specification: a map to session numbers, and each session's identifier and end.\<close>

type_synonym sm_view = "(string \<rightharpoonup> nat) \<times> (string \<times> bool) list"

fun sm_spec :: "sm_op \<Rightarrow> sm_view \<Rightarrow> sm_view" where
  "sm_spec (SCreate sid) (f, ss) =
     (if f sid = None then (f(sid \<mapsto> length ss), ss @ [(sid, False)]) else (f, ss))"
| "sm_spec (SDelete sid) (f, ss) =
     (case f sid of None \<Rightarrow> (f, ss) | Some s \<Rightarrow> (f(sid := None), ss[s := (sid, True)]))"

definition view :: "sessionManager \<Rightarrow> sm_view" where
  "view m = (sm_abs m, map (\<lambda>s. (ss_id s, ss_done s)) (sm_sessions m))"

lemma sm_invD:
  assumes "sm_inv m"
  shows "home m sid < length (sm_shards m)"
    "i < length (sm_shards m) \<Longrightarrow> distinct (map fst (sm_shards m ! i))"
    "i < length (sm_shards m) \<Longrightarrow> map_of (sm_shards m ! i) sid = Some s \<Longrightarrow> home m sid = i"
    "sm_abs m sid = Some s \<longleftrightarrow> live m s \<and> ss_id (sm_sessions m ! s) = sid"
  using assms unfolding sm_inv_def by blast+

lemma shard_home: "sm_inv m \<Longrightarrow> shard m sid = Ok (home m sid)"
  by (simp add: shard_def home_def sm_inv_def Let_def)

lemma sm_abs_update:
  assumes "sm_inv m" "sm_shards m' = (sm_shards m)[home m sid := al]" "sm_mask m' = sm_mask m"
    "map_of al = (map_of (sm_shards m ! home m sid))(sid := x)"
  shows "sm_abs m' = (sm_abs m)(sid := x)" "home m' = home m"
proof -
  show h: "home m' = home m" using assms(3) by (simp add: fun_eq_iff home_def)
  have "home m sid < length (sm_shards m)" using assms(1) by (simp add: sm_inv_def)
  then show "sm_abs m' = (sm_abs m)(sid := x)"
    using assms(2,4) h by (auto simp: fun_eq_iff sm_abs_def nth_list_update)
qed

lemma shards_update:
  assumes "sm_inv m" "sm_shards m' = (sm_shards m)[home m sid := al]" "sm_mask m' = sm_mask m"
    "map_of al = (map_of (sm_shards m ! home m sid))(sid := x)" "distinct (map fst al)"
  shows "(\<forall>k. home m' k < length (sm_shards m')) \<and>
    (\<forall>i<length (sm_shards m'). distinct (map fst (sm_shards m' ! i)) \<and>
        (\<forall>k s. map_of (sm_shards m' ! i) k = Some s \<longrightarrow> home m' k = i))"
proof (intro conjI allI impI)
  note h = sm_abs_update(2) [OF assms(1-4)]
  note inv = sm_invD [OF assms(1)]
  show "home m' k < length (sm_shards m')" for k using inv(1) [of k] assms(2) h by simp
  fix i assume i: "i < length (sm_shards m')"
  then show "distinct (map fst (sm_shards m' ! i))"
    using inv(2) [of i] assms(2,5) by (cases "i = home m sid") simp_all
  fix k s assume k: "map_of (sm_shards m' ! i) k = Some s"
  show "home m' k = i"
  proof (cases "i = home m sid")
    case True
    with k i assms(2,4) have "k = sid \<or> map_of (sm_shards m ! i) k = Some s" by (auto split: if_splits)
    with True inv(3) [of i k s] i assms(2) h show ?thesis by auto
  next
    case False
    with k inv(3) [of i k s] i assms(2) h show ?thesis by simp
  qed
qed

lemma sm_Create_ok:
  assumes "sm_inv m"
  shows "\<exists>s m'. sm_Create m sid = Ok (s, m') \<and> sm_inv m' \<and> view m' = sm_spec (SCreate sid) (view m) \<and>
    sm_abs m' sid = Some s"
proof (cases "sm_abs m sid")
  case (Some s)
  then have "sm_Create m sid = Ok (s, m)" by (simp add: sm_Create_def shard_home [OF assms] sm_abs_def)
  with Some assms show ?thesis by (simp add: view_def)
next
  case None
  let ?s = "length (sm_sessions m)"
  let ?al = "AList.update sid ?s (sm_shards m ! home m sid)"
  let ?m = "m\<lparr>sm_sessions := sm_sessions m @ [newSession sid], sm_shards := (sm_shards m)[home m sid := ?al]\<rparr>"
  have eq: "sm_Create m sid = Ok (?s, ?m)"
    using None by (simp add: sm_Create_def shard_home [OF assms] sm_abs_def Let_def)
  have m: "sm_shards ?m = (sm_shards m)[home m sid := ?al]" "sm_mask ?m = sm_mask m" by simp_all
  have al: "map_of ?al = (map_of (sm_shards m ! home m sid))(sid := Some ?s)" by (simp add: update_conv')
  have d: "distinct (map fst ?al)" using sm_invD(1,2) [OF assms] by (simp add: distinct_update)
  note abs = sm_abs_update(1) [OF assms m al]
  have "(sm_abs ?m k = Some s) = (live ?m s \<and> ss_id (sm_sessions ?m ! s) = k)" for k s
  proof -
    have inv: "(sm_abs m k = Some s) = (live m s \<and> ss_id (sm_sessions m ! s) = k)"
      "(sm_abs m sid = Some s) = (live m s \<and> ss_id (sm_sessions m ! s) = sid)"
      by (rule sm_invD(4) [OF assms])+
    show ?thesis unfolding abs using inv None by (auto simp: live_def nth_append newSession_def less_Suc_eq)
  qed
  then have "sm_inv ?m" using shards_update [OF assms m al d] unfolding sm_inv_def by blast
  moreover have "view ?m = sm_spec (SCreate sid) (view m)"
    using abs None by (simp add: view_def newSession_def)
  ultimately show ?thesis using eq abs by (intro exI [of _ ?s] exI [of _ ?m]) simp
qed

lemma sm_Delete_ok:
  assumes "sm_inv m"
  shows "\<exists>m'. sm_Delete m sid = Ok m' \<and> sm_inv m' \<and> view m' = sm_spec (SDelete sid) (view m)"
proof (cases "sm_abs m sid")
  case None
  then have "sm_Delete m sid = Ok m" by (simp add: sm_Delete_def shard_home [OF assms] sm_abs_def)
  with None assms show ?thesis by (simp add: view_def)
next
  case (Some s)
  let ?al = "AList.delete sid (sm_shards m ! home m sid)"
  let ?m = "m\<lparr>sm_sessions := (sm_sessions m)[s := session_Cancel (sm_sessions m ! s)],
    sm_shards := (sm_shards m)[home m sid := ?al]\<rparr>"
  have eq: "sm_Delete m sid = Ok ?m"
    using Some by (simp add: sm_Delete_def shard_home [OF assms] sm_abs_def)
  have m: "sm_shards ?m = (sm_shards m)[home m sid := ?al]" "sm_mask ?m = sm_mask m" by simp_all
  have al: "map_of ?al = (map_of (sm_shards m ! home m sid))(sid := None)" by (simp add: delete_conv')
  have d: "distinct (map fst ?al)" using sm_invD(1,2) [OF assms] by (simp add: distinct_delete)
  note abs = sm_abs_update(1) [OF assms m al]
  have inv: "(sm_abs m k = Some x) = (live m x \<and> ss_id (sm_sessions m ! x) = k)" for k x
    by (rule sm_invD(4) [OF assms])
  have s: "live m s" "ss_id (sm_sessions m ! s) = sid" using inv [of sid s] Some by simp_all
  have "(sm_abs ?m k = Some x) = (live ?m x \<and> ss_id (sm_sessions ?m ! x) = k)" for k x
    unfolding abs using inv [of k x] inv [of sid x] s Some
    by (auto simp: live_def nth_list_update session_Cancel_def)
  then have "sm_inv ?m" using shards_update [OF assms m al d] unfolding sm_inv_def by blast
  moreover have "view ?m = sm_spec (SDelete sid) (view m)"
    using abs Some s by (simp add: view_def map_update session_Cancel_def)
  ultimately show ?thesis using eq by blast
qed

section \<open>A new manager\<close>

lemma nextPowerOfTwo_least:
  assumes "1 \<le> unat v" and "unat v \<le> 2 ^ 31"
  shows "\<exists>k. unat (nextPowerOfTwo v) = 2 ^ k \<and> unat v \<le> 2 ^ k \<and> 2 ^ k < 2 * unat v"
proof (cases "unat v = 1")
  case True
  then have "v = 1" by (metis unat_1 word_unat_eq_iff)
  then have "nextPowerOfTwo v = 1" by (simp add: nextPowerOfTwo_def smear_step_def)
  then show ?thesis using True by (intro exI [of _ 0]) simp
next
  case False
  then have "2 \<le> unat v" using assms(1) by linarith
  then show ?thesis
    using smear_rounds_up [of "smear_step 16 (smear_step 8 (smear_step 4 (smear_step 2 (smear_step 1 (v - 1)))))" v]
      smear32 [of "v - 1"] assms(2) by (auto simp: nextPowerOfTwo_def)
qed

lemma nextPowerOfTwo_wraps:
  assumes "unat v > 2 ^ 31 \<or> v = 0"
  shows "nextPowerOfTwo v = 0"
proof -
  let ?s = "smear_step 16 (smear_step 8 (smear_step 4 (smear_step 2 (smear_step 1 (v - 1)))))"
  have "bit (v - 1) 31"
  proof (cases "v = 0")
    case False
    then have "unat (v - 1) = unat v - 1" by (simp add: unat_minus_1)
    then have "2 ^ 31 \<le> unat (v - 1)" using assms False by linarith
    moreover have "unat (v - 1) < 2 ^ 32" by (rule order_less_le_trans [OF unsigned_less]) simp
    ultimately have "bit (unat (v - 1)) 31" by (intro between_imp_bit) simp_all
    then show ?thesis by (simp add: bit_unsigned_iff)
  qed (simp add: bit_minus_1_iff)
  have "?s = - 1"
  proof (rule bit_word_eqI)
    fix i assume i: "i < LENGTH(32)"
    then have "\<exists>j<32. bit (v - 1) (i + j)" using \<open>bit (v - 1) 31\<close> by (intro exI [of _ "31 - i"]) simp
    then have "bit ?s i" by (simp only: smear32)
    then show "bit ?s i = bit (- 1 :: uint32) i" using i by simp
  qed
  then show ?thesis by (simp add: nextPowerOfTwo_def)
qed

lemma sm_inv_new:
  assumes "nextPowerOfTwo (word_of_int (if n \<le> 0 then 16 else n)) \<noteq> 0"
  shows "sm_inv (NewSessionManager n)" "view (NewSessionManager n) = (Map.empty, [])"
proof -
  let ?m = "nextPowerOfTwo (word_of_int (if n \<le> 0 then 16 else n))"
  have "home (NewSessionManager n) sid < unat ?m" for sid
  proof -
    have "unat (fnv32 sid AND (?m - 1)) \<le> unat (?m - 1)" by (simp add: word_and_le1 flip: word_le_nat_alt)
    moreover have "unat (?m - 1) = unat ?m - 1" using unat_minus_1 [OF assms] .
    moreover have "0 < unat ?m" using assms by (metis gr0I unat_eq_0)
    ultimately have "unat (fnv32 sid AND (?m - 1)) < unat ?m" by linarith
    then show ?thesis by (simp only: home_def NewSessionManager_def Let_def sessionManager.simps)
  qed
  then show "sm_inv (NewSessionManager n)" "view (NewSessionManager n) = (Map.empty, [])"
    by (auto simp: sm_inv_def view_def NewSessionManager_def Let_def sm_abs_def live_def fun_eq_iff)
qed

lemma sm_do_ok: "sm_inv m \<Longrightarrow> \<exists>m'. sm_do op m = Ok m' \<and> sm_inv m' \<and> view m' = sm_spec op (view m)"
  using sm_Create_ok [of m] sm_Delete_ok [of m] by (cases op) (fastforce simp: bind_outcome_eq_Ok)+

lemma sm_run_ok:
  "sm_inv m \<Longrightarrow> \<exists>m'. sm_run ops m = Ok m' \<and> sm_inv m' \<and> view m' = fold sm_spec ops (view m)"
proof (induction ops arbitrary: m)
  case (Cons op ops)
  from sm_do_ok [OF Cons.prems, of op] obtain m1 where
    m1: "sm_do op m = Ok m1" "sm_inv m1" "view m1 = sm_spec op (view m)" by blast
  from Cons.IH [OF m1(2)] m1 show ?case by auto
qed simp

lemma distinct_concat_nth:
  assumes "\<forall>i<length xss. distinct (xss ! i)"
    and "\<forall>i<length xss. \<forall>j<length xss. i \<noteq> j \<longrightarrow> set (xss ! i) \<inter> set (xss ! j) = {}"
  shows "distinct (concat xss)"
  using assms
proof (induction xss)
  case (Cons xs xss)
  have "set xs \<inter> set (xss ! j) = {}" if "j < length xss" for j
    using Cons.prems(2) [rule_format, of 0 "Suc j"] that by simp
  then have "\<forall>ys\<in>set xss. set xs \<inter> set ys = {}" by (metis in_set_conv_nth)
  then have "set xs \<inter> set (concat xss) = {}" by auto
  moreover have "distinct (concat xss)"
    using Cons.IH Cons.prems(1) [rule_format, of "Suc i" for i] Cons.prems(2) [rule_format, of "Suc i" "Suc j" for i j]
    by simp
  moreover have "distinct xs" using Cons.prems(1) by force
  ultimately show ?case by simp
qed simp

lemma sm_Range_live:
  assumes "sm_inv m"
  shows "distinct (sm_Range m) \<and> set (sm_Range m) = {s. live m s}"
proof
  note inv = sm_invD [OF assms]
  have val: "s \<in> set (map snd (sm_shards m ! i)) \<longleftrightarrow> live m s \<and> home m (ss_id (sm_sessions m ! s)) = i"
    if i: "i < length (sm_shards m)" for i s
  proof -
    have "s \<in> set (map snd (sm_shards m ! i)) \<longleftrightarrow> (\<exists>k. map_of (sm_shards m ! i) k = Some s)"
      using inv(2) [OF i] by force
    also have "\<dots> \<longleftrightarrow> (\<exists>k. home m k = i \<and> sm_abs m k = Some s)"
      using inv(3) [OF i] by (auto simp: sm_abs_def)
    also have "\<dots> \<longleftrightarrow> live m s \<and> home m (ss_id (sm_sessions m ! s)) = i" using inv(4) by auto
    finally show ?thesis .
  qed
  have inner: "distinct (map snd (sm_shards m ! i))" if i: "i < length (sm_shards m)" for i
  proof -
    have "inj_on snd (set (sm_shards m ! i))"
    proof (rule inj_onI)
      fix x y assume xy: "x \<in> set (sm_shards m ! i)" "y \<in> set (sm_shards m ! i)" "snd x = snd y"
      have "sm_abs m (fst z) = Some (snd z)" if "z \<in> set (sm_shards m ! i)" for z
      proof -
        have "map_of (sm_shards m ! i) (fst z) = Some (snd z)" using inv(2) [OF i] that by simp
        with inv(3) [OF i this] show ?thesis by (simp add: sm_abs_def)
      qed
      with xy have "fst x = ss_id (sm_sessions m ! snd x)" "fst y = ss_id (sm_sessions m ! snd y)"
        using inv(4) by metis+
      with xy(3) show "x = y" by (simp add: prod_eq_iff)
    qed
    then show ?thesis using inv(2) [OF i] by (simp add: distinct_map)
  qed
  show "set (sm_Range m) = {s. live m s}"
  proof (intro set_eqI iffI)
    fix s assume "s \<in> set (sm_Range m)"
    then obtain x where "x \<in> set (sm_shards m)" "s \<in> set (map snd x)" by (auto simp: sm_Range_def)
    then obtain i where "i < length (sm_shards m)" "s \<in> set (map snd (sm_shards m ! i))" by (metis in_set_conv_nth)
    then show "s \<in> {s. live m s}" using val by blast
  next
    fix s assume "s \<in> {s. live m s}"
    then have "s \<in> set (map snd (sm_shards m ! home m (ss_id (sm_sessions m ! s))))" using val inv(1) by blast
    then show "s \<in> set (sm_Range m)" using inv(1) by (auto simp: sm_Range_def)
  qed
  have "set (map snd (sm_shards m ! i)) \<inter> set (map snd (sm_shards m ! j)) = {}"
    if "i < length (sm_shards m)" "j < length (sm_shards m)" "i \<noteq> j" for i j
    unfolding disjoint_iff val [OF that(1)] val [OF that(2)] using that(3) by blast
  then have disj: "\<forall>i<length (sm_shards m). \<forall>j<length (sm_shards m). i \<noteq> j \<longrightarrow>
      set (map snd (sm_shards m ! i)) \<inter> set (map snd (sm_shards m ! j)) = {}" by blast
  show "distinct (sm_Range m)" unfolding sm_Range_def
    by (rule distinct_concat_nth) (use inner disj in simp_all)
qed

text \<open>Two manager sizes: up to \<open>2 ^ 31\<close> shards the count is rounded up, beyond it every call panics.\<close>

lemma new_manager_unusable:
  assumes "2 ^ 31 < n" and "n \<le> 2 ^ 32"
  shows "sm_Create (NewSessionManager n) sid = Panic"
proof -
  have "nextPowerOfTwo (word_of_int n) = 0"
  proof (rule nextPowerOfTwo_wraps, cases "n = 2 ^ 32")
    case True
    then have "word_of_int n = (0 :: uint32)" by (simp add: word_of_int_2p_len [where 'a = 32, simplified])
    then show "2 ^ 31 < unat (word_of_int n :: uint32) \<or> word_of_int n = (0 :: uint32)" by simp
  next
    case False
    then have "n < 2 ^ 32" using assms(2) by linarith
    then have "uint (word_of_int n :: uint32) = n"
      using assms(1) by (simp add: uint_word_of_int)
    then have "unat (word_of_int n :: uint32) = nat n" by (metis nat_uint_eq)
    moreover have "2 ^ 31 < nat n" using assms(1) by (simp add: zless_nat_eq_int_zless)
    ultimately show "2 ^ 31 < unat (word_of_int n :: uint32) \<or> word_of_int n = (0 :: uint32)" by simp
  qed
  moreover have "\<not> n \<le> 0" using assms(1) by simp
  ultimately show ?thesis by (simp add: sm_Create_def shard_def NewSessionManager_def Let_def)
qed

section \<open>Properties\<close>



end
