(* ===== verification/Middleware.thy ===== *)
theory Middleware
  imports Prelude
begin

text \<open>
  Handlers and middleware: the chains of \<^verbatim>\<open>adapters/handler_adapter.go\<close>,
  \<^verbatim>\<open>lowlevel/server/handler_chain.go\<close> and \<^verbatim>\<open>highlevel/server.go\<close> (applyMiddleware).  A handler
  is a state transformer with an outcome: nil, an error, or a panic.
\<close>

section \<open>Chains\<close>

text \<open>\<^verbatim>\<open>for i := len(mw)-1; i >= 0; i-- { h = mw[i](h) }\<close>\<close>

fun wrap_from :: "nat \<Rightarrow> ('h \<Rightarrow> 'h) list \<Rightarrow> 'h \<Rightarrow> 'h" where
  "wrap_from 0 mw h = h"
| "wrap_from (Suc i) mw h = wrap_from i mw ((mw ! i) h)"

definition NewHandlerChain :: "'h \<Rightarrow> ('h \<Rightarrow> 'h) list \<Rightarrow> 'h" where
  "NewHandlerChain base mw = wrap_from (length mw) mw base"

record 'h MiddlewareHandler =
  mh_handler :: 'h
  mh_middleware :: "('h \<Rightarrow> 'h) list"

definition NewMiddlewareHandler :: "'h \<Rightarrow> 'h MiddlewareHandler" where
  "NewMiddlewareHandler h = \<lparr>mh_handler = h, mh_middleware = []\<rparr>"

definition mh_Use :: "'h MiddlewareHandler \<Rightarrow> ('h \<Rightarrow> 'h) \<Rightarrow> 'h MiddlewareHandler" where
  "mh_Use m mw = m\<lparr>mh_middleware := mh_middleware m @ [mw]\<rparr>"

definition mh_Handle :: "('d \<Rightarrow> 'r) MiddlewareHandler \<Rightarrow> 'd \<Rightarrow> 'r" where
  "mh_Handle m data = wrap_from (length (mh_middleware m)) (mh_middleware m) (mh_handler m) data"

section \<open>Middleware\<close>

type_synonym ('d, 's) handler = "'d \<Rightarrow> 's \<Rightarrow> unit outcome \<times> 's"

text \<open>The log lines of \<^verbatim>\<open>LoggingMiddleware\<close> go through \<open>log\<close>.\<close>

definition LoggingMiddleware :: "(string \<Rightarrow> 's \<Rightarrow> 's) \<Rightarrow> ('d, 's) handler \<Rightarrow> ('d, 's) handler" where
  "LoggingMiddleware log next = (\<lambda>data s.
     case next data (log ''[Handler] Processing data'' s) of
       (Ok _, s') \<Rightarrow> (Ok (), s')
     | (Err e, s') \<Rightarrow> (Err e, log ''[Handler] Error'' s')
     | (Panic, s') \<Rightarrow> (Panic, s'))"

text \<open>A recovered panic makes the wrapped call return nil.\<close>

definition RecoveryMiddleware :: "(string \<Rightarrow> 's \<Rightarrow> 's) \<Rightarrow> ('d, 's) handler \<Rightarrow> ('d, 's) handler" where
  "RecoveryMiddleware log next = (\<lambda>data s.
     case next data s of
       (Panic, s') \<Rightarrow> (Ok (), log ''[Handler] Panic recovered'' s')
     | r \<Rightarrow> r)"

section \<open>Lemmas\<close>

lemma wrap_from_foldr: "n \<le> length mw \<Longrightarrow> wrap_from n mw h = foldr (\<lambda>m h. m h) (take n mw) h"
  by (induction n arbitrary: h) (simp_all add: take_Suc_conv_app_nth)

lemma NewHandlerChain_foldr: "NewHandlerChain base mw = foldr (\<lambda>m h. m h) mw base"
  by (simp add: NewHandlerChain_def wrap_from_foldr)

lemma mh_Handle_chain: "mh_Handle m = NewHandlerChain (mh_handler m) (mh_middleware m)"
  by (simp add: fun_eq_iff mh_Handle_def NewHandlerChain_def)

lemma mh_Use_all:
  "mh_Handle (foldl mh_Use (NewMiddlewareHandler h) mw) = NewHandlerChain h mw"
proof -
  have "mh_middleware (foldl mh_Use m mw) = mh_middleware m @ mw \<and> mh_handler (foldl mh_Use m mw) = mh_handler m" for m :: "('a \<Rightarrow> 'b) MiddlewareHandler"
    by (induction mw arbitrary: m) (simp_all add: mh_Use_def)
  then show ?thesis by (simp add: mh_Handle_chain NewMiddlewareHandler_def)
qed

text \<open>A middleware that notes its entry and its exit.\<close>

definition noting :: "nat \<Rightarrow> ('d, (bool \<times> nat) list) handler \<Rightarrow> ('d, (bool \<times> nat) list) handler" where
  "noting i next = (\<lambda>data s. case next data (s @ [(True, i)]) of (r, s') \<Rightarrow> (r, s' @ [(False, i)]))"

lemma noting_chain:
  assumes "\<And>data s. base data s = (r, s @ ev)"
  shows "NewHandlerChain base (map noting is) data s =
    (r, s @ map (Pair True) is @ ev @ map (Pair False) (rev is))"
  unfolding NewHandlerChain_foldr
  by (induction "is" arbitrary: s) (simp_all add: assms noting_def)

lemma recovery_no_panic: "fst (NewHandlerChain base (RecoveryMiddleware log # mw) data s) \<noteq> Panic"
  unfolding NewHandlerChain_foldr
  by (auto simp: RecoveryMiddleware_def split: prod.splits outcome.splits)

section \<open>Properties\<close>

text \<open>
  Claim C26 (middleware order).  In both chains the first middleware is the outermost: entries
  run in registration order, then the base handler, then the exits in reverse order, and the
  base handler's result is returned; with recovery outermost no panic escapes.
\<close>

theorem middleware_order:
  assumes "\<And>data s. base data s = (r, s @ ev)"
  shows "NewHandlerChain base (map noting is) data s =
      (r, s @ map (Pair True) is @ ev @ map (Pair False) (rev is)) \<and>
    mh_Handle (foldl mh_Use (NewMiddlewareHandler base) (map noting is)) =
      NewHandlerChain base (map noting is) \<and>
    fst (NewHandlerChain base (RecoveryMiddleware log # mw) data s) \<noteq> Panic"
  by (intro conjI noting_chain mh_Use_all recovery_no_panic assms)

theorem middleware_order_witness:
  "NewHandlerChain (\<lambda>d s. (Ok (), s @ [(True, 9)])) (map noting [1, 2]) () [] =
     (Ok (), [(True, 1), (True, 2), (True, 9), (False, 2), (False, 1)])"
  using middleware_order [of "\<lambda>d s. (Ok (), s @ [(True, 9)])" "Ok ()" "[(True, 9)]" "[1, 2]" "()" "[]"] by simp

end
