(* ===== verification/Control.thy ===== *)
theory Control
  imports Store_Spec Middleware Normalize
begin

text \<open>
  The control plane: \<^verbatim>\<open>control/config.go\<close>, \<^verbatim>\<open>hotreload.go\<close>, \<^verbatim>\<open>metrics.go\<close>, \<^verbatim>\<open>debug.go\<close>,
  \<^verbatim>\<open>platform_linux.go\<close> and the adapters over them (\<^verbatim>\<open>adapters/control_adapter.go\<close>, the metrics
  middleware of \<^verbatim>\<open>handler_adapter.go\<close>, \<^verbatim>\<open>contextual_adapter.go\<close>, \<^verbatim>\<open>affinity_adapter.go\<close>).
  Callbacks are identified by a number; what matters of their bodies here is whether they call
  the store that runs them, because its mutex is not re-entrant.
\<close>

section \<open>Stores\<close>

text \<open>\<^verbatim>\<open>any\<close>: the dynamic types the code tells apart, and the rest.\<close>

datatype 'v any = AInt64 "64 word" | AInt int | AOther 'v

type_synonym 'v gomap = "(string \<times> 'v) list"

text \<open>\<^verbatim>\<open>for k, v := range from { to[k] = v }\<close>\<close>

fun copy_map :: "'v gomap \<Rightarrow> 'v gomap \<Rightarrow> 'v gomap" where
  "copy_map to [] = to"
| "copy_map to ((k, v) # from) = copy_map (AList.update k v to) from"

datatype listener = Listener (l_id: nat) (l_calls_store: bool)

record 'v ConfigStore =
  cs_config :: "'v any gomap"
  cs_listeners :: "listener list"

definition NewConfigStore :: "'v ConfigStore" where
  "NewConfigStore = \<lparr>cs_config = [], cs_listeners = []\<rparr>"

definition cs_GetSnapshot :: "'v ConfigStore \<Rightarrow> 'v any gomap" where
  "cs_GetSnapshot cs = copy_map [] (cs_config cs)"

text \<open>The goroutines \<^verbatim>\<open>dispatchReload\<close> starts.\<close>

definition dispatchReload :: "'v ConfigStore \<Rightarrow> nat list" where
  "dispatchReload cs = map l_id (cs_listeners cs)"

definition cs_SetConfig :: "'v ConfigStore \<Rightarrow> 'v any gomap \<Rightarrow> nat list \<times> 'v ConfigStore" where
  "cs_SetConfig cs newCfg =
     (let cs' = cs\<lparr>cs_config := copy_map (cs_config cs) newCfg\<rparr> in (dispatchReload cs', cs'))"

text \<open>
  Listeners called in order with the store's lock held: one that calls the store waits for a
  lock its own goroutine holds, and \<^const>\<open>None\<close> says the call never returns.
\<close>

fun call_locked :: "listener list \<Rightarrow> nat list option" where
  "call_locked [] = Some []"
| "call_locked (fn # fns) =
     (if l_calls_store fn then None else map_option (Cons (l_id fn)) (call_locked fns))"

definition SetConfigSync :: "'v ConfigStore \<Rightarrow> 'v any gomap \<Rightarrow> (nat list \<times> 'v ConfigStore) option" where
  "SetConfigSync cs newCfg =
     (let cs' = cs\<lparr>cs_config := copy_map (cs_config cs) newCfg\<rparr>
      in map_option (\<lambda>calls. (calls, cs')) (call_locked (cs_listeners cs')))"

definition cs_OnReload :: "'v ConfigStore \<Rightarrow> listener \<Rightarrow> 'v ConfigStore" where
  "cs_OnReload cs fn = cs\<lparr>cs_listeners := cs_listeners cs @ [fn]\<rparr>"

text \<open>The global hooks.  A hook runs without any lock held.\<close>

definition RegisterReloadHook :: "listener list \<Rightarrow> listener \<Rightarrow> listener list" where
  "RegisterReloadHook reloadHooks fn = reloadHooks @ [fn]"

definition TriggerHotReload :: "listener list \<Rightarrow> nat list" where
  "TriggerHotReload reloadHooks = map l_id reloadHooks"

definition TriggerHotReloadSync :: "listener list \<Rightarrow> nat list" where
  "TriggerHotReloadSync reloadHooks = map l_id reloadHooks"

record 'v MetricsRegistry =
  mr_metrics :: "'v any gomap"
  mr_updated :: "int option"

definition NewMetricsRegistry :: "'v MetricsRegistry" where
  "NewMetricsRegistry = \<lparr>mr_metrics = [], mr_updated = None\<rparr>"

definition mr_Set :: "int \<Rightarrow> 'v MetricsRegistry \<Rightarrow> string \<Rightarrow> 'v any \<Rightarrow> 'v MetricsRegistry" where
  "mr_Set now mr key value =
     mr\<lparr>mr_metrics := AList.update key value (mr_metrics mr), mr_updated := Some now\<rparr>"

definition mr_GetSnapshot :: "'v MetricsRegistry \<Rightarrow> 'v any gomap" where
  "mr_GetSnapshot mr = copy_map [] (mr_metrics mr)"

text \<open>A probe is a function of the state \<open>'e\<close> it looks at when it is dumped.\<close>

type_synonym ('e, 'v) DebugProbes = "('e \<Rightarrow> 'v any) gomap"

definition NewDebugProbes :: "('e, 'v) DebugProbes" where
  "NewDebugProbes = []"

definition RegisterProbe :: "('e, 'v) DebugProbes \<Rightarrow> string \<Rightarrow> ('e \<Rightarrow> 'v any) \<Rightarrow> ('e, 'v) DebugProbes" where
  "RegisterProbe dp name fn = AList.update name fn dp"

fun dump_probes :: "'v any gomap \<Rightarrow> 'e \<Rightarrow> ('e, 'v) DebugProbes \<Rightarrow> 'v any gomap" where
  "dump_probes out env [] = out"
| "dump_probes out env ((k, fn) # rest) = dump_probes (AList.update k (fn env) out) env rest"

definition DumpState :: "('e, 'v) DebugProbes \<Rightarrow> 'e \<Rightarrow> 'v any gomap" where
  "DumpState dp env = dump_probes [] env dp"

definition RegisterPlatformProbes :: "int \<Rightarrow> ('e, 'v) DebugProbes \<Rightarrow> ('e, 'v) DebugProbes" where
  "RegisterPlatformProbes numCPU dp = RegisterProbe dp ''platform.cpus'' (\<lambda>_. AInt numCPU)"

section \<open>The control adapter\<close>

record ('e, 'v) ControlAdapter =
  ca_config :: "'v ConfigStore"
  ca_metrics :: "'v MetricsRegistry"
  ca_debug :: "('e, 'v) DebugProbes"

definition NewControlAdapter :: "int \<Rightarrow> ('e, 'v) ControlAdapter" where
  "NewControlAdapter numCPU =
     \<lparr>ca_config = NewConfigStore, ca_metrics = NewMetricsRegistry,
      ca_debug = RegisterPlatformProbes numCPU NewDebugProbes\<rparr>"

definition ca_GetConfig :: "('e, 'v) ControlAdapter \<Rightarrow> 'v any gomap" where
  "ca_GetConfig c = cs_GetSnapshot (ca_config c)"

definition ca_SetConfig ::
  "listener list \<Rightarrow> ('e, 'v) ControlAdapter \<Rightarrow> 'v any gomap \<Rightarrow> (nat list \<times> ('e, 'v) ControlAdapter) option" where
  "ca_SetConfig reloadHooks c cfg =
     (case SetConfigSync (ca_config c) cfg of
        None \<Rightarrow> None
      | Some (calls, cs) \<Rightarrow> Some (calls @ TriggerHotReloadSync reloadHooks, c\<lparr>ca_config := cs\<rparr>))"

fun add_prefixed :: "string \<Rightarrow> 'v gomap \<Rightarrow> 'v gomap \<Rightarrow> 'v gomap" where
  "add_prefixed p to [] = to"
| "add_prefixed p to ((k, v) # from) = add_prefixed p (AList.update (p @ k) v to) from"

definition Stats :: "'e \<Rightarrow> ('e, 'v) ControlAdapter \<Rightarrow> 'v any gomap" where
  "Stats env c =
     (let combined = copy_map [] (cs_GetSnapshot (ca_config c));
          combined = add_prefixed ''metrics.'' combined (mr_GetSnapshot (ca_metrics c))
      in add_prefixed ''debug.'' combined (DumpState (ca_debug c) env))"

definition ca_OnReload ::
  "listener list \<Rightarrow> ('e, 'v) ControlAdapter \<Rightarrow> listener \<Rightarrow> listener list \<times> ('e, 'v) ControlAdapter" where
  "ca_OnReload reloadHooks c fn =
     (RegisterReloadHook reloadHooks fn, c\<lparr>ca_config := cs_OnReload (ca_config c) fn\<rparr>)"

definition RegisterDebugProbe ::
  "('e, 'v) ControlAdapter \<Rightarrow> string \<Rightarrow> ('e \<Rightarrow> 'v any) \<Rightarrow> ('e, 'v) ControlAdapter" where
  "RegisterDebugProbe c name fn = c\<lparr>ca_debug := RegisterProbe (ca_debug c) name fn\<rparr>"

section \<open>The metrics middleware\<close>

text \<open>
  \<^verbatim>\<open>HandlerMetricsMiddleware\<close> reads the statistics and then sets the counter: two calls, each
  atomic by itself.
\<close>

definition metrics_read :: "'e \<Rightarrow> ('e, 'v) ControlAdapter \<Rightarrow> 64 word" where
  "metrics_read env c =
     (case map_of (Stats env c) ''handler.processed'' of Some (AInt64 n) \<Rightarrow> n | _ \<Rightarrow> 0)"

definition metrics_write ::
  "listener list \<Rightarrow> ('e, 'v) ControlAdapter \<Rightarrow> 64 word \<Rightarrow> (nat list \<times> ('e, 'v) ControlAdapter) option" where
  "metrics_write reloadHooks c count =
     ca_SetConfig reloadHooks c [(''handler.processed'', AInt64 (count + 1))]"

definition HandlerMetricsMiddleware ::
  "listener list \<Rightarrow> 'e \<Rightarrow> ('d \<Rightarrow> 's \<Rightarrow> ('r \<times> 's) option) \<Rightarrow>
     'd \<Rightarrow> ('e, 'v) ControlAdapter \<times> 's \<Rightarrow> ('r \<times> ('e, 'v) ControlAdapter \<times> 's) option" where
  "HandlerMetricsMiddleware reloadHooks env next = (\<lambda>data (c, s).
     case metrics_write reloadHooks c (metrics_read env c) of
       None \<Rightarrow> None
     | Some (_, c') \<Rightarrow> map_option (\<lambda>(r, s'). (r, c', s')) (next data s))"

section \<open>The affinity adapter\<close>

record AffinityAdapter =
  currentCPU :: int
  currentNUMA :: int
  pinned :: bool

definition NewAffinityAdapter :: AffinityAdapter where
  "NewAffinityAdapter = \<lparr>currentCPU = -1, currentNUMA = -1, pinned = False\<rparr>"

text \<open>
  \<open>pin node cpu\<close> and \<open>unpin\<close> stand for the platform calls; they answer an error or nil.
\<close>

definition aff_Pin ::
  "(int \<Rightarrow> int \<Rightarrow> goerr option) \<Rightarrow> int \<Rightarrow> int \<Rightarrow> int \<Rightarrow> AffinityAdapter \<Rightarrow> int \<Rightarrow> int \<Rightarrow> goerr option \<times> AffinityAdapter" where
  "aff_Pin pin numaNodes currentNode numCPU a cpuID numaID =
     (let node = NUMANodeAuto numaNodes currentNode numaID;
          cpu = CPUIndexAuto numCPU cpuID
      in case pin node cpu of
           Some e \<Rightarrow> (Some e, a)
         | None \<Rightarrow> (None, a\<lparr>currentCPU := cpuID, currentNUMA := numaID, pinned := True\<rparr>))"

definition aff_Unpin :: "goerr option \<Rightarrow> AffinityAdapter \<Rightarrow> goerr option \<times> AffinityAdapter" where
  "aff_Unpin unpin a =
     (case unpin of
        Some e \<Rightarrow> (Some e, a)
      | None \<Rightarrow> (None, a\<lparr>pinned := False, currentCPU := -1, currentNUMA := -1\<rparr>))"

definition aff_Get :: "AffinityAdapter \<Rightarrow> int \<times> int" where
  "aff_Get a = (currentCPU a, currentNUMA a)"

section \<open>Lemmas on the stores\<close>

lemma map_of_copy_map: "distinct (map fst from) \<Longrightarrow> map_of (copy_map to from) = map_of to ++ map_of from"
proof (induction to "from" rule: copy_map.induct)
  case (2 to k v "from")
  then have "map_of from k = None" by (simp add: map_of_eq_None_iff)
  then show ?case using 2 by (auto simp: update_conv' map_add_def fun_eq_iff split: option.split)
qed simp

lemma distinct_copy_map: "distinct (map fst to) \<Longrightarrow> distinct (map fst (copy_map to from))"
  by (induction to "from" rule: copy_map.induct) (simp_all add: distinct_update)

lemma distinct_add_prefixed: "distinct (map fst to) \<Longrightarrow> distinct (map fst (add_prefixed p to from))"
  by (induction p to "from" rule: add_prefixed.induct) (simp_all add: distinct_update)

lemma distinct_dump_probes: "distinct (map fst out) \<Longrightarrow> distinct (map fst (dump_probes out env dp))"
  by (induction out env dp rule: dump_probes.induct) (simp_all add: distinct_update)

lemma add_prefixed_hit:
  "distinct (map fst from) \<Longrightarrow>
     map_of (add_prefixed p to from) (p @ k) = (case map_of from k of None \<Rightarrow> map_of to (p @ k) | v \<Rightarrow> v)"
proof (induction p to "from" rule: add_prefixed.induct)
  case (2 p to k' v "from")
  then have "map_of from k' = None" by (simp add: map_of_eq_None_iff)
  then show ?case using 2 by (auto simp: update_conv' split: option.split)
qed simp

lemma add_prefixed_miss:
  "take (length p) k \<noteq> p \<Longrightarrow> map_of (add_prefixed p to from) k = map_of to k"
  by (induction p to "from" rule: add_prefixed.induct) (auto simp: update_conv')

lemma map_of_dump_probes:
  "distinct (map fst dp) \<Longrightarrow>
     map_of (dump_probes out env dp) k = (case map_of dp k of None \<Rightarrow> map_of out k | Some fn \<Rightarrow> Some (fn env))"
proof (induction out env dp rule: dump_probes.induct)
  case (2 out env k' fn rest)
  then have "map_of rest k' = None" by (simp add: map_of_eq_None_iff)
  then show ?case using 2 by (auto simp: update_conv' split: option.split)
qed simp

lemma call_locked_iff: "call_locked fns = (if \<exists>fn\<in>set fns. l_calls_store fn then None else Some (map l_id fns))"
  by (induction fns) auto

interpretation metrics: kv_store "\<lambda>mr. map_of (mr_metrics mr)" "mr_Set now" "\<lambda>mr k. mr\<lparr>mr_metrics := AList.delete k (mr_metrics mr)\<rparr>" for now
  by unfold_locales (simp_all add: mr_Set_def update_conv' delete_conv')

section \<open>Well-formed adapters\<close>

definition ca_inv :: "('e, 'v) ControlAdapter \<Rightarrow> bool" where
  "ca_inv c \<longleftrightarrow> distinct (map fst (cs_config (ca_config c))) \<and>
     distinct (map fst (mr_metrics (ca_metrics c))) \<and> distinct (map fst (ca_debug c))"

lemma ca_inv_new: "ca_inv (NewControlAdapter n)"
  by (simp add: ca_inv_def NewControlAdapter_def NewConfigStore_def NewMetricsRegistry_def
      RegisterPlatformProbes_def RegisterProbe_def NewDebugProbes_def)

lemma ca_inv_SetConfig: "ca_inv c \<Longrightarrow> ca_SetConfig hs c cfg = Some (calls, c') \<Longrightarrow> ca_inv c'"
  by (auto simp: ca_inv_def ca_SetConfig_def SetConfigSync_def Let_def distinct_copy_map split: option.splits)

lemma ca_inv_OnReload: "ca_inv c \<Longrightarrow> ca_inv (snd (ca_OnReload hs c fn))"
  by (simp add: ca_inv_def ca_OnReload_def cs_OnReload_def)

lemma ca_inv_RegisterDebugProbe: "ca_inv c \<Longrightarrow> ca_inv (RegisterDebugProbe c name fn)"
  by (simp add: ca_inv_def RegisterDebugProbe_def RegisterProbe_def distinct_update)

lemma ca_SetConfig_eq:
  "ca_SetConfig hs c cfg =
     (if \<exists>fn\<in>set (cs_listeners (ca_config c)). l_calls_store fn then None
      else Some (map l_id (cs_listeners (ca_config c)) @ map l_id hs,
        c\<lparr>ca_config := (ca_config c)\<lparr>cs_config := copy_map (cs_config (ca_config c)) cfg\<rparr>\<rparr>))"
  by (simp add: ca_SetConfig_def SetConfigSync_def Let_def call_locked_iff TriggerHotReloadSync_def)

lemma GetConfig_map: "ca_inv c \<Longrightarrow> map_of (ca_GetConfig c) = map_of (cs_config (ca_config c))"
  by (simp add: ca_inv_def ca_GetConfig_def cs_GetSnapshot_def map_of_copy_map)

lemma miss_metrics: "take 8 k \<noteq> ''metrics.'' \<Longrightarrow> map_of (add_prefixed ''metrics.'' to from) k = map_of to k"
  using add_prefixed_miss [of "''metrics.''" k] by (simp add: numeral_eq_Suc)

lemma miss_debug: "take 6 k \<noteq> ''debug.'' \<Longrightarrow> map_of (add_prefixed ''debug.'' to from) k = map_of to k"
  using add_prefixed_miss [of "''debug.''" k] by (simp add: numeral_eq_Suc)

lemma Stats_config:
  assumes "ca_inv c" and "take 8 k \<noteq> ''metrics.''" and "take 6 k \<noteq> ''debug.''"
  shows "map_of (Stats env c) k = map_of (cs_config (ca_config c)) k"
proof -
  have "map_of (Stats env c) k = map_of (copy_map [] (cs_GetSnapshot (ca_config c))) k"
    using assms(2,3) by (simp add: Stats_def Let_def miss_metrics miss_debug)
  also have "\<dots> = map_of (cs_config (ca_config c)) k"
    using assms(1) by (simp add: ca_inv_def cs_GetSnapshot_def map_of_copy_map distinct_copy_map)
  finally show ?thesis .
qed

lemma Stats_metrics:
  assumes "ca_inv c" and "map_of (mr_metrics (ca_metrics c)) k = Some v"
  shows "map_of (Stats env c) (''metrics.'' @ k) = Some v"
proof -
  have "map_of (mr_GetSnapshot (ca_metrics c)) k = Some v" "distinct (map fst (mr_GetSnapshot (ca_metrics c)))"
    using assms by (simp_all add: ca_inv_def mr_GetSnapshot_def map_of_copy_map distinct_copy_map)
  then have "map_of (add_prefixed ''metrics.'' to (mr_GetSnapshot (ca_metrics c))) (''metrics.'' @ k) = Some v" for to
    by (simp only: add_prefixed_hit option.case)
  then show ?thesis by (simp add: Stats_def Let_def miss_debug)
qed

lemma Stats_debug:
  assumes "ca_inv c" and "map_of (ca_debug c) k = Some fn"
  shows "map_of (Stats env c) (''debug.'' @ k) = Some (fn env)"
proof -
  have "map_of (DumpState (ca_debug c) env) k = Some (fn env)" "distinct (map fst (DumpState (ca_debug c) env))"
    using assms by (simp_all add: ca_inv_def DumpState_def map_of_dump_probes distinct_dump_probes)
  then have "map_of (add_prefixed ''debug.'' to (DumpState (ca_debug c) env)) (''debug.'' @ k) = Some (fn env)" for to
    by (simp only: add_prefixed_hit option.case)
  then show ?thesis by (simp add: Stats_def Let_def)
qed

section \<open>Properties\<close>

text \<open>
  Claim C27 (configuration and reload).  On an adapter none of whose listeners calls back into
  it, setting a configuration returns, changes exactly the given keys in what GetConfig and
  Stats show, and has called every listener and then every global hook; a callback registered
  with OnReload has been called twice.  A listener that reads the configuration it is told
  about blocks SetConfig forever.
\<close>

theorem control_set_config:
  assumes "ca_inv c" and "distinct (map fst cfg)" and "ca_OnReload hs c fn = (hs', c')"
    and "\<forall>g\<in>set (cs_listeners (ca_config c)). \<not> l_calls_store g"
  shows "if l_calls_store fn then ca_SetConfig hs' c' cfg = None
    else \<exists>calls c''. ca_SetConfig hs' c' cfg = Some (calls, c'') \<and> ca_inv c'' \<and>
      map_of (ca_GetConfig c'') = map_of (ca_GetConfig c) ++ map_of cfg \<and>
      (\<forall>k. take 8 k \<noteq> ''metrics.'' \<and> take 6 k \<noteq> ''debug.'' \<longrightarrow> map_of (Stats env c'') k = map_of (ca_GetConfig c'') k) \<and>
      calls = map l_id (cs_listeners (ca_config c)) @ [l_id fn] @ map l_id hs @ [l_id fn]"
proof (cases "l_calls_store fn")
  case True
  then show ?thesis using assms(3) by (auto simp: ca_SetConfig_eq ca_OnReload_def cs_OnReload_def)
next
  case False
  have c': "c' = c\<lparr>ca_config := cs_OnReload (ca_config c) fn\<rparr>" and hs': "hs' = hs @ [fn]"
    using assms(3) by (simp_all add: ca_OnReload_def RegisterReloadHook_def)
  define c'' where "c'' = c'\<lparr>ca_config := (ca_config c')\<lparr>cs_config := copy_map (cs_config (ca_config c')) cfg\<rparr>\<rparr>"
  have set: "ca_SetConfig hs' c' cfg =
      Some (map l_id (cs_listeners (ca_config c)) @ [l_id fn] @ map l_id hs @ [l_id fn], c'')"
    using assms(4) False by (auto simp: ca_SetConfig_eq c''_def c' hs' cs_OnReload_def)
  moreover have inv: "ca_inv c''"
    using ca_inv_SetConfig [OF _ set] ca_inv_OnReload [OF assms(1), of hs fn] assms(3) by simp
  moreover have "map_of (ca_GetConfig c'') = map_of (ca_GetConfig c) ++ map_of cfg"
    using GetConfig_map [OF inv] GetConfig_map [OF assms(1)] assms(2)
    by (simp add: c''_def c' cs_OnReload_def map_of_copy_map)
  moreover have "map_of (Stats env c'') k = map_of (ca_GetConfig c'') k"
    if "take 8 k \<noteq> ''metrics.'' \<and> take 6 k \<noteq> ''debug.''" for k
    using Stats_config [OF inv] GetConfig_map [OF inv] that by simp
  ultimately show ?thesis using False by simp
qed

theorem control_set_config_witness:
  "\<exists>calls c''. ca_SetConfig [Listener 5 False, Listener 7 False]
      ((NewControlAdapter 4 :: (unit, unit) ControlAdapter)\<lparr>ca_config := cs_OnReload NewConfigStore (Listener 7 False)\<rparr>)
      [(''a'', AInt 1)] = Some (calls, c'') \<and> calls = [7, 5, 7] \<and> map_of (ca_GetConfig c'') ''a'' = Some (AInt 1)"
  using control_set_config [of "NewControlAdapter 4 :: (unit, unit) ControlAdapter" "[(''a'', AInt 1)]"
      "[Listener 5 False]" "Listener 7 False" "[Listener 5 False, Listener 7 False]"
      "(NewControlAdapter 4)\<lparr>ca_config := cs_OnReload NewConfigStore (Listener 7 False)\<rparr>" "()", OF ca_inv_new]
  by (auto simp: ca_OnReload_def RegisterReloadHook_def NewControlAdapter_def NewConfigStore_def)

text \<open>
  Fact (what Stats shows).  Metrics and debug probes appear under their prefixes with their
  current values.
\<close>

lemma stats_prefixes:
  assumes "ca_inv c"
  shows "(map_of (mr_metrics (ca_metrics c)) k = Some v \<longrightarrow> map_of (Stats env c) (''metrics.'' @ k) = Some v) \<and>
    (map_of (ca_debug c) k = Some fn \<longrightarrow> map_of (Stats env c) (''debug.'' @ k) = Some (fn env))"
  using Stats_metrics [OF assms] Stats_debug [OF assms] by blast

text \<open>The counting middleware: one event after another, and two at once.\<close>

fun process_all ::
  "('d \<Rightarrow> ('e, 'v) ControlAdapter \<times> 's \<Rightarrow> ('r \<times> ('e, 'v) ControlAdapter \<times> 's) option) \<Rightarrow>
     'd list \<Rightarrow> ('e, 'v) ControlAdapter \<times> 's \<Rightarrow> (('e, 'v) ControlAdapter \<times> 's) option" where
  "process_all h [] st = Some st"
| "process_all h (d # ds) st = (case h d st of None \<Rightarrow> None | Some (_, st') \<Rightarrow> process_all h ds st')"

definition quiet :: "('e, 'v) ControlAdapter \<Rightarrow> bool" where
  "quiet c \<longleftrightarrow> ca_inv c \<and> (\<forall>g\<in>set (cs_listeners (ca_config c)). \<not> l_calls_store g)"

lemma metrics_write_quiet:
  assumes "quiet c"
  shows "\<exists>calls c'. metrics_write hs c n = Some (calls, c') \<and> quiet c' \<and> metrics_read env c' = n + 1"
proof -
  define c' where "c' = c\<lparr>ca_config := (ca_config c)\<lparr>cs_config := copy_map (cs_config (ca_config c)) [(''handler.processed'', AInt64 (n + 1))]\<rparr>\<rparr>"
  have w: "metrics_write hs c n = Some (map l_id (cs_listeners (ca_config c)) @ map l_id hs, c')"
    using assms by (auto simp: metrics_write_def ca_SetConfig_eq quiet_def c'_def)
  have inv: "ca_inv c'" using assms w ca_inv_SetConfig by (auto simp: quiet_def metrics_write_def)
  have "map_of (Stats env c') ''handler.processed'' = Some (AInt64 (n + 1))"
    by (subst Stats_config [OF inv]) (simp_all add: c'_def update_conv')
  then show ?thesis using w inv assms by (simp add: quiet_def c'_def metrics_read_def)
qed

lemma process_all_counts:
  assumes "quiet c" and "\<And>d s. next d s \<noteq> None"
  shows "\<exists>c' s'. process_all (HandlerMetricsMiddleware hs env next) ds (c, s) = Some (c', s') \<and>
    quiet c' \<and> metrics_read env c' = metrics_read env c + of_nat (length ds)"
  using assms(1)
proof (induction ds arbitrary: c s)
  case (Cons d ds)
  obtain calls c1 where w: "metrics_write hs c (metrics_read env c) = Some (calls, c1)" "quiet c1"
    "metrics_read env c1 = metrics_read env c + 1" using metrics_write_quiet [OF Cons.prems] by blast
  obtain r s1 where n: "next d s = Some (r, s1)" using assms(2) [of d s] by (cases "next d s") auto
  obtain c' s' where "process_all (HandlerMetricsMiddleware hs env next) ds (c1, s1) = Some (c', s')" "quiet c'"
    "metrics_read env c' = metrics_read env c1 + of_nat (length ds)" using Cons.IH [OF w(2)] by blast
  then show ?case using w n by (simp add: HandlerMetricsMiddleware_def add.assoc)
qed simp

text \<open>
  Fact (handler counter).  Handling n events one after another adds n to the counter that
  Stats shows; when two handlers run at the same time and both read before either writes, one
  of the two events is not counted.
\<close>

theorem metrics_middleware_counts:
  assumes "quiet c" and "\<And>d s. next d s \<noteq> None"
  shows "(\<exists>c' s'. process_all (HandlerMetricsMiddleware hs env next) ds (c, s) = Some (c', s') \<and>
      metrics_read env c' = metrics_read env c + of_nat (length ds)) \<and>
    (\<exists>calls1 c1 calls2 c2. metrics_write hs c (metrics_read env c) = Some (calls1, c1) \<and>
      metrics_write hs c1 (metrics_read env c) = Some (calls2, c2) \<and>
      metrics_read env c2 = metrics_read env c + 1)"
proof
  show "\<exists>c' s'. process_all (HandlerMetricsMiddleware hs env next) ds (c, s) = Some (c', s') \<and>
      metrics_read env c' = metrics_read env c + of_nat (length ds)"
    using process_all_counts [of c "next" hs env ds s] assms by blast
  obtain calls1 c1 where 1: "metrics_write hs c (metrics_read env c) = Some (calls1, c1)" "quiet c1"
    using metrics_write_quiet [OF assms(1)] by blast
  obtain calls2 c2 where "metrics_write hs c1 (metrics_read env c) = Some (calls2, c2)"
    "metrics_read env c2 = metrics_read env c + 1"
    using metrics_write_quiet [OF 1(2)] by blast
  then show "\<exists>calls1 c1 calls2 c2. metrics_write hs c (metrics_read env c) = Some (calls1, c1) \<and>
      metrics_write hs c1 (metrics_read env c) = Some (calls2, c2) \<and>
      metrics_read env c2 = metrics_read env c + 1" using 1 by blast
qed

lemma quiet_new: "quiet (NewControlAdapter n)"
  by (simp add: quiet_def ca_inv_new) (simp add: NewControlAdapter_def NewConfigStore_def)

theorem metrics_middleware_counts_witness:
  "\<exists>c' s'. process_all (HandlerMetricsMiddleware [] () (\<lambda>d s. Some (True, d # s))) [3, 4, 5 :: nat]
      ((NewControlAdapter 2 :: (unit, unit) ControlAdapter), []) = Some (c', s') \<and> metrics_read () c' = 3"
proof -
  have z: "metrics_read () (NewControlAdapter 2 :: (unit, unit) ControlAdapter) = 0" by code_simp
  show ?thesis
    using metrics_middleware_counts [of "NewControlAdapter 2 :: (unit, unit) ControlAdapter"
        "\<lambda>d s. Some (True, d # s)" "[]" "()" "[3, 4, 5 :: nat]" "[]", OF quiet_new] z by simp
qed

text \<open>
  Fact (pinning).  A successful Pin records the requested indices as they came, also when the
  platform was given normalised ones; an Unpin forgets them.
\<close>

lemma pin_records_request:
  assumes "pin (NUMANodeAuto nodes cur numaID) (CPUIndexAuto cpus cpuID) = None"
  shows "aff_Get (snd (aff_Pin pin nodes cur cpus a cpuID numaID)) = (cpuID, numaID) \<and>
    aff_Get (snd (aff_Unpin None a)) = (-1, -1)"
  using assms by (simp add: aff_Pin_def aff_Get_def aff_Unpin_def)

end
