(* ===== verification/Router.thy ===== *)
theory Router
  imports GoStrings Middleware "HOL-Library.AList"
begin

text \<open>
  Routing in \<^verbatim>\<open>highlevel/server.go\<close>: registration of handlers for plain paths, paths with
  parameters and regular expressions, route groups, the lookup of a request, and the built-in
  middleware.  Expressions written by the user are matched by the \<^verbatim>\<open>regexp\<close> engine, which is a
  parameter (\<open>compiles\<close>, \<open>engine\<close>).  The maps over patterns are listed in the order in which
  \<^verbatim>\<open>range\<close> visits them, which Go leaves open.
\<close>

section \<open>Routes\<close>

datatype HTTPMethod = GET | POST | PUT | PATCH | DELETE | HEAD | OPTIONS | TRACE | Method string

record 'h RouteHandler =
  rh_Handler :: 'h
  rh_Methods :: "HTTPMethod list"

text \<open>A compiled expression: \<^verbatim>\<open>"^" + r + "$"\<close> for a parameter route, the text of the user otherwise.\<close>

datatype regex = Anchored string | UserRe string

fun regex_String :: "regex \<Rightarrow> string" where
  "regex_String (Anchored r) = ''^'' @ r @ ''$''"
| "regex_String (UserRe p) = p"

fun FindStringSubmatch :: "(string \<Rightarrow> string \<Rightarrow> string list option) \<Rightarrow> regex \<Rightarrow> string \<Rightarrow> string list option" where
  "FindStringSubmatch engine (Anchored r) path = map_option (Cons path) (re_match (re_parse r) path)"
| "FindStringSubmatch engine (UserRe p) path = engine p path"

record 'h Routes =
  rt_handlers :: "(string \<times> 'h RouteHandler) list"
  rt_patterns :: "(regex \<times> 'h RouteHandler) list"
  rt_routePatterns :: "(string \<times> string list) list"
  rt_middleware :: "('h \<Rightarrow> 'h) list"

definition NewRoutes :: "'h Routes" where
  "NewRoutes = \<lparr>rt_handlers = [], rt_patterns = [], rt_routePatterns = [], rt_middleware = []\<rparr>"

definition containsParam :: "string \<Rightarrow> bool" where
  "containsParam pattern \<longleftrightarrow> CHR '':'' \<in> set pattern"

definition containsRegex :: "string \<Rightarrow> bool" where
  "containsRegex pattern \<longleftrightarrow> (\<exists>c\<in>set pattern. c \<in> set (CHR 0x5C # ''*+?[]^$.|()''))"

text \<open>The loop over the parts between slashes; \<open>many\<close> is \<^verbatim>\<open>len(parts) > 1\<close>.\<close>

fun convert_parts :: "bool \<Rightarrow> string list \<Rightarrow> string list \<times> string list" where
  "convert_parts many [] = ([], [])"
| "convert_parts many (part # parts) =
     (let (regexParts, params) = convert_parts many parts
      in if HasPrefix part '':'' then (''([^/]+)'' # regexParts, drop 1 part # params)
         else if part = [] \<and> many then (regexParts, params)
         else (QuoteMeta part # regexParts, params))"

definition convertToRegex :: "string \<Rightarrow> string \<times> string list" where
  "convertToRegex pattern =
     (let parts = split_at_char (CHR ''/'') pattern;
          (regexParts, params) = convert_parts (length parts > 1) parts
      in (join_char (CHR ''/'') regexParts, params))"

definition HandleFuncWithMethods ::
  "(string \<Rightarrow> bool) \<Rightarrow> 'h Routes \<Rightarrow> string \<Rightarrow> HTTPMethod list \<Rightarrow> 'h \<Rightarrow> 'h Routes outcome" where
  "HandleFuncWithMethods compiles s pattern methods handler =
     (let routeHandler = \<lparr>rh_Handler = handler, rh_Methods = methods\<rparr>
      in if containsParam pattern then
           let (regexPattern, paramNames) = convertToRegex pattern
           in Ok (s\<lparr>rt_patterns := rt_patterns s @ [(Anchored regexPattern, routeHandler)],
                   rt_routePatterns := AList.update regexPattern paramNames (rt_routePatterns s)\<rparr>)
         else if \<not> containsRegex pattern then
           Ok (s\<lparr>rt_handlers := AList.update pattern routeHandler (rt_handlers s)\<rparr>)
         else if compiles pattern then
           Ok (s\<lparr>rt_patterns := rt_patterns s @ [(UserRe pattern, routeHandler)]\<rparr>)
         else Panic)"

definition HandleFunc :: "(string \<Rightarrow> bool) \<Rightarrow> 'h Routes \<Rightarrow> string \<Rightarrow> 'h \<Rightarrow> 'h Routes outcome" where
  "HandleFunc compiles s pattern handler = HandleFuncWithMethods compiles s pattern [GET] handler"

text \<open>\<^verbatim>\<open>Server.GET\<close>, \<^verbatim>\<open>POST\<close>, \<dots>: one method each.\<close>

definition route_method :: "(string \<Rightarrow> bool) \<Rightarrow> HTTPMethod \<Rightarrow> 'h Routes \<Rightarrow> string \<Rightarrow> 'h \<Rightarrow> 'h Routes outcome" where
  "route_method compiles m s pattern handler = HandleFuncWithMethods compiles s pattern [m] handler"

definition Use :: "'h Routes \<Rightarrow> ('h \<Rightarrow> 'h) list \<Rightarrow> 'h Routes" where
  "Use s mw = s\<lparr>rt_middleware := rt_middleware s @ mw\<rparr>"

text \<open>Route groups: a group is its prefix.\<close>

definition joinPrefix :: "string \<Rightarrow> string \<Rightarrow> string" where
  "joinPrefix prefix pattern =
     (if prefix = [] then pattern
      else if \<not> HasSuffix prefix ''/'' \<and> \<not> HasPrefix pattern ''/'' then prefix @ ''/'' @ pattern
      else if HasSuffix prefix ''/'' \<and> HasPrefix pattern ''/'' then prefix @ drop 1 pattern
      else prefix @ pattern)"

definition group_HandleFuncWithMethods ::
  "(string \<Rightarrow> bool) \<Rightarrow> string \<Rightarrow> 'h Routes \<Rightarrow> string \<Rightarrow> HTTPMethod list \<Rightarrow> 'h \<Rightarrow> 'h Routes outcome" where
  "group_HandleFuncWithMethods compiles prefix s pattern methods handler =
     HandleFuncWithMethods compiles s (joinPrefix prefix pattern) methods handler"

definition group_method ::
  "(string \<Rightarrow> bool) \<Rightarrow> HTTPMethod \<Rightarrow> string \<Rightarrow> 'h Routes \<Rightarrow> string \<Rightarrow> 'h \<Rightarrow> 'h Routes outcome" where
  "group_method compiles m prefix s pattern handler =
     HandleFuncWithMethods compiles s (joinPrefix prefix pattern) [m] handler"

definition group_Group :: "string \<Rightarrow> string \<Rightarrow> string" where
  "group_Group prefix sub = joinPrefix prefix sub"

definition applyMiddleware :: "'h Routes \<Rightarrow> 'h \<Rightarrow> 'h" where
  "applyMiddleware s handler = wrap_from (length (rt_middleware s)) (rt_middleware s) handler"

section \<open>Lookup\<close>

fun method_listed :: "HTTPMethod \<Rightarrow> HTTPMethod list \<Rightarrow> bool" where
  "method_listed m [] = False"
| "method_listed m (a # as) = (if a = m then True else method_listed m as)"

definition isMethodAllowed :: "HTTPMethod \<Rightarrow> HTTPMethod list \<Rightarrow> bool" where
  "isMethodAllowed m allowed = (if allowed = [] then m = GET else method_listed m allowed)"

text \<open>The first entry of \<^verbatim>\<open>routePatterns\<close> whose quoted text matches the text of the expression.\<close>

fun names_for :: "(string \<times> string list) list \<Rightarrow> string \<Rightarrow> string list" where
  "names_for [] str = []"
| "names_for ((regexStr, names) # rest) str =
     (if re_match (re_parse (QuoteMeta regexStr)) str \<noteq> None then names else names_for rest str)"

fun bind_params :: "nat \<Rightarrow> string list \<Rightarrow> string list \<Rightarrow> (string \<times> string) list" where
  "bind_params i [] matches = []"
| "bind_params i (name # names) matches =
     (if i + 1 < length matches then (name, matches ! (i + 1)) # bind_params (i + 1) names matches
      else bind_params (i + 1) names matches)"

fun find_pattern ::
  "(string \<Rightarrow> string \<Rightarrow> string list option) \<Rightarrow> (string \<times> string list) list \<Rightarrow> string \<Rightarrow> HTTPMethod \<Rightarrow>
     (regex \<times> 'h RouteHandler) list \<Rightarrow> 'h RouteHandler option \<times> (string \<times> string) list" where
  "find_pattern engine rps path method [] = (None, [])"
| "find_pattern engine rps path method ((pattern, handler) # rest) =
     (case FindStringSubmatch engine pattern path of
        Some matches \<Rightarrow>
          if length matches > 1 \<and> isMethodAllowed method (rh_Methods handler)
          then (Some handler, bind_params 0 (names_for rps (regex_String pattern)) matches)
          else find_pattern engine rps path method rest
      | None \<Rightarrow> find_pattern engine rps path method rest)"

definition findHandler ::
  "(string \<Rightarrow> string \<Rightarrow> string list option) \<Rightarrow> 'h Routes \<Rightarrow> string \<Rightarrow> HTTPMethod \<Rightarrow>
     'h RouteHandler option \<times> (string \<times> string) list" where
  "findHandler engine s path method =
     (case map_of (rt_handlers s) path of
        Some handler \<Rightarrow>
          if isMethodAllowed method (rh_Methods handler) then (Some handler, [])
          else find_pattern engine (rt_routePatterns s) path method (rt_patterns s)
      | None \<Rightarrow> find_pattern engine (rt_routePatterns s) path method (rt_patterns s))"

section \<open>Built-in middleware\<close>

record hl_globals =
  globalActiveConns :: "64 word"
  globalTotalMsgs :: "64 word"
  printed :: "string list"

definition hl_print :: "string \<Rightarrow> ('s hl_globals_scheme) \<Rightarrow> 's hl_globals_scheme" where
  "hl_print line s = s\<lparr>printed := printed s @ [line]\<rparr>"

text \<open>A panic in \<open>next\<close> skips what follows the call.\<close>

definition hl_LoggingMiddleware :: "('c, 's hl_globals_scheme) handler \<Rightarrow> ('c, 's hl_globals_scheme) handler" where
  "hl_LoggingMiddleware next = (\<lambda>conn s.
     case next conn (hl_print ''[LOG] WebSocket connection started from remote'' s) of
       (Panic, s') \<Rightarrow> (Panic, s')
     | (_, s') \<Rightarrow> (Ok (), hl_print ''[LOG] WebSocket connection from remote ended'' s'))"

definition hl_RecoveryMiddleware ::
  "('c \<Rightarrow> 's hl_globals_scheme \<Rightarrow> 's hl_globals_scheme) \<Rightarrow>
     ('c, 's hl_globals_scheme) handler \<Rightarrow> ('c, 's hl_globals_scheme) handler" where
  "hl_RecoveryMiddleware close next = (\<lambda>conn s.
     case next conn s of
       (Panic, s') \<Rightarrow> (Ok (), close conn (hl_print ''[RECOVERY] Panic recovered in handler'' s'))
     | (_, s') \<Rightarrow> (Ok (), s'))"

definition hl_MetricsMiddleware :: "('c, 's hl_globals_scheme) handler \<Rightarrow> ('c, 's hl_globals_scheme) handler" where
  "hl_MetricsMiddleware next = (\<lambda>conn s.
     let s1 = s\<lparr>globalActiveConns := globalActiveConns s + 1\<rparr>
     in case next conn (hl_print ''[METRICS] Active connections'' s1) of
          (Panic, s') \<Rightarrow> (Panic, s')
        | (_, s') \<Rightarrow>
            (Ok (), hl_print ''[METRICS] Active connections''
                      (s'\<lparr>globalActiveConns := globalActiveConns s' - 1\<rparr>)))"

definition GetMetrics :: "'s hl_globals_scheme \<Rightarrow> (string \<times> 64 word) list" where
  "GetMetrics s = [(''active_connections'', globalActiveConns s), (''total_messages'', globalTotalMsgs s)]"

section \<open>Matching by segments\<close>

text \<open>The meaning a parameter route has: segment by segment.\<close>

fun seg_match :: "string list \<Rightarrow> string list \<Rightarrow> string list option" where
  "seg_match [] [] = Some []"
| "seg_match (r # rs) (p # ps) =
     (if HasPrefix r '':'' then (if p = [] then None else map_option (Cons p) (seg_match rs ps))
      else if r = p then seg_match rs ps else None)"
| "seg_match _ _ = None"

fun seg_items :: "string list \<Rightarrow> re_item list" where
  "seg_items [] = []"
| "seg_items [r] = (if HasPrefix r '':'' then [ReSeg] else map ReLit r)"
| "seg_items (r # r' # rs) =
     (if HasPrefix r '':'' then [ReSeg] else map ReLit r) @ ReLit (CHR ''/'') # seg_items (r' # rs)"

definition route_segs :: "string \<Rightarrow> string list" where
  "route_segs pattern = filter (\<lambda>p. p \<noteq> []) (split_at_char (CHR ''/'') pattern)"

definition seg_re :: "string \<Rightarrow> string" where
  "seg_re part = (if HasPrefix part '':'' then ''([^/]+)'' else QuoteMeta part)"

lemma convert_parts_segs:
  assumes "many \<or> [] \<notin> set parts"
  shows "convert_parts many parts =
    (map seg_re (filter (\<lambda>p. p \<noteq> []) parts),
     map (drop 1) (filter (\<lambda>p. HasPrefix p '':'') parts))"
  using assms
proof (induction parts)
  case (Cons part parts)
  have "\<not> HasPrefix [] '':''" by (simp add: HasPrefix_char)
  then show ?case using Cons by (auto simp: seg_re_def)
qed simp

lemma route_segs_ne: "containsParam pattern \<Longrightarrow> route_segs pattern \<noteq> []"
proof
  assume c: "containsParam pattern" and "route_segs pattern = []"
  then have "\<forall>p\<in>set (split_at_char (CHR ''/'') pattern). p = []"
    by (auto simp: route_segs_def filter_empty_conv)
  moreover have "CHR '':'' \<notin> set (join_char sep ps)" if "\<forall>p\<in>set ps. p = []" "sep \<noteq> CHR '':''" for sep ps
    using that by (induction sep ps rule: join_char.induct) auto
  ultimately have "CHR '':'' \<notin> set (join_char (CHR ''/'') (split_at_char (CHR ''/'') pattern))" by simp
  then show False using c by (simp add: join_split containsParam_def)
qed

lemma convertToRegex_segs:
  assumes "containsParam pattern"
  shows "convertToRegex pattern =
    (join_char (CHR ''/'') (map seg_re (route_segs pattern)),
     map (drop 1) (filter (\<lambda>p. HasPrefix p '':'') (split_at_char (CHR ''/'') pattern)))"
proof -
  let ?ps = "split_at_char (CHR ''/'') pattern"
  have "length ?ps > 1 \<or> [] \<notin> set ?ps"
  proof (rule ccontr)
    assume "\<not> ?thesis"
    then have "?ps = [[]]" by (cases ?ps; cases "tl ?ps") auto
    then show False using route_segs_ne [OF assms] by (simp add: route_segs_def)
  qed
  then show ?thesis by (simp add: convertToRegex_def convert_parts_segs route_segs_def Let_def)
qed

lemma re_parse_seg_re: "re_parse (seg_re r @ u) = (if HasPrefix r '':'' then [ReSeg] else map ReLit r) @ re_parse u"
  by (simp only: seg_re_def re_parse_seg re_parse_quote split: if_splits) simp

lemma re_parse_slash: "re_parse (CHR ''/'' # u) = ReLit (CHR ''/'') # re_parse u"
  by (rule re_parse_lit) (simp add: re_special_def)

lemma re_parse_segs: "re_parse (join_char (CHR ''/'') (map seg_re rs)) = seg_items rs"
proof (induction rs rule: seg_items.induct)
  case (2 r)
  then show ?case using re_parse_seg_re [of r "[]"] by simp
next
  case (3 r r' rs)
  have "re_parse (join_char (CHR ''/'') (map seg_re (r # r' # rs))) =
      re_parse (seg_re r @ CHR ''/'' # join_char (CHR ''/'') (map seg_re (r' # rs)))" by simp
  also have "\<dots> = seg_items (r # r' # rs)"
    using 3 by (simp only: re_parse_seg_re re_parse_slash seg_items.simps)
  finally show ?case .
qed simp

lemma seg_cases:
  obtains (last) "CHR ''/'' \<notin> set path" | (more) a b where "path = a @ CHR ''/'' # b" "CHR ''/'' \<notin> set a"
  by (metis split_list_first)

lemma takeWhile_last: "CHR ''/'' \<notin> set a \<Longrightarrow> takeWhile (\<lambda>c. c \<noteq> CHR ''/'') a = a"
  by (induction a) auto

lemma takeWhile_more: "CHR ''/'' \<notin> set a \<Longrightarrow> takeWhile (\<lambda>c. c \<noteq> CHR ''/'') (a @ CHR ''/'' # b) = a"
  by (induction a) auto

lemma re_match_one:
  assumes "CHR ''/'' \<notin> set r"
  shows "re_match (seg_items [r]) path = seg_match [r] (split_at_char (CHR ''/'') path)"
proof (cases "HasPrefix r '':''")
  case True
  show ?thesis
  proof (cases rule: seg_cases [of path])
    case last
    then have "re_match (seg_items [r]) path = (if path = [] then None else Some [path])"
      using re_seg_exact [of path "re_match []" "[]"] takeWhile_last [OF last] True last by (cases path) simp_all
    then show ?thesis using True last by (simp add: split_at_char_no_sep)
  next
    case (more a b)
    have "re_match (seg_items [r]) path = None"
      using re_seg_exact [OF more(2), of "re_match []" "CHR ''/'' # b"] takeWhile_more [OF more(2)] True more(1) by simp
    moreover have "split_at_char (CHR ''/'') path = a # split_at_char (CHR ''/'') b"
      using more by (simp add: split_at_char_append)
    ultimately show ?thesis using True by (cases "split_at_char (CHR ''/'') b") auto
  qed
next
  case False
  have m: "re_match (seg_items [r]) path = (if path = r then Some [] else None)"
    using re_match_lits [of r "[]" path] False by (auto dest: take_all)
  have "seg_match [r] (split_at_char (CHR ''/'') path) = (if path = r then Some [] else None)"
  proof (cases rule: seg_cases [of path])
    case last
    then show ?thesis using False by (simp add: split_at_char_no_sep)
  next
    case (more a b)
    then show ?thesis using False assms
      by (cases "split_at_char (CHR ''/'') b") (auto simp: split_at_char_append)
  qed
  then show ?thesis using m by simp
qed

lemma re_match_step_lit:
  assumes "CHR ''/'' \<notin> set r" and "CHR ''/'' \<notin> set a"
  shows "re_match (map ReLit r @ ReLit (CHR ''/'') # rest) (a @ CHR ''/'' # b) = (if r = a then re_match rest b else None)"
  using assms
proof (induction r arbitrary: a)
  case (Cons c r)
  then show ?case by (cases a) auto
next
  case Nil
  then show ?case by (cases a) auto
qed

lemma re_match_step_last:
  assumes "CHR ''/'' \<notin> set path"
  shows "re_match ((if HasPrefix r '':'' then [ReSeg] else map ReLit r) @ ReLit (CHR ''/'') # rest) path = None"
proof -
  define k where "k = re_match (ReLit (CHR ''/'') # rest)"
  have k: "k w = None" if "CHR ''/'' \<notin> set w" for w using that by (cases w) (auto simp: k_def)
  show ?thesis
  proof (cases "HasPrefix r '':''")
    case True
    have "re_seg k (length path) (path @ []) = None"
      by (subst re_seg_exact) (use assms k in \<open>auto simp: k_def\<close>)
    then show ?thesis using True by (simp add: takeWhile_last [OF assms] k_def)
  next
    case False
    have "CHR ''/'' \<notin> set (drop (length r) path)" using assms by (meson in_set_dropD)
    then show ?thesis
      using k False re_match_lits [of r "ReLit (CHR ''/'') # rest" path] by (simp add: k_def del: re_match.simps)
  qed
qed

lemma re_match_step:
  assumes "CHR ''/'' \<notin> set r" and "CHR ''/'' \<notin> set a"
  shows "re_match ((if HasPrefix r '':'' then [ReSeg] else map ReLit r) @ ReLit (CHR ''/'') # rest) (a @ CHR ''/'' # b) =
    (if HasPrefix r '':'' then (if a = [] then None else map_option (Cons a) (re_match rest b))
     else if r = a then re_match rest b else None)"
proof (cases "HasPrefix r '':''")
  case True
  have "re_seg (re_match (ReLit (CHR ''/'') # rest)) (length a) (a @ CHR ''/'' # b) =
      (if a = [] then None else map_option (Cons a) (re_match (ReLit (CHR ''/'') # rest) (CHR ''/'' # b)))"
    by (rule re_seg_exact) (use assms(2) in auto)
  then show ?thesis using True takeWhile_more [OF assms(2)] by simp
next
  case False
  then show ?thesis using re_match_step_lit [OF assms] by simp
qed

lemma re_match_segs:
  assumes "rs \<noteq> []" and "\<forall>r\<in>set rs. CHR ''/'' \<notin> set r"
  shows "re_match (seg_items rs) path = seg_match rs (split_at_char (CHR ''/'') path)"
  using assms
proof (induction rs arbitrary: path rule: seg_items.induct)
  case (2 r)
  then show ?case by (intro re_match_one) simp
next
  case (3 r r' rs)
  show ?case
  proof (cases rule: seg_cases [of path])
    case last
    then show ?thesis by (simp add: re_match_step_last split_at_char_no_sep del: re_match.simps)
  next
    case (more a b)
    have IH: "re_match (seg_items (r' # rs)) b = seg_match (r' # rs) (split_at_char (CHR ''/'') b)"
      using 3 by simp
    have "CHR ''/'' \<notin> set r" using 3(3) by simp
    from re_match_step [OF this more(2), of "seg_items (r' # rs)" b] IH show ?thesis
      by (simp only: more(1) seg_items.simps seg_match.simps split_at_char_append [OF more(2)])
  qed
qed simp

section \<open>Registrations\<close>

type_synonym 'h reg = "string \<times> HTTPMethod list \<times> 'h"

fun register_all :: "(string \<Rightarrow> bool) \<Rightarrow> 'h Routes \<Rightarrow> 'h reg list \<Rightarrow> 'h Routes outcome" where
  "register_all compiles s [] = Ok s"
| "register_all compiles s ((p, ms, h) # regs) =
     bind_outcome (HandleFuncWithMethods compiles s p ms h) (\<lambda>s'. register_all compiles s' regs)"

text \<open>The handler of the last registration of exactly this path.\<close>

fun last_reg :: "'h reg list \<Rightarrow> string \<Rightarrow> 'h RouteHandler option" where
  "last_reg [] path = None"
| "last_reg ((p, ms, h) # regs) path =
     (case last_reg regs path of
        Some rh \<Rightarrow> Some rh
      | None \<Rightarrow> if p = path then Some \<lparr>rh_Handler = h, rh_Methods = ms\<rparr> else None)"

definition simple_pattern :: "string \<Rightarrow> bool" where
  "simple_pattern p \<longleftrightarrow> containsParam p \<or> \<not> containsRegex p"

lemma register_simple:
  assumes "list_all (\<lambda>(p, _). simple_pattern p) regs"
    and "\<forall>(re, rh)\<in>set (rt_patterns s). \<exists>p. containsParam p \<and> re = Anchored (fst (convertToRegex p))"
  shows "\<exists>s'. register_all compiles s regs = Ok s' \<and>
    (\<forall>(re, rh)\<in>set (rt_patterns s'). \<exists>p. containsParam p \<and> re = Anchored (fst (convertToRegex p))) \<and>
    (\<forall>path. \<not> containsParam path \<longrightarrow> map_of (rt_handlers s') path =
       (case last_reg regs path of Some rh \<Rightarrow> Some rh | None \<Rightarrow> map_of (rt_handlers s) path)) \<and>
    (\<forall>path. containsParam path \<longrightarrow> map_of (rt_handlers s') path = map_of (rt_handlers s) path)"
  using assms
proof (induction regs arbitrary: s)
  case (Cons reg regs)
  obtain p ms h where reg: "reg = (p, ms, h)" by (cases reg)
  define s1 where "s1 = (if containsParam p
      then s\<lparr>rt_patterns := rt_patterns s @ [(Anchored (fst (convertToRegex p)), \<lparr>rh_Handler = h, rh_Methods = ms\<rparr>)],
             rt_routePatterns := AList.update (fst (convertToRegex p)) (snd (convertToRegex p)) (rt_routePatterns s)\<rparr>
      else s\<lparr>rt_handlers := AList.update p \<lparr>rh_Handler = h, rh_Methods = ms\<rparr> (rt_handlers s)\<rparr>)"
  have s1: "HandleFuncWithMethods compiles s p ms h = Ok s1"
    using Cons.prems(1) reg
    by (auto simp: HandleFuncWithMethods_def s1_def Let_def simple_pattern_def split_beta)
  have pats: "\<forall>(re, rh)\<in>set (rt_patterns s1). \<exists>p. containsParam p \<and> re = Anchored (fst (convertToRegex p))"
    using Cons.prems(2) by (auto simp: s1_def)
  have h1: "map_of (rt_handlers s1) path = (if \<not> containsParam p \<and> p = path then Some \<lparr>rh_Handler = h, rh_Methods = ms\<rparr>
      else map_of (rt_handlers s) path)" for path
    by (auto simp: s1_def update_conv')
  obtain s' where s': "register_all compiles s1 regs = Ok s'"
    "\<forall>(re, rh)\<in>set (rt_patterns s'). \<exists>p. containsParam p \<and> re = Anchored (fst (convertToRegex p))"
    "\<forall>path. \<not> containsParam path \<longrightarrow> map_of (rt_handlers s') path =
       (case last_reg regs path of Some rh \<Rightarrow> Some rh | None \<Rightarrow> map_of (rt_handlers s1) path)"
    "\<forall>path. containsParam path \<longrightarrow> map_of (rt_handlers s') path = map_of (rt_handlers s1) path"
    using Cons.IH [OF _ pats] Cons.prems(1) by auto
  then show ?case using s1 h1 reg by (intro exI [of _ s']) (auto split: option.split)
qed simp

section \<open>Properties\<close>

lemma param_segments:
  assumes "containsParam pattern"
  shows "re_match (re_parse (fst (convertToRegex pattern))) path =
    seg_match (route_segs pattern) (split_at_char (CHR ''/'') path)"
proof -
  have "\<forall>r\<in>set (route_segs pattern). CHR ''/'' \<notin> set r"
    using split_at_char_parts by (auto simp: route_segs_def)
  then show ?thesis
    using re_match_segs [OF route_segs_ne [OF assms]] by (simp add: convertToRegex_segs [OF assms] re_parse_segs)
qed

lemma seg_match_absolute:
  assumes "rs \<noteq> []" and "[] \<notin> set rs"
  shows "seg_match rs (split_at_char (CHR ''/'') (CHR ''/'' # rest)) = None"
  using assms by (cases rs) auto

lemma param_route_never:
  assumes "containsParam pattern"
  shows "FindStringSubmatch engine (Anchored (fst (convertToRegex pattern))) (CHR ''/'' # rest) = None"
  using seg_match_absolute [OF route_segs_ne [OF assms]] assms
  by (simp add: param_segments route_segs_def del: split_at_char.simps)

lemma find_pattern_none:
  "\<forall>(re, rh)\<in>set pats. FindStringSubmatch engine re path = None \<Longrightarrow> find_pattern engine rps path m pats = (None, [])"
  by (induction engine rps path m pats rule: find_pattern.induct) auto





text \<open>
  Fact (groups nest).  Prefixing is associative: a group within a group prefixes a route like
  one group with the joined prefix.
\<close>

definition bare :: "string \<Rightarrow> string" where
  "bare p = (case p of c # t \<Rightarrow> if c = CHR ''/'' then t else p | [] \<Rightarrow> [])"

definition stem :: "string \<Rightarrow> string" where
  "stem a = (if a \<noteq> [] \<and> last a = CHR ''/'' then butlast a else a)"

lemma joinPrefix_Nil [simp]: "joinPrefix [] p = p"
  by (simp add: joinPrefix_def)

lemma joinPrefix_stem: "a \<noteq> [] \<Longrightarrow> joinPrefix a p = stem a @ CHR ''/'' # bare p"
  by (cases a rule: rev_cases; cases p) (auto simp: joinPrefix_def stem_def bare_def HasSuffix_char HasPrefix_char)

lemma stem_bare:
  assumes "b \<noteq> []"
  shows "stem (x @ CHR ''/'' # bare b) @ CHR ''/'' # w = x @ CHR ''/'' # bare (stem b @ CHR ''/'' # w)"
proof -
  obtain t d where "b = t @ [d]" using assms by (metis rev_exhaust)
  then show ?thesis by (cases t) (auto simp: stem_def bare_def butlast_append)
qed

lemma group_nests: "joinPrefix (group_Group a b) c = joinPrefix a (joinPrefix b c)"
proof (cases "a = []")
  case a: False
  show ?thesis
  proof (cases "b = []")
    case True
    then show ?thesis using a by (simp add: group_Group_def joinPrefix_stem stem_def bare_def)
  next
    case False
    then show ?thesis using a stem_bare [OF False] by (simp add: group_Group_def joinPrefix_stem)
  qed
qed (simp add: group_Group_def)

text \<open>
  Fact (expressions need a group).  A route given as an expression without a group is never
  found, because only matches with a group are taken.
\<close>

lemma regex_route_needs_group:
  assumes "\<And>path ms. engine p path = Some ms \<Longrightarrow> length ms = 1"
  shows "find_pattern engine rps path m ((UserRe p, rh) # rest) = find_pattern engine rps path m rest"
  using assms by (auto split: option.split)

text \<open>
  Fact (a panic keeps the gauge up).  A panic that recovery catches outside the metrics
  middleware leaves the active-connection counter incremented.
\<close>

lemma panic_leaks_gauge:
  assumes "\<And>c s. next c s = (Panic, s)" and "\<And>c s. globalActiveConns (close c s) = globalActiveConns s"
  shows "globalActiveConns (snd (NewHandlerChain next [hl_RecoveryMiddleware close, hl_MetricsMiddleware] c s)) =
    globalActiveConns s + 1"
  by (simp add: NewHandlerChain_foldr hl_RecoveryMiddleware_def hl_MetricsMiddleware_def assms hl_print_def Let_def)

end
