(* ===== verification/HLConn.thy ===== *)
theory HLConn
  imports Connection "HOL-Library.AList"
begin

text \<open>
  The high-level connection, \<^verbatim>\<open>highlevel/conn.go\<close> and \<^verbatim>\<open>types.go\<close>: the inbound queue with its
  overflow worker, reading with a limit, closing, route parameters, and writing through pooled
  buffers.  The event loop calls \<^verbatim>\<open>enqueueIncoming\<close> from one goroutine; it, the overflow
  worker, the readers and the closing goroutine are interleaved at their channel operations.
\<close>

section \<open>The connection\<close>

datatype worker_pc = W_None | W_Wait | W_Put Buffer | W_Drain | W_Stopped
datatype close_pc = C_None | C_Drain | C_Ws | C_Done

text \<open>
  \<open>hc_enq\<close> is the buffer of an \<^verbatim>\<open>enqueueIncoming\<close> call waiting at the overflow channel,
  \<open>hc_done\<close> that the underlying connection's \<^verbatim>\<open>Done\<close> channel is closed.  The \<open>g_\<close> fields
  record what was handed in, what was read, what was released unread, and what
  \<^verbatim>\<open>ReadMessage\<close> released after copying it.
\<close>

record hconn =
  hc_closed :: bool
  hc_readLimit :: int
  hc_readTimeout :: int
  hc_writeTimeout :: int
  hc_incoming :: "Buffer list option"
  hc_overflow :: "Buffer list option"
  hc_worker :: worker_pc
  hc_enq :: "Buffer option"
  hc_handlerOnce :: bool
  hc_closer :: close_pc
  hc_done :: bool
  hc_params :: "(string \<times> string) list"
  g_enq :: "Buffer list"
  g_read :: "Buffer list"
  g_released :: "Buffer list"
  g_consumed :: "Buffer list"

definition incoming_cap :: nat where "incoming_cap = 128"

definition newConnWithParams :: "(string \<times> string) list \<Rightarrow> hconn" where
  "newConnWithParams params =
     \<lparr>hc_closed = False, hc_readLimit = push_bit 20 32, hc_readTimeout = 0, hc_writeTimeout = 0,
      hc_incoming = Some [], hc_overflow = None,
      hc_worker = W_None, hc_enq = None, hc_handlerOnce = False, hc_closer = C_None, hc_done = False,
      hc_params = params, g_enq = [], g_read = [], g_released = [], g_consumed = []\<rparr>"

definition newConn :: hconn where
  "newConn = newConnWithParams []"

definition newClientConn :: hconn where
  "newClientConn = (newConnWithParams [])\<lparr>hc_incoming := None\<rparr>"

definition SetReadLimit :: "hconn \<Rightarrow> int \<Rightarrow> hconn" where
  "SetReadLimit c limit = c\<lparr>hc_readLimit := limit\<rparr>"

text \<open>
  \<^verbatim>\<open>time.Until\<close> in nanoseconds, saturating at the bounds of a \<^verbatim>\<open>Duration\<close>.  \<open>setter\<close> is the
  method of the transport, when it has one; the clock is an argument.
\<close>

definition time_Until :: "int \<Rightarrow> int \<Rightarrow> int" where
  "time_Until now t = max (- (2 ^ 63)) (min (2 ^ 63 - 1) (t - now))"

definition SetReadDeadline :: "(int \<Rightarrow> goerr option) option \<Rightarrow> int \<Rightarrow> int \<Rightarrow> hconn \<Rightarrow> goerr option \<times> hconn" where
  "SetReadDeadline setter now t c =
     (case setter of None \<Rightarrow> None | Some f \<Rightarrow> f t, c\<lparr>hc_readTimeout := time_Until now t\<rparr>)"

definition SetWriteDeadline :: "(int \<Rightarrow> goerr option) option \<Rightarrow> int \<Rightarrow> int \<Rightarrow> hconn \<Rightarrow> goerr option \<times> hconn" where
  "SetWriteDeadline setter now t c =
     (case setter of None \<Rightarrow> None | Some f \<Rightarrow> f t, c\<lparr>hc_writeTimeout := time_Until now t\<rparr>)"

definition hc_release :: "hconn \<Rightarrow> Buffer \<Rightarrow> hconn" where
  "hc_release c b = c\<lparr>g_released := g_released c @ [b]\<rparr>"

section \<open>The inbound queue\<close>

definition overflow_cap :: nat where
  "overflow_cap = (let capacity = incoming_cap * 8 in if capacity < 2048 then 2048 else capacity)"

definition startOverflowWorker :: "hconn \<Rightarrow> hconn" where
  "startOverflowWorker c =
     (case hc_overflow c of
        None \<Rightarrow> c\<lparr>hc_overflow := Some [], hc_worker := W_Wait\<rparr>
      | Some _ \<Rightarrow> c)"

definition enqueueIncoming :: "hconn \<Rightarrow> Buffer \<Rightarrow> hconn" where
  "enqueueIncoming c buf =
     (let c = c\<lparr>g_enq := g_enq c @ [buf]\<rparr>
      in case hc_incoming c of
           None \<Rightarrow> hc_release c buf
         | Some q \<Rightarrow>
             if length q < incoming_cap then c\<lparr>hc_incoming := Some (q @ [buf])\<rparr>
             else (startOverflowWorker c)\<lparr>hc_enq := Some buf\<rparr>)"

text \<open>The two cases of the select at the overflow channel.\<close>

definition enq_put :: "hconn \<Rightarrow> hconn option" where
  "enq_put c =
     (case (hc_enq c, hc_overflow c) of
        (Some b, Some q) \<Rightarrow>
          if length q < overflow_cap then Some (c\<lparr>hc_overflow := Some (q @ [b]), hc_enq := None\<rparr>) else None
      | _ \<Rightarrow> None)"

definition enq_done :: "hconn \<Rightarrow> hconn option" where
  "enq_done c =
     (case hc_enq c of
        Some b \<Rightarrow> if hc_done c then Some ((hc_release c b)\<lparr>hc_enq := None\<rparr>) else None
      | None \<Rightarrow> None)"

text \<open>The overflow worker; \<open>d\<close> says that its select takes the case of \<^verbatim>\<open>done\<close>.\<close>

fun worker_step :: "bool \<Rightarrow> worker_pc \<Rightarrow> hconn \<Rightarrow> hconn option" where
  "worker_step d W_Wait c =
     (if d then (if hc_done c then Some (c\<lparr>hc_worker := W_Drain\<rparr>) else None)
      else case hc_overflow c of
        Some (b # q) \<Rightarrow> Some (c\<lparr>hc_overflow := Some q, hc_worker := W_Put b\<rparr>)
      | _ \<Rightarrow> None)"
| "worker_step d (W_Put b) c =
     (if d then (if hc_done c then Some ((hc_release c b)\<lparr>hc_worker := W_Stopped\<rparr>) else None)
      else case hc_incoming c of
        Some q \<Rightarrow> if length q < incoming_cap then Some (c\<lparr>hc_incoming := Some (q @ [b]), hc_worker := W_Wait\<rparr>) else None
      | None \<Rightarrow> None)"
| "worker_step d W_Drain c =
     (case hc_overflow c of
        Some (b # q) \<Rightarrow> Some ((hc_release c b)\<lparr>hc_overflow := Some q\<rparr>)
      | _ \<Rightarrow> Some (c\<lparr>hc_worker := W_Stopped\<rparr>))"
| "worker_step d _ c = None"

section \<open>Reading\<close>

datatype read_choice = TakeItem | TakeTimeout | TakeClosed

text \<open>\<^const>\<open>None\<close>: the case is not ready.  The timer exists only when the timeout is positive.\<close>

definition readBufferFromIncoming :: "read_choice \<Rightarrow> hconn \<Rightarrow> (Buffer outcome \<times> hconn) option" where
  "readBufferFromIncoming ch c =
     (case ch of
        TakeItem \<Rightarrow>
          (case hc_incoming c of
             Some (b # q) \<Rightarrow>
               (let c' = c\<lparr>hc_incoming := Some q, g_read := g_read c @ [b]\<rparr>
                in Some (if Data b = None then Err (ErrNew ''connection closed'') else Ok b, c'))
           | _ \<Rightarrow> None)
      | TakeTimeout \<Rightarrow> if hc_readTimeout c > 0 then Some (Err (ErrNew ''read timeout''), c) else None
      | TakeClosed \<Rightarrow> if hc_done c then Some (Err (ErrNew ''connection closed''), c) else None)"

definition readBuffer :: "read_choice \<Rightarrow> hconn \<Rightarrow> (Buffer outcome \<times> hconn) option" where
  "readBuffer ch c =
     (if hc_closed c then Some (Err (ErrNew ''connection closed''), c)
      else readBufferFromIncoming ch c)"

text \<open>\<^verbatim>\<open>ReadMessage\<close>: a copy of the payload; the buffer is released on every path.\<close>

definition ReadMessage :: "heap \<Rightarrow> read_choice \<Rightarrow> hconn \<Rightarrow> ((int \<times> bytes) outcome \<times> hconn) option" where
  "ReadMessage h ch c =
     (case readBuffer ch c of
        None \<Rightarrow> None
      | Some (Ok buf, c') \<Rightarrow>
          (let payload = Buffer_Copy h buf;
               c'' = c'\<lparr>g_consumed := g_consumed c' @ [buf]\<rparr>
           in Some (if hc_readLimit c > 0 \<and> int (length payload) > hc_readLimit c
                    then Err (ErrNew ''message exceeds read limit'') else Ok (2, payload), c''))
      | Some (Err e, c') \<Rightarrow> Some (Err e, c')
      | Some (Panic, c') \<Rightarrow> Some (Panic, c'))"

section \<open>Closing\<close>

definition hl_Close :: "hconn \<Rightarrow> hconn" where
  "hl_Close c = (if hc_closer c = C_None then c\<lparr>hc_closed := True, hc_closer := C_Drain\<rparr> else c)"

fun close_step :: "close_pc \<Rightarrow> hconn \<Rightarrow> hconn option" where
  "close_step C_Drain c =
     (case hc_incoming c of
        Some (b # q) \<Rightarrow>
          Some ((if Data b \<noteq> None then hc_release c b else c)\<lparr>hc_incoming := Some q\<rparr>)
      | _ \<Rightarrow> Some (c\<lparr>hc_closer := C_Ws\<rparr>))"
| "close_step C_Ws c = Some (c\<lparr>hc_done := True, hc_closer := C_Done\<rparr>)"
| "close_step _ c = None"

section \<open>Handlers and parameters\<close>

text \<open>The second component says that a goroutine for the handler was started.\<close>

definition runHandlerOnce :: "hconn \<Rightarrow> hconn \<times> bool" where
  "runHandlerOnce c = (if hc_handlerOnce c then (c, False) else (c\<lparr>hc_handlerOnce := True\<rparr>, True))"

fun find_param :: "(string \<times> string) list \<Rightarrow> string \<Rightarrow> string" where
  "find_param [] name = []"
| "find_param ((k, v) # ps) name = (if k = name then v else find_param ps name)"

definition Param :: "hconn \<Rightarrow> string \<Rightarrow> string" where
  "Param c name = find_param (hc_params c) name"

fun add_params :: "(string \<times> string) list \<Rightarrow> (string \<times> string) list \<Rightarrow> (string \<times> string) list" where
  "add_params result [] = result"
| "add_params result ((k, v) # ps) = add_params (AList.update k v result) ps"

definition AllParams :: "hconn \<Rightarrow> (string \<times> string) list" where
  "AllParams c = add_params [] (hc_params c)"

section \<open>Runs\<close>

text \<open>The server's event handler, the one caller of \<^verbatim>\<open>enqueueIncoming\<close>, hands in buffers with data.\<close>

datatype hl_act = HEnq Buffer | HEnqPut | HEnqDone | HWork bool | HRead read_choice | HReadMsg read_choice | HClose | HCloseStep | HWsDone
  | HReadLimit int | HReadDeadline int int

fun hl_step :: "heap \<Rightarrow> hl_act \<Rightarrow> hconn \<Rightarrow> hconn option" where
  "hl_step h (HEnq b) c = (if hc_enq c = None \<and> Data b \<noteq> None then Some (enqueueIncoming c b) else None)"
| "hl_step h HEnqPut c = enq_put c"
| "hl_step h HEnqDone c = enq_done c"
| "hl_step h (HWork d) c = worker_step d (hc_worker c) c"
| "hl_step h (HRead ch) c = map_option snd (readBuffer ch c)"
| "hl_step h (HReadMsg ch) c = map_option snd (ReadMessage h ch c)"
| "hl_step h HClose c = Some (hl_Close c)"
| "hl_step h HCloseStep c = close_step (hc_closer c) c"
| "hl_step h HWsDone c = Some (c\<lparr>hc_done := True\<rparr>)"
| "hl_step h (HReadLimit l) c = Some (SetReadLimit c l)"
| "hl_step h (HReadDeadline now t) c = Some (snd (SetReadDeadline None now t c))"

fun hl_run :: "heap \<Rightarrow> hl_act list \<Rightarrow> hconn \<Rightarrow> hconn option" where
  "hl_run h [] c = Some c"
| "hl_run h (a # as) c = (case hl_step h a c of None \<Rightarrow> None | Some c' \<Rightarrow> hl_run h as c')"

fun chan_items :: "Buffer list option \<Rightarrow> Buffer list" where
  "chan_items None = []"
| "chan_items (Some q) = q"

fun held_by :: "worker_pc \<Rightarrow> Buffer list" where
  "held_by (W_Put b) = [b]"
| "held_by _ = []"

fun one :: "Buffer option \<Rightarrow> Buffer list" where
  "one None = []"
| "one (Some b) = [b]"

definition queued :: "hconn \<Rightarrow> Buffer list" where
  "queued c = chan_items (hc_incoming c) @ held_by (hc_worker c) @ chan_items (hc_overflow c) @ one (hc_enq c)"

definition hl_inv :: "hconn \<Rightarrow> bool" where
  "hl_inv c \<longleftrightarrow>
     mset (g_enq c) = mset (g_read c) + mset (g_released c) + mset (queued c) \<and>
     mset (g_consumed c) \<subseteq># mset (g_read c) \<and>
     (\<forall>b\<in>set (queued c). Data b \<noteq> None) \<and>
     (hc_overflow c = None \<longrightarrow> hc_worker c = W_None \<and> hc_enq c = None)"

lemmas hl_defs = enqueueIncoming_def startOverflowWorker_def enq_put_def readBuffer_def
  readBufferFromIncoming_def Let_def

lemma hl_run_invariant:
  assumes "\<And>a c c'. J c \<Longrightarrow> hl_step h a c = Some c' \<Longrightarrow> J c'"
  shows "hl_run h as c = Some c' \<Longrightarrow> J c \<Longrightarrow> J c'"
  by (induction as arbitrary: c) (auto split: option.splits dest: assms)

lemma readBuffer_effect:
  assumes "readBuffer ch c = Some (r, c')"
  shows "(c' = c \<and> (\<forall>b. r \<noteq> Ok b)) \<or>
    (\<exists>b q. hc_incoming c = Some (b # q) \<and> c' = c\<lparr>hc_incoming := Some q, g_read := g_read c @ [b]\<rparr> \<and>
       (r = Ok b \<or> (\<forall>b. r \<noteq> Ok b)))"
proof (cases "hc_closed c")
  case False
  then have r: "readBufferFromIncoming ch c = Some (r, c')" using assms by (simp add: readBuffer_def)
  show ?thesis
  proof (cases ch)
    case TakeItem
    then obtain b q where "hc_incoming c = Some (b # q)"
      using r by (cases "hc_incoming c") (auto simp: readBufferFromIncoming_def split: list.splits)
    then show ?thesis using r TakeItem by (cases "Data b") (auto simp: readBufferFromIncoming_def Let_def)
  qed (use r in \<open>auto simp: readBufferFromIncoming_def split: if_splits\<close>)
qed (use assms in \<open>auto simp: readBuffer_def\<close>)

lemma hl_inv_read:
  assumes "hl_inv c" and "readBuffer ch c = Some (r, c')"
  shows "hl_inv c' \<and> (\<forall>b. r = Ok b \<longrightarrow> mset (g_consumed c' @ [b]) \<subseteq># mset (g_read c'))"
proof -
  consider "c' = c" "\<forall>b. r \<noteq> Ok b"
    | b q where "hc_incoming c = Some (b # q)" "c' = c\<lparr>hc_incoming := Some q, g_read := g_read c @ [b]\<rparr>"
        "r = Ok b \<or> (\<forall>b. r \<noteq> Ok b)"
    using readBuffer_effect [OF assms(2)] by blast
  then show ?thesis
  proof cases
    case 1
    then show ?thesis using assms(1) by simp
  next
    case (2 b q)
    have "mset (g_consumed c) \<subseteq># mset (g_read c)" using assms(1) by (simp add: hl_inv_def)
    then have "mset (g_consumed c) \<subseteq># mset (g_read c) + {#b#}"
      by (meson mset_subset_eq_add_left subset_mset.order_trans)
    then have "hl_inv c'" using assms(1) 2 by (auto simp: hl_inv_def queued_def)
  then show ?thesis using assms(1) 2 by (auto simp: hl_inv_def)
  qed
qed

lemma hl_inv_close_step: "hl_inv c \<Longrightarrow> close_step pc c = Some c' \<Longrightarrow> hl_inv c'"
proof (cases pc)
  case C_Drain
  assume *: "hl_inv c" "close_step pc c = Some c'"
  show ?thesis
  proof (cases "\<exists>b q. hc_incoming c = Some (b # q)")
    case True
    then obtain b q where "hc_incoming c = Some (b # q)" by blast
    then show ?thesis using * C_Drain by (auto simp: hl_inv_def queued_def hc_release_def)
  next
    case False
    then have "c' = c\<lparr>hc_closer := C_Ws\<rparr>" using * C_Drain by (auto split: option.splits list.splits)
    then show ?thesis using * by (simp add: hl_inv_def queued_def)
  qed
qed (auto simp: hl_inv_def queued_def)

lemma hl_inv_worker: "hl_inv c \<Longrightarrow> worker_step d (hc_worker c) c = Some c' \<Longrightarrow> hl_inv c'"
proof (cases "hc_worker c")
  case W_Wait
  assume *: "hl_inv c" "worker_step d (hc_worker c) c = Some c'"
  then show ?thesis using W_Wait
    by (cases d; cases "hc_overflow c") (auto simp: hl_inv_def queued_def split: if_splits list.splits)
next
  case (W_Put b)
  assume *: "hl_inv c" "worker_step d (hc_worker c) c = Some c'"
  then show ?thesis using W_Put
    by (cases d; cases "hc_incoming c") (auto simp: hl_inv_def queued_def hc_release_def split: if_splits)
next
  case W_Drain
  assume *: "hl_inv c" "worker_step d (hc_worker c) c = Some c'"
  then show ?thesis using W_Drain
    by (cases "hc_overflow c") (auto simp: hl_inv_def queued_def hc_release_def split: if_splits list.splits)
qed auto

lemma hl_inv_enqueue: "hl_inv c \<Longrightarrow> hc_enq c = None \<Longrightarrow> Data b \<noteq> None \<Longrightarrow> hl_inv (enqueueIncoming c b)"
  by (cases "hc_incoming c"; cases "hc_overflow c")
    (auto simp: hl_inv_def queued_def enqueueIncoming_def startOverflowWorker_def hc_release_def Let_def)

lemma ReadMessage_effect:
  assumes "hl_step h (HReadMsg ch) c = Some c'"
  shows "\<exists>r c1. readBuffer ch c = Some (r, c1) \<and>
    c' = (case r of Ok b \<Rightarrow> c1\<lparr>g_consumed := g_consumed c1 @ [b]\<rparr> | _ \<Rightarrow> c1)"
proof -
  obtain x where x: "ReadMessage h ch c = Some (x, c')" using assms by auto
  then obtain r c1 where r: "readBuffer ch c = Some (r, c1)"
    by (cases "readBuffer ch c") (auto simp: ReadMessage_def)
  then show ?thesis using x by (cases r) (auto simp: ReadMessage_def Let_def)
qed

lemma hl_inv_step:
  assumes "hl_inv c" and "hl_step h a c = Some c'"
  shows "hl_inv c'"
proof (cases a)
  case (HEnq b)
  then show ?thesis using assms hl_inv_enqueue by (auto split: if_splits)
next
  case HEnqPut
  then show ?thesis using assms
    by (cases "hc_enq c"; cases "hc_overflow c") (auto simp: hl_inv_def queued_def enq_put_def split: if_splits)
next
  case HEnqDone
  then show ?thesis using assms
    by (cases "hc_enq c") (auto simp: hl_inv_def queued_def enq_done_def hc_release_def split: if_splits)
next
  case (HReadMsg ch)
  from ReadMessage_effect [OF assms(2) [unfolded HReadMsg]] obtain r c1 where
    r: "readBuffer ch c = Some (r, c1)"
    and c': "c' = (case r of Ok b \<Rightarrow> c1\<lparr>g_consumed := g_consumed c1 @ [b]\<rparr> | _ \<Rightarrow> c1)" by blast
  from hl_inv_read [OF assms(1) r] show ?thesis
    using c' by (cases r) (simp_all add: hl_inv_def queued_def)
next
  case (HRead ch)
  then obtain r where "readBuffer ch c = Some (r, c')" using assms(2) by auto
  then show ?thesis using hl_inv_read [OF assms(1)] by blast
next
  case (HWork d)
  then show ?thesis using assms hl_inv_worker by simp
next
  case HCloseStep
  then show ?thesis using assms hl_inv_close_step by simp
next
  case HClose
  then have "c' = hl_Close c" using assms(2) by simp
  then show ?thesis using assms(1) by (cases "hc_closer c = C_None") (simp_all add: hl_Close_def hl_inv_def queued_def)
next
  case HWsDone
  then show ?thesis using assms by (auto simp: hl_inv_def queued_def)
qed (use assms in \<open>auto simp: hl_inv_def queued_def SetReadLimit_def SetReadDeadline_def\<close>)

text \<open>The bounds of the channels, and the order as long as the overflow was never used.\<close>

definition order_inv :: "hconn \<Rightarrow> bool" where
  "order_inv c \<longleftrightarrow>
     length (chan_items (hc_incoming c)) \<le> incoming_cap \<and> length (chan_items (hc_overflow c)) \<le> overflow_cap \<and>
     hc_incoming c \<noteq> None \<and>
     (hc_overflow c = None \<longrightarrow> hc_worker c = W_None \<and> hc_enq c = None) \<and>
     (hc_overflow c = None \<and> hc_closer c = C_None \<longrightarrow> g_read c @ chan_items (hc_incoming c) = g_enq c)"

lemma order_inv_read:
  assumes "order_inv c" and "readBuffer ch c = Some (r, c')"
  shows "order_inv c'"
  using readBuffer_effect [OF assms(2)]
proof
  assume "\<exists>b q. hc_incoming c = Some (b # q) \<and> c' = c\<lparr>hc_incoming := Some q, g_read := g_read c @ [b]\<rparr> \<and>
       (r = Ok b \<or> (\<forall>b. r \<noteq> Ok b))"
  then obtain b q where "hc_incoming c = Some (b # q)" "c' = c\<lparr>hc_incoming := Some q, g_read := g_read c @ [b]\<rparr>" by blast
  then show ?thesis using assms(1) by (simp add: order_inv_def)
qed (use assms(1) in simp)

lemma order_inv_close_step: "order_inv c \<Longrightarrow> close_step (hc_closer c) c = Some c' \<Longrightarrow> order_inv c'"
proof (cases "hc_closer c")
  case C_Drain
  assume *: "order_inv c" "close_step (hc_closer c) c = Some c'"
  show ?thesis
  proof (cases "\<exists>b q. hc_incoming c = Some (b # q)")
    case True
    then obtain b q where "hc_incoming c = Some (b # q)" by blast
    then show ?thesis using * C_Drain by (auto simp: order_inv_def hc_release_def)
  next
    case False
    then have "c' = c\<lparr>hc_closer := C_Ws\<rparr>" using * C_Drain by (auto split: option.splits list.splits)
    then show ?thesis using * by (simp add: order_inv_def)
  qed
qed (auto simp: order_inv_def)

lemma order_inv_worker: "order_inv c \<Longrightarrow> worker_step d (hc_worker c) c = Some c' \<Longrightarrow> order_inv c'"
proof (cases "hc_worker c")
  case W_Wait
  assume *: "order_inv c" "worker_step d (hc_worker c) c = Some c'"
  then show ?thesis using W_Wait
    by (cases d; cases "hc_overflow c") (auto simp: order_inv_def split: if_splits list.splits)
next
  case (W_Put b)
  assume *: "order_inv c" "worker_step d (hc_worker c) c = Some c'"
  then show ?thesis using W_Put
    by (cases d; cases "hc_incoming c") (auto simp: order_inv_def hc_release_def split: if_splits)
next
  case W_Drain
  assume *: "order_inv c" "worker_step d (hc_worker c) c = Some c'"
  then show ?thesis using W_Drain
    by (cases "hc_overflow c") (auto simp: order_inv_def hc_release_def split: if_splits list.splits)
qed auto

lemma order_inv_step:
  assumes "order_inv c" and "hl_step h a c = Some c'"
  shows "order_inv c'"
proof (cases a)
  case (HEnq b)
  then show ?thesis using assms
    by (cases "hc_incoming c"; cases "hc_overflow c")
      (auto simp: order_inv_def enqueueIncoming_def startOverflowWorker_def Let_def split: if_splits)
next
  case HEnqPut
  then show ?thesis using assms
    by (cases "hc_enq c"; cases "hc_overflow c") (auto simp: order_inv_def enq_put_def split: if_splits)
next
  case HEnqDone
  then show ?thesis using assms
    by (cases "hc_enq c") (auto simp: order_inv_def enq_done_def hc_release_def split: if_splits)
next
  case (HReadMsg ch)
  from ReadMessage_effect [OF assms(2) [unfolded HReadMsg]] obtain r c1 where
    r: "readBuffer ch c = Some (r, c1)"
    and c': "c' = (case r of Ok b \<Rightarrow> c1\<lparr>g_consumed := g_consumed c1 @ [b]\<rparr> | _ \<Rightarrow> c1)" by blast
  from order_inv_read [OF assms(1) r] show ?thesis
    using c' by (cases r) (simp_all add: order_inv_def)
next
  case (HRead ch)
  then obtain r where "readBuffer ch c = Some (r, c')" using assms(2) by auto
  then show ?thesis using order_inv_read [OF assms(1)] by blast
next
  case (HWork d)
  then show ?thesis using assms order_inv_worker by simp
next
  case HCloseStep
  then show ?thesis using assms order_inv_close_step by simp
next
  case HClose
  then have "c' = hl_Close c" using assms(2) by simp
  then show ?thesis using assms(1) by (cases "hc_closer c = C_None") (simp_all add: hl_Close_def order_inv_def)
next
  case HWsDone
  then show ?thesis using assms by (auto simp: order_inv_def)
qed (use assms in \<open>auto simp: order_inv_def SetReadLimit_def SetReadDeadline_def\<close>)

section \<open>Writing\<close>

text \<open>
  The frame handed to \<^verbatim>\<open>SendFrame\<close> refers to the payload's memory; the send loop reads it when it
  encodes the frame.
\<close>

record hl_frame =
  hf_opcode :: byte
  hf_len :: int
  hf_payload :: slice

record hl_tx =
  tx_pools :: pools
  tx_pool :: nat
  tx_closed :: bool
  tx_autoRelease :: bool
  tx_writeTimeout :: int
  tx_pending :: "hl_frame list"
  tx_outbox :: "hl_frame list"

definition message_opcode :: "int \<Rightarrow> byte" where
  "message_opcode mt =
     (if mt = 1 then OpcodeText else if mt = 2 then OpcodeBinary else if mt = 8 then OpcodeClose
      else if mt = 9 then OpcodePing else if mt = 10 then OpcodePong else OpcodeBinary)"

text \<open>\<open>buf.Bytes()\<close> of a buffer without data is the empty slice.\<close>

definition buf_slice :: "Buffer \<Rightarrow> slice" where
  "buf_slice b = (case Data b of Some s \<Rightarrow> s | None \<Rightarrow> \<lparr>sl_arr = 0, sl_off = 0, sl_len = 0, sl_cap = 0\<rparr>)"

text \<open>
  A pooled buffer, or an array of its own when the buffer is too short, filled with the data; the
  frame over it; the buffer and whether the frame uses it.
\<close>

definition message_frame :: "hl_tx \<Rightarrow> int \<Rightarrow> bytes \<Rightarrow> (hl_frame \<times> Buffer \<times> bool \<times> pools) outcome option" where
  "message_frame c messageType data =
     bind_loop (pool_Get (tx_pools c) (tx_pool c) (int (length data)) (- 1)) (\<lambda>(buf, w1).
       let usePool = (sl_len (buf_slice buf) \<ge> length data)
       in bind_loop
            (if usePool then Some (Ok (buf_slice buf, w1\<lparr>pl_heap := copy_into (pl_heap w1) (buf_slice buf) data\<rparr>))
             else bind_loop (Buffer_Release w1 buf) (\<lambda>w2.
               Some (Ok (\<lparr>sl_arr = length (pl_heap w2), sl_off = 0, sl_len = length data, sl_cap = length data\<rparr>,
                 w2\<lparr>pl_heap := pl_heap w2 @ [data]\<rparr>))))
            (\<lambda>(dest, w3).
              Some (Ok (\<lparr>hf_opcode = message_opcode messageType, hf_len = int (length data),
                          hf_payload = dest\<lparr>sl_len := length data\<rparr>\<rparr>, buf, usePool, w3))))"

definition release_sent :: "hl_tx \<Rightarrow> Buffer \<Rightarrow> bool \<Rightarrow> pools \<Rightarrow> pools outcome option" where
  "release_sent c buf usePool w = (if usePool \<and> tx_autoRelease c then Buffer_Release w buf else Some (Ok w))"

text \<open>\<open>sent\<close> is what \<^verbatim>\<open>SendFrame\<close> answers; nil means that the frame is in the outbox.\<close>

definition WriteMessage :: "goerr option \<Rightarrow> hl_tx \<Rightarrow> int \<Rightarrow> bytes \<Rightarrow> (goerr option \<times> hl_tx) outcome option" where
  "WriteMessage sent c messageType data =
     (if tx_closed c then Some (Ok (Some (ErrNew ''connection closed''), c))
      else bind_loop (message_frame c messageType data) (\<lambda>(frame, buf, usePool, w3).
        let out = (if sent = None then tx_outbox c @ [frame] else tx_outbox c)
        in bind_loop (release_sent c buf usePool w3) (\<lambda>w4.
             Some (Ok (sent, c\<lparr>tx_pools := w4, tx_outbox := out\<rparr>)))))"

text \<open>
  \<^verbatim>\<open>writeMessage\<close> sends from a goroutine of its own when there is a timeout.  \<open>answer\<close> is \<^const>\<open>None\<close> when
  \<^verbatim>\<open>SendFrame\<close> does not answer in time: then the call gives up, and the goroutine keeps the frame
  (\<open>tx_pending\<close>); without a timeout the call does not return.
\<close>

definition writeMessage :: "goerr option option \<Rightarrow> hl_tx \<Rightarrow> int \<Rightarrow> bytes \<Rightarrow> (goerr option \<times> hl_tx) outcome option" where
  "writeMessage answer c messageType data =
     (if tx_closed c then Some (Ok (Some (ErrNew ''connection closed''), c))
      else bind_loop (message_frame c messageType data) (\<lambda>(frame, buf, usePool, w3).
        bind_loop
          (case answer of
             Some sent \<Rightarrow>
               Some (Ok (sent, c\<lparr>tx_outbox := (if sent = None then tx_outbox c @ [frame] else tx_outbox c)\<rparr>))
           | None \<Rightarrow>
               if tx_writeTimeout c > 0
               then Some (Ok (Some (ErrNew ''write timeout''), c\<lparr>tx_pending := tx_pending c @ [frame]\<rparr>))
               else None)
          (\<lambda>(sendErr, c').
            bind_loop (release_sent c buf usePool w3) (\<lambda>w4. Some (Ok (sendErr, c'\<lparr>tx_pools := w4\<rparr>))))))"

text \<open>The goroutine left behind by a timeout gets its frame into the outbox.\<close>

definition late_send :: "hl_tx \<Rightarrow> hl_tx option" where
  "late_send c =
     (case tx_pending c of
        [] \<Rightarrow> None
      | f # fs \<Rightarrow> Some (c\<lparr>tx_pending := fs, tx_outbox := tx_outbox c @ [f]\<rparr>))"

text \<open>The payload of a queued frame as the send loop would read it now.\<close>

definition payload_now :: "hl_tx \<Rightarrow> hl_frame \<Rightarrow> bytes" where
  "payload_now c f = slice_bytes (pl_heap (tx_pools c)) (hf_payload f)"

lemma write_pooled:
  assumes "\<not> tx_closed c" "tx_autoRelease c"
    and get: "pool_Get (tx_pools c) (tx_pool c) (int (length d)) (- 1) = Some (Ok (b, w1))"
    and b: "Data b = Some s" "BPool b = Some (tx_pool c)" "length d \<le> sl_len s"
    and put: "slab_Put (pl_slabs w1 ! tx_pool c) b = Some (Ok sp)"
  shows "WriteMessage None c mt d = Some (Ok (None,
    c\<lparr>tx_pools := w1\<lparr>pl_heap := copy_into (pl_heap w1) s d, pl_slabs := (pl_slabs w1)[tx_pool c := sp]\<rparr>,
      tx_outbox := tx_outbox c @ [\<lparr>hf_opcode = message_opcode mt, hf_len = int (length d), hf_payload = s\<lparr>sl_len := length d\<rparr>\<rparr>]\<rparr>))"
  using assms by (simp add: WriteMessage_def message_frame_def release_sent_def buf_slice_def Buffer_Release_def Let_def)

lemma copy_into_fresh:
  assumes "length d \<le> n"
  shows "copy_into (h @ [a]) \<lparr>sl_arr = length h, sl_off = 0, sl_len = n, sl_cap = m\<rparr> d = h @ [d @ drop (length d) a]"
  using assms by (simp add: copy_into_def Let_def min_absorb2)

lemma write_fresh:
  assumes "\<not> tx_closed c" "tx_autoRelease c"
    and w: "tx_pool c < length (pl_slabs (tx_pools c))"
    and sp: "rb_inv 0 (slab_queue (pl_slabs (tx_pools c) ! tx_pool c))"
      "rb_items (slab_queue (pl_slabs (tx_pools c) ! tx_pool c)) = []"
      "0 < rb_Cap (slab_queue (pl_slabs (tx_pools c) ! tx_pool c))"
    and d: "int (length d) \<le> slab_size (pl_slabs (tx_pools c) ! tx_pool c)"
  defines "n \<equiv> nat (slab_size (pl_slabs (tx_pools c) ! tx_pool c))" and "h \<equiv> pl_heap (tx_pools c)"
  shows "\<exists>c' b sp'. WriteMessage None c mt d = Some (Ok (None, c')) \<and>
    tx_outbox c' = tx_outbox c @ [\<lparr>hf_opcode = message_opcode mt, hf_len = int (length d),
      hf_payload = \<lparr>sl_arr = length h, sl_off = 0, sl_len = length d, sl_cap = n\<rparr>\<rparr>] \<and>
    pl_heap (tx_pools c') = h @ [d @ replicate (n - length d) 0] \<and>
    pl_slabs (tx_pools c') = (pl_slabs (tx_pools c))[tx_pool c := sp'] \<and>
    rb_inv 0 (slab_queue sp') \<and> rb_items (slab_queue sp') = [b] \<and>
    b = fresh_buffer (tx_pool c) h (pl_slabs (tx_pools c) ! tx_pool c) (- 1) \<and>
    slab_size sp' = slab_size (pl_slabs (tx_pools c) ! tx_pool c) \<and>
    tx_closed c' = tx_closed c \<and> tx_autoRelease c' = tx_autoRelease c \<and> tx_pool c' = tx_pool c"
proof -
  let ?p = "tx_pool c" and ?w = "tx_pools c"
  let ?sp = "pl_slabs ?w ! ?p"
  have sz: "0 \<le> slab_size ?sp" using d by simp
  define b where "b = fresh_buffer ?p h ?sp (- 1)"
  from slab_Get_fresh [OF sp(1,2) sz, of ?p h "int (length d)" "- 1"] obtain sp1 where
    get: "slab_Get ?p h ?sp (int (length d)) (- 1) = Some (Ok (b, h @ [replicate n 0], sp1))"
    "slab_queue sp1 = slab_queue ?sp" "slab_size sp1 = slab_size ?sp" by (auto simp: b_def n_def)
  define w1 where "w1 = ?w\<lparr>pl_heap := h @ [replicate n 0], pl_slabs := (pl_slabs ?w)[?p := sp1]\<rparr>"
  have pget: "pool_Get ?w ?p (int (length d)) (- 1) = Some (Ok (b, w1))"
    using get(1) by (simp add: pool_Get_def w1_def h_def)
  obtain q' where put: "slab_Put sp1 b = Some (Ok (sp1\<lparr>slab_queue := q', slab_totalFree := slab_totalFree sp1 + 1\<rparr>))"
    "rb_inv 0 q'" "rb_items q' = [b]" "rb_Cap q' = rb_Cap (slab_queue ?sp)"
    using slab_Put_room [of sp1 b] sp get(2) by auto
  define sp' where "sp' = sp1\<lparr>slab_queue := q', slab_totalFree := slab_totalFree sp1 + 1\<rparr>"
  let ?s = "\<lparr>sl_arr = length h, sl_off = 0, sl_len = n, sl_cap = n\<rparr>"
  have data: "Data b = Some ?s" "BPool b = Some ?p" by (simp_all add: b_def fresh_buffer_def n_def)
  have len: "length d \<le> n" using d by (simp add: n_def)
  have "slab_Put (pl_slabs w1 ! ?p) b = Some (Ok sp')" using put(1) w by (simp add: w1_def sp'_def)
  from write_pooled [OF assms(1,2) pget data(1,2) _ this, of mt] len
  obtain c' where c': "WriteMessage None c mt d = Some (Ok (None, c'))"
    "c' = c\<lparr>tx_pools := w1\<lparr>pl_heap := copy_into (pl_heap w1) ?s d, pl_slabs := (pl_slabs w1)[?p := sp']\<rparr>,
      tx_outbox := tx_outbox c @ [\<lparr>hf_opcode = message_opcode mt, hf_len = int (length d), hf_payload = ?s\<lparr>sl_len := length d\<rparr>\<rparr>]\<rparr>"
    by simp
  then show ?thesis using put get(3) copy_into_fresh [OF len, of h "replicate n 0" n]
    by (intro exI [of _ c'] exI [of _ b] exI [of _ sp'] conjI) (simp_all add: w1_def sp'_def b_def)
qed

lemma write_reuse:
  assumes "\<not> tx_closed c" "tx_autoRelease c"
    and w: "tx_pool c < length (pl_slabs (tx_pools c))"
    and sp: "rb_inv 0 (slab_queue (pl_slabs (tx_pools c) ! tx_pool c))"
      "rb_items (slab_queue (pl_slabs (tx_pools c) ! tx_pool c)) = [b]"
    and b: "Data b = Some s" "BPool b = Some (tx_pool c)" "length d \<le> sl_len s"
  shows "\<exists>c'. WriteMessage None c mt d = Some (Ok (None, c')) \<and>
    tx_outbox c' = tx_outbox c @ [\<lparr>hf_opcode = message_opcode mt, hf_len = int (length d), hf_payload = s\<lparr>sl_len := length d\<rparr>\<rparr>] \<and>
    pl_heap (tx_pools c') = copy_into (pl_heap (tx_pools c)) s d"
proof -
  let ?p = "tx_pool c" and ?w = "tx_pools c"
  let ?sp = "pl_slabs ?w ! ?p"
  from slab_Get_pooled [OF sp, of ?p "pl_heap ?w" "int (length d)" "- 1"] obtain q1 where
    get: "slab_Get ?p (pl_heap ?w) ?sp (int (length d)) (- 1) = Some (Ok (b, pl_heap ?w, ?sp\<lparr>slab_queue := q1\<rparr>))"
    "rb_inv 0 q1" "rb_items q1 = []" by auto
  define w1 where "w1 = ?w\<lparr>pl_slabs := (pl_slabs ?w)[?p := ?sp\<lparr>slab_queue := q1\<rparr>]\<rparr>"
  have pget: "pool_Get ?w ?p (int (length d)) (- 1) = Some (Ok (b, w1))"
    using get(1) by (simp add: pool_Get_def w1_def)
  obtain sp' where "slab_Put (?sp\<lparr>slab_queue := q1\<rparr>) b = Some (Ok sp')"
    using slab_Put_room [of "?sp\<lparr>slab_queue := q1\<rparr>" b] slab_Put_full [of "?sp\<lparr>slab_queue := q1\<rparr>" b] get(2)
    by (cases "length (rb_items (slab_queue (?sp\<lparr>slab_queue := q1\<rparr>))) < rb_Cap (slab_queue (?sp\<lparr>slab_queue := q1\<rparr>))") auto
  then have "slab_Put (pl_slabs w1 ! ?p) b = Some (Ok sp')" using w by (simp add: w1_def)
  from write_pooled [OF assms(1,2) pget b this, of mt] show ?thesis by (simp add: w1_def)
qed

section \<open>Properties\<close>

text \<open>
  Claim C30 (inbound messages are conserved).  However the event loop, the overflow worker, the
  readers and a close interleave, every buffer handed to a server-side connection is read,
  released unread or still queued, counted with multiplicity; the channels keep within their
  capacities; and as long as the overflow was never needed and the connection is open, what was
  read followed by what is queued is what was handed in, in order.
\<close>

theorem hl_inbound_conserves:
  assumes "hl_run h acts (newConnWithParams params) = Some c"
  shows "mset (g_enq c) = mset (g_read c) + mset (g_released c) + mset (queued c) \<and>
    length (chan_items (hc_incoming c)) \<le> 128 \<and> length (chan_items (hc_overflow c)) \<le> 2048 \<and>
    (hc_overflow c = None \<and> hc_closer c = C_None \<longrightarrow> g_read c @ chan_items (hc_incoming c) = g_enq c)"
proof -
  have "hl_inv (newConnWithParams params)" "order_inv (newConnWithParams params)"
    by (simp_all add: hl_inv_def order_inv_def newConnWithParams_def queued_def)
  then have "hl_inv c" "order_inv c"
    using hl_run_invariant [of hl_inv h acts, OF _ assms] hl_run_invariant [of order_inv h acts, OF _ assms]
      hl_inv_step order_inv_step by blast+
  then show ?thesis by (auto simp: hl_inv_def order_inv_def incoming_cap_def overflow_cap_def Let_def)
qed

definition buf_at :: "nat \<Rightarrow> Buffer" where
  "buf_at i = \<lparr>Data = Some \<lparr>sl_arr = i, sl_off = 0, sl_len = 1, sl_cap = 1\<rparr>, NUMA = 0, BPool = None, Class = 0\<rparr>"

theorem hl_inbound_conserves_witness:
  "\<exists>c. hl_run [] [HEnq (buf_at 0), HEnq (buf_at 1), HRead TakeItem] (newConnWithParams []) = Some c \<and>
     g_read c @ chan_items (hc_incoming c) = [buf_at 0, buf_at 1]"
proof -
  obtain c where c: "hl_run [] [HEnq (buf_at 0), HEnq (buf_at 1), HRead TakeItem] (newConnWithParams []) = Some c"
    and st: "hc_overflow c = None" "hc_closer c = C_None" "g_enq c = [buf_at 0, buf_at 1]"
    by (simp add: hl_defs newConnWithParams_def incoming_cap_def buf_at_def)
  show ?thesis using hl_inbound_conserves [OF c] c st by simp
qed

definition overtake_run :: "hl_act list" where
  "overtake_run = map (HEnq \<circ> buf_at) [0..<129] @ [HEnqPut, HWork False, HRead TakeItem, HEnq (buf_at 129)] @
     [HRead TakeItem, HWork False]"

lemma hl_run_append: "hl_run h (as @ bs) c = (case hl_run h as c of None \<Rightarrow> None | Some c' \<Rightarrow> hl_run h bs c')"
  by (induction as arbitrary: c) (auto split: option.split)

lemma fill_incoming:
  assumes "hc_incoming c = Some q" "hc_enq c = None" "length q + length bs \<le> incoming_cap" "\<forall>b\<in>set bs. Data b \<noteq> None"
  shows "hl_run h (map HEnq bs) c = Some (c\<lparr>hc_incoming := Some (q @ bs), g_enq := g_enq c @ bs\<rparr>)"
  using assms
proof (induction bs arbitrary: c q)
  case (Cons b bs)
  have "enqueueIncoming c b = c\<lparr>hc_incoming := Some (q @ [b]), g_enq := g_enq c @ [b]\<rparr>"
    using Cons.prems by (simp add: enqueueIncoming_def)
  then show ?case using Cons.prems Cons.IH [of "c\<lparr>hc_incoming := Some (q @ [b]), g_enq := g_enq c @ [b]\<rparr>" "q @ [b]"] by simp
qed simp

text \<open>
  Fact (the overflow lets messages overtake).  With the queue full, a message goes to the
  overflow; once a reader made room, a later message takes the direct path and is read before
  it.
\<close>

theorem hl_overflow_overtakes:
  "\<exists>c. hl_run h overtake_run (newConnWithParams []) = Some c \<and>
     g_enq c = map buf_at [0..<130] \<and>
     g_read c @ chan_items (hc_incoming c) = map buf_at [0..<128] @ [buf_at 129, buf_at 128]"
proof -
  let ?c0 = "newConnWithParams []"
  define qs where "qs = map buf_at [2..<128]"
  have bs: "map buf_at [0..<128] = buf_at 0 # buf_at 1 # qs"
    by (simp add: qs_def upt_conv_Cons numeral_2_eq_2)
  have all: "map buf_at [0..<129] = map buf_at [0..<128] @ [buf_at 128]" "map buf_at [0..<130] = map buf_at [0..<128] @ [buf_at 128, buf_at 129]"
    using upt_Suc_append [of 0 128] upt_Suc_append [of 0 129] by simp_all
  have len: "length qs = 126" by (simp add: qs_def)
  have data: "Data (buf_at i) = None \<longleftrightarrow> False" for i by (simp add: buf_at_def)
  have "hl_run h (map HEnq (map buf_at [0..<128])) ?c0 =
      Some (?c0\<lparr>hc_incoming := Some (map buf_at [0..<128]), g_enq := map buf_at [0..<128]\<rparr>)"
    by (subst fill_incoming [of _ "[]"]) (auto simp: newConnWithParams_def incoming_cap_def buf_at_def)
  then have fill: "hl_run h (map HEnq (map buf_at [0..<128])) ?c0 =
      Some (?c0\<lparr>hc_incoming := Some (buf_at 0 # buf_at 1 # qs), g_enq := buf_at 0 # buf_at 1 # qs\<rparr>)"
    by (simp only: bs)
  have run: "overtake_run = map HEnq (map buf_at [0..<128]) @
      [HEnq (buf_at 128), HEnqPut, HWork False, HRead TakeItem, HEnq (buf_at 129), HRead TakeItem, HWork False]"
    using all(1) by (simp add: overtake_run_def flip: map_map)
  show ?thesis unfolding run hl_run_append fill
    by (simp add: hl_defs data len newConnWithParams_def incoming_cap_def overflow_cap_def)
      (simp only: all bs, simp)
qed

text \<open>
  Fact (a deadline in the past).  \<^verbatim>\<open>SetReadDeadline\<close> keeps the time left, and a timeout that is not
  positive means none: after setting a deadline that has passed, a read on an open connection with
  an empty queue finds no case ready, instead of failing at once.
\<close>

theorem hl_past_deadline_waits:
  assumes "t \<le> now" and "\<not> hc_closed c" and "\<not> hc_done c" and "hc_incoming c = Some []"
  shows "readBuffer ch (snd (SetReadDeadline setter now t c)) = None"
  using assms by (cases ch) (simp_all add: readBuffer_def readBufferFromIncoming_def SetReadDeadline_def time_Until_def)

text \<open>
  Fact (writeMessage is WriteMessage).  When \<^verbatim>\<open>SendFrame\<close> answers in time both calls do the same.
\<close>

theorem writeMessage_in_time: "writeMessage (Some sent) c mt d = WriteMessage sent c mt d"
proof (cases "message_frame c mt d")
  case (Some r)
  then show ?thesis by (cases r; cases c) (auto simp: writeMessage_def WriteMessage_def Let_def)
qed (simp add: writeMessage_def WriteMessage_def)

text \<open>
  Fact (a timed-out write may still be sent).  The call reports a timeout, gives the buffer back
  to the pool, and leaves a goroutine that can queue the frame over that buffer later.
\<close>

theorem write_timeout_late:
  assumes "\<not> tx_closed c" and "0 < tx_writeTimeout c" and "tx_pending c = []"
    and "WriteMessage None c mt d = Some (Ok (None, c1))"
  shows "\<exists>c2 c3. writeMessage None c mt d = Some (Ok (Some (ErrNew ''write timeout''), c2)) \<and> tx_outbox c2 = tx_outbox c \<and>
    late_send c2 = Some c3 \<and> tx_outbox c3 = tx_outbox c1 \<and> tx_pools c3 = tx_pools c1"
proof -
  obtain frame buf usePool w3 where m: "message_frame c mt d = Some (Ok (frame, buf, usePool, w3))"
    using assms(1,4) by (auto simp: WriteMessage_def bind_loop_eq_Ok)
  obtain w4 where r: "release_sent c buf usePool w3 = Some (Ok w4)"
    using assms(1,4) m by (auto simp: WriteMessage_def Let_def bind_loop_eq_Ok)
  show ?thesis using assms m r by (auto simp: WriteMessage_def writeMessage_def late_send_def)
qed


definition fresh_tx :: hl_tx where
  "fresh_tx = \<lparr>tx_pools = one_pool, tx_pool = 0, tx_closed = False, tx_autoRelease = True, tx_writeTimeout = 0, tx_pending = [], tx_outbox = []\<rparr>"


end
