(* ===== verification/Transport.thy ===== *)
theory Transport
  imports Connection Handshake
begin

text \<open>
  Transports: the interface of \<^verbatim>\<open>api/transport.go\<close> as a locale, the thread-safe wrapper and the
  factory of \<^verbatim>\<open>internal/transport/transport.go\<close>, the listener and its buffered transport
  (\<^verbatim>\<open>websocket_listener.go\<close>, \<^verbatim>\<open>lowlevel/server/listener.go\<close>) and the epoll transport of
  \<^verbatim>\<open>transport_linux.go\<close>.  What the kernel and the network answer is an argument: one answer
  per system call, as a list where a loop makes several.
\<close>

section \<open>The interface\<close>

text \<open>
  What callers rely on: a closed transport refuses to send and to receive, touching nothing,
  and closing again does nothing.  \<open>'e\<close> is the state outside of the transport (the buffer
  pools), \<open>'i\<close> the answers of the system.
\<close>

locale transport =
  fixes is_closed :: "'t \<Rightarrow> bool"
    and send :: "'i \<Rightarrow> 't \<Rightarrow> bytes list \<Rightarrow> (unit outcome \<times> 't) option"
    and recv :: "'j \<Rightarrow> 'e \<Rightarrow> 't \<Rightarrow> (slice list outcome \<times> 't \<times> 'e) option"
    and close :: "'t \<Rightarrow> 't"
  assumes close_closed: "is_closed (close t)"
    and close_again: "is_closed t \<Longrightarrow> close t = t"
    and send_closed: "is_closed t \<Longrightarrow> send i t bufs = Some (Err ErrTransportClosed, t)"
    and recv_closed: "is_closed t \<Longrightarrow> recv j e t = Some (Err ErrTransportClosed, t, e)"
begin

lemma close_idem: "close (close t) = close t"
  by (simp add: close_again close_closed)

lemma after_close:
  "send i (close t) bufs = Some (Err ErrTransportClosed, close t)"
  "recv j e (close t) = Some (Err ErrTransportClosed, close t, e)"
  by (simp_all add: send_closed recv_closed close_closed)

text \<open>Any calls on a closed transport: every send and receive is refused and the state stays.\<close>

fun closed_calls :: "('i \<times> bytes list + 'j + unit) list \<Rightarrow> 't \<Rightarrow> 'e \<Rightarrow> ('t \<times> 'e) option" where
  "closed_calls [] t e = Some (t, e)"
| "closed_calls (Inl (i, bufs) # cs) t e =
     (case send i t bufs of Some (Err ErrTransportClosed, t') \<Rightarrow> closed_calls cs t' e | _ \<Rightarrow> None)"
| "closed_calls (Inr (Inl j) # cs) t e =
     (case recv j e t of Some (Err ErrTransportClosed, t', e') \<Rightarrow> closed_calls cs t' e' | _ \<Rightarrow> None)"
| "closed_calls (Inr (Inr _) # cs) t e = closed_calls cs (close t) e"

lemma closed_stays: "is_closed t \<Longrightarrow> closed_calls cs t e = Some (t, e)"
  by (induction cs t e rule: closed_calls.induct) (simp_all add: send_closed recv_closed close_again)

end

text \<open>The text of an error value.\<close>

fun error_text :: "goerr \<Rightarrow> string" where
  "error_text ErrTransportClosed = ''transport is closed''"
| "error_text ErrBufferPoolClosed = ''buffer pool is closed''"
| "error_text ErrInvalidArgument = ''invalid argument''"
| "error_text ErrResourceExhausted = ''resource exhausted''"
| "error_text ErrOperationTimeout = ''operation timeout''"
| "error_text ErrNotSupported = ''operation not supported''"
| "error_text ErrAlreadyExists = ''resource already exists''"
| "error_text ErrNotFound = ''resource not found''"
| "error_text EOF = ''EOF''"
| "error_text ErrUnexpectedEOF = ''unexpected EOF''"
| "error_text (ErrNew s) = s"
| "error_text (ErrWrap s e) = s @ '': '' @ error_text e"

text \<open>\<^verbatim>\<open>strings.Contains\<close>\<close>

fun Contains :: "string \<Rightarrow> string \<Rightarrow> bool" where
  "Contains [] p = (p = [])"
| "Contains (c # s) p = (HasPrefix (c # s) p \<or> Contains s p)"

section \<open>The safe wrapper\<close>

text \<open>\<^verbatim>\<open>safeWrapper\<close> holds the implementation until it is closed.\<close>

record 't safeWrapper =
  sw_impl :: "'t option"
  sw_closedImpl :: "'t option"

definition sw_new :: "'t \<Rightarrow> 't safeWrapper" where
  "sw_new impl = \<lparr>sw_impl = Some impl, sw_closedImpl = None\<rparr>"

definition sw_Send :: "('i \<Rightarrow> 't \<Rightarrow> bytes list \<Rightarrow> (unit outcome \<times> 't) option) \<Rightarrow>
    'i \<Rightarrow> 't safeWrapper \<Rightarrow> bytes list \<Rightarrow> (unit outcome \<times> 't safeWrapper) option" where
  "sw_Send send i w bufs =
     (case sw_impl w of
        None \<Rightarrow> Some (Err ErrTransportClosed, w)
      | Some impl \<Rightarrow> map_option (\<lambda>(r, impl'). (r, w\<lparr>sw_impl := Some impl'\<rparr>)) (send i impl bufs))"

definition sw_Recv :: "('j \<Rightarrow> 'e \<Rightarrow> 't \<Rightarrow> (slice list outcome \<times> 't \<times> 'e) option) \<Rightarrow>
    'j \<Rightarrow> 'e \<Rightarrow> 't safeWrapper \<Rightarrow> (slice list outcome \<times> 't safeWrapper \<times> 'e) option" where
  "sw_Recv recv j e w =
     (case sw_impl w of
        None \<Rightarrow> Some (Err ErrTransportClosed, w, e)
      | Some impl \<Rightarrow> map_option (\<lambda>(r, impl', e'). (r, w\<lparr>sw_impl := Some impl'\<rparr>, e')) (recv j e impl))"

definition sw_Close :: "('t \<Rightarrow> 't) \<Rightarrow> 't safeWrapper \<Rightarrow> 't safeWrapper" where
  "sw_Close close w =
     (case sw_impl w of
        None \<Rightarrow> w
      | Some impl \<Rightarrow> \<lparr>sw_impl = None, sw_closedImpl = Some (close impl)\<rparr>)"

text \<open>\<^verbatim>\<open>GetBuffer\<close> asserts an optional method; on a nil or unsupporting implementation it panics.\<close>

definition sw_GetBuffer :: "('t \<Rightarrow> Buffer option) \<Rightarrow> 't safeWrapper \<Rightarrow> Buffer outcome" where
  "sw_GetBuffer getter w =
     (case sw_impl w of
        None \<Rightarrow> Panic
      | Some impl \<Rightarrow> (case getter impl of Some b \<Rightarrow> Ok b | None \<Rightarrow> Panic))"

interpretation sw: transport "\<lambda>w. sw_impl w = None" "sw_Send snd0" "sw_Recv rcv0" "sw_Close cls0" for snd0 rcv0 cls0
  by unfold_locales (auto simp: sw_Send_def sw_Recv_def sw_Close_def split: option.split)

section \<open>The factory\<close>

definition detectRuntimeTransportType :: "bool \<Rightarrow> bool \<Rightarrow> string" where
  "detectRuntimeTransportType linux hasIoUring = (if linux \<and> hasIoUring then ''io_uring'' else ''default'')"

text \<open>
  The three constructors share one shape: \<open>uring\<close>, \<open>epoll\<close> and \<open>internal\<close> are the platform
  constructors they call.
\<close>

definition factory_impl :: "string \<Rightarrow> 't outcome \<Rightarrow> 't outcome \<Rightarrow> 't outcome \<Rightarrow> 't outcome" where
  "factory_impl transportType uring epoll internal =
     (if transportType = ''io_uring'' then (case uring of Err _ \<Rightarrow> epoll | r \<Rightarrow> r) else internal)"

definition factory_Create :: "string \<Rightarrow> 't outcome \<Rightarrow> 't outcome \<Rightarrow> 't outcome \<Rightarrow> 't safeWrapper outcome" where
  "factory_Create tt uring epoll internal =
     (case factory_impl tt uring epoll internal of
        Ok impl \<Rightarrow> Ok (sw_new impl)
      | Err e \<Rightarrow> Err (ErrWrap ''transport init'' e)
      | Panic \<Rightarrow> Panic)"

definition factory_CreateFromConn :: "string \<Rightarrow> 't outcome \<Rightarrow> 't outcome \<Rightarrow> 't outcome \<Rightarrow> 't safeWrapper outcome" where
  "factory_CreateFromConn tt uring epoll internal =
     (case factory_impl tt uring epoll internal of
        Ok impl \<Rightarrow> Ok (sw_new impl)
      | Err e \<Rightarrow> Err (ErrWrap ''transport upgrade'' e)
      | Panic \<Rightarrow> Panic)"

definition factory_CreateClient :: "string \<Rightarrow> 't outcome \<Rightarrow> 't outcome \<Rightarrow> 't outcome \<Rightarrow> 't safeWrapper outcome" where
  "factory_CreateClient tt uring epoll internal =
     (case factory_impl tt uring epoll internal of
        Ok impl \<Rightarrow> Ok (sw_new impl)
      | Err e \<Rightarrow> Err (ErrWrap ''create client transport'' e)
      | Panic \<Rightarrow> Panic)"

text \<open>\<^verbatim>\<open>newTransportInternal\<close> and its two siblings: io_uring when supported, else epoll.\<close>

definition newTransportInternal :: "bool \<Rightarrow> 't outcome \<Rightarrow> 't outcome \<Rightarrow> 't outcome" where
  "newTransportInternal hasIoUring uring epoll =
     (if hasIoUring then (case uring of Err _ \<Rightarrow> epoll | r \<Rightarrow> r) else epoll)"

definition newTransportFromConnInternal :: "bool \<Rightarrow> 't outcome \<Rightarrow> 't outcome \<Rightarrow> 't outcome" where
  "newTransportFromConnInternal hasIoUring uring epoll =
     (if hasIoUring then (case uring of Err _ \<Rightarrow> epoll | r \<Rightarrow> r) else epoll)"

definition newClientTransportInternal :: "bool \<Rightarrow> 't outcome \<Rightarrow> 't outcome \<Rightarrow> 't outcome" where
  "newClientTransportInternal hasIoUring uring epoll =
     (if hasIoUring then (case uring of Err _ \<Rightarrow> epoll | r \<Rightarrow> r) else epoll)"

definition newIoURingTransportFromConnInternal :: "'t outcome" where
  "newIoURingTransportFromConnInternal = Err (ErrNew ''io_uring wrapping not implemented'')"

definition newIoURingClientTransportInternal :: "'t outcome" where
  "newIoURingClientTransportInternal = Err (ErrNew ''io_uring client not implemented'')"

definition normalizeNUMANode :: "int \<Rightarrow> int \<Rightarrow> int" where
  "normalizeNUMANode maxNodes numaNode =
     (if maxNodes \<le> 0 then 0 else if numaNode < 0 \<or> numaNode \<ge> maxNodes then 0 else numaNode)"

lemma normalizeNUMANode_eq: "normalizeNUMANode n r = NUMANode r n"
  by (simp add: normalizeNUMANode_def NUMANode_def)

text \<open>Wrapping a connection and dialling a client always end at the epoll transport.\<close>

lemma from_conn_is_epoll:
  "newTransportFromConnInternal u newIoURingTransportFromConnInternal epoll = epoll"
  "newClientTransportInternal u newIoURingClientTransportInternal epoll = epoll"
  by (simp_all add: newTransportFromConnInternal_def newClientTransportInternal_def
      newIoURingTransportFromConnInternal_def newIoURingClientTransportInternal_def)

section \<open>The buffered transport of the listener\<close>

text \<open>
  \<open>bt_buffered\<close> is what the \<^verbatim>\<open>bufio.Reader\<close> of the handshake holds, \<open>bt_net\<close> what the peer
  sent and nobody read yet, \<open>bt_wire\<close> what was written.  A read of the socket returns some
  first part of \<open>bt_net\<close> or fails.
\<close>

record bufferedConnTransport =
  bt_closed :: bool
  bt_pool :: nat
  bt_numa :: int
  bt_buffered :: bytes
  bt_net :: bytes
  bt_wire :: bytes

datatype read_ans = ReadN nat | ReadErr goerr

definition bufio_size :: nat where "bufio_size = 4096"

text \<open>\<^verbatim>\<open>bufio.Reader.Read\<close> into \<open>n\<close> bytes; \<^const>\<open>None\<close>: the socket cannot give that answer.\<close>

definition bufio_Read :: "read_ans \<Rightarrow> nat \<Rightarrow> bufferedConnTransport \<Rightarrow> (bytes outcome \<times> bufferedConnTransport) option" where
  "bufio_Read ans n t =
     (if n = 0 then Some (Ok [], t)
      else if bt_buffered t \<noteq> [] then
        Some (Ok (take n (bt_buffered t)), t\<lparr>bt_buffered := drop n (bt_buffered t)\<rparr>)
      else case ans of
        ReadErr e \<Rightarrow> Some (Err e, t)
      | ReadN k \<Rightarrow>
          if k = 0 \<or> k > length (bt_net t) \<or> k > max n bufio_size then None
          else if n \<ge> bufio_size then
            (if k > n then None else Some (Ok (take k (bt_net t)), t\<lparr>bt_net := drop k (bt_net t)\<rparr>))
          else
            Some (Ok (take n (take k (bt_net t))),
                  t\<lparr>bt_buffered := drop n (take k (bt_net t)), bt_net := drop k (bt_net t)\<rparr>))"

definition bt_Recv :: "read_ans \<Rightarrow> pools \<Rightarrow> bufferedConnTransport \<Rightarrow>
    (slice list outcome \<times> bufferedConnTransport \<times> pools) option" where
  "bt_Recv ans w t =
     (if bt_closed t then Some (Err ErrTransportClosed, t, w)
      else case pool_Get w (bt_pool t) 8192 (bt_numa t) of
        None \<Rightarrow> None
      | Some (Err e) \<Rightarrow> Some (Err e, t, w)
      | Some Panic \<Rightarrow> Some (Panic, t, w)
      | Some (Ok (buf, w1)) \<Rightarrow>
          (case bufio_Read ans (data_len buf) t of
             None \<Rightarrow> None
           | Some (Err e, t') \<Rightarrow>
               (case Buffer_Release w1 buf of
                  None \<Rightarrow> None
                | Some (Ok w2) \<Rightarrow> Some (Err (ErrWrap ''read'' e), t', w2)
                | Some (Err e') \<Rightarrow> Some (Err e', t', w1)
                | Some Panic \<Rightarrow> Some (Panic, t', w1))
           | Some (Panic, t') \<Rightarrow> Some (Panic, t', w1)
           | Some (Ok bs, t') \<Rightarrow>
               (case Data buf of
                  None \<Rightarrow> Some (Ok [], t', w1)
                | Some s \<Rightarrow>
                    Some (Ok [s\<lparr>sl_len := length bs\<rparr>], t', w1\<lparr>pl_heap := copy_into (pl_heap w1) s bs\<rparr>))))"

text \<open>Writes: an error of the \<open>i\<close>-th write after \<open>k\<close> bytes, or all of it.\<close>

fun bt_write :: "(nat \<Rightarrow> (nat \<times> goerr) option) \<Rightarrow> nat \<Rightarrow> bufferedConnTransport \<Rightarrow> bytes list \<Rightarrow> unit outcome \<times> bufferedConnTransport" where
  "bt_write ans i t [] = (Ok (), t)"
| "bt_write ans i t (b # bs) =
     (case ans i of
        Some (k, e) \<Rightarrow> (Err (ErrWrap ''write'' e), t\<lparr>bt_wire := bt_wire t @ take k b\<rparr>)
      | None \<Rightarrow> bt_write ans (Suc i) (t\<lparr>bt_wire := bt_wire t @ b\<rparr>) bs)"

definition bt_Send :: "(nat \<Rightarrow> (nat \<times> goerr) option) \<Rightarrow> bufferedConnTransport \<Rightarrow> bytes list \<Rightarrow>
    (unit outcome \<times> bufferedConnTransport) option" where
  "bt_Send ans t bufs =
     (if bt_closed t then Some (Err ErrTransportClosed, t) else Some (bt_write ans 0 t bufs))"

definition bt_Close :: "bufferedConnTransport \<Rightarrow> bufferedConnTransport" where
  "bt_Close t = (if bt_closed t then t else t\<lparr>bt_closed := True\<rparr>)"

interpretation bt: transport bt_closed bt_Send bt_Recv bt_Close
  by unfold_locales (auto simp: bt_Send_def bt_Recv_def bt_Close_def)

section \<open>The listener\<close>

record WebSocketListener =
  wl_pool :: nat
  wl_channelSize :: int
  wl_numa :: int
  wl_closed :: bool

definition ErrListenerClosed :: goerr where
  "ErrListenerClosed = ErrNew ''listener closed''"

definition NewWebSocketListener :: "unit outcome \<Rightarrow> nat \<Rightarrow> int \<Rightarrow> (WebSocketListener \<Rightarrow> WebSocketListener) list \<Rightarrow> WebSocketListener outcome" where
  "NewWebSocketListener listen bp channelSize opts =
     bind_outcome (case listen of Err e \<Rightarrow> Err (ErrWrap ''listen'' e) | r \<Rightarrow> r) (\<lambda>_.
       Ok (foldl (\<lambda>wsl opt. opt wsl)
         \<lparr>wl_pool = bp, wl_channelSize = channelSize, wl_numa = 0, wl_closed = False\<rparr> opts))"

definition WithListenerNUMANode :: "nat \<Rightarrow> int \<Rightarrow> WebSocketListener \<Rightarrow> WebSocketListener" where
  "WithListenerNUMANode newPool node wsl = wsl\<lparr>wl_numa := node, wl_pool := newPool\<rparr>"

text \<open>
  One incoming TCP connection: the request as parsed, what its reader holds behind it, what the
  peer sends later, and the errors of writing the response.
\<close>

record tcp_conn =
  tc_request :: "http_request outcome"
  tc_rest :: bytes
  tc_net :: bytes
  tc_fail :: "nat \<Rightarrow> goerr option"

definition wl_Accept :: "tcp_conn outcome \<Rightarrow> WebSocketListener \<Rightarrow> (bufferedConnTransport \<times> WSConnection) outcome" where
  "wl_Accept acc wsl =
     (if wl_closed wsl then Err ErrListenerClosed
      else case acc of
        Err e \<Rightarrow> Err (if Contains (error_text e) ''closed network connection'' then ErrListenerClosed else e)
      | Panic \<Rightarrow> Panic
      | Ok tcp \<Rightarrow>
          (case DoHandshakeCoreBuffered (tc_request tcp) (tc_rest tcp) of
             Err e \<Rightarrow> Err (ErrWrap ''handshake request failed'' e)
           | Panic \<Rightarrow> Panic
           | Ok (hdrs, path, br) \<Rightarrow>
               (case WriteHandshakeResponse (tc_fail tcp) hdrs of
                  (out, Some e) \<Rightarrow> Err (ErrWrap ''handshake response failed'' e)
                | (out, None) \<Rightarrow>
                    bind_outcome (NewWSConnectionWithPath (wl_pool wsl) (wl_channelSize wsl) path) (\<lambda>c.
                      Ok (\<lparr>bt_closed = False, bt_pool = wl_pool wsl, bt_numa = wl_numa wsl, bt_buffered = br,
                           bt_net = tc_net tcp, bt_wire = string_bytes out\<rparr>, c)))))"

definition wl_Close :: "WebSocketListener \<Rightarrow> WebSocketListener" where
  "wl_Close wsl = (if wl_closed wsl then wsl else wsl\<lparr>wl_closed := True\<rparr>)"

section \<open>epoll\<close>

text \<open>
  Answers of the socket to \<^verbatim>\<open>recvmsg\<close>, \<^verbatim>\<open>sendmsg\<close> and \<^verbatim>\<open>poll\<close>.  The flag says whether another goroutine
  has closed the transport by the time the code looks again.
\<close>

datatype poll_ans = PollReady | PollEINTR | PollErr bool goerr
datatype recv_ans = RecvBytes bytes | RecvAgain poll_ans | RecvErr bool goerr
datatype send_ans = SentN int | SendAgain bool poll_ans | SendErr goerr

record epollTransport =
  ep_pool :: nat
  ep_ioBufferSize :: int
  ep_numa :: int
  ep_closed :: bool
  ep_fdOpen :: bool
  ep_wire :: bytes

definition ep_mark :: "bool \<Rightarrow> epollTransport \<Rightarrow> epollTransport" where
  "ep_mark c t = (if c then t\<lparr>ep_closed := True\<rparr> else t)"

text \<open>The receive loop for one buffer; \<^const>\<open>None\<close> when it still waits after all answers given.\<close>

fun ep_recv_loop :: "recv_ans list \<Rightarrow> slice \<Rightarrow> heap \<Rightarrow> epollTransport \<Rightarrow> (slice list outcome \<times> epollTransport \<times> heap) option" where
  "ep_recv_loop [] s h t = None"
| "ep_recv_loop (RecvAgain PollReady # as) s h t = ep_recv_loop as s h t"
| "ep_recv_loop (RecvAgain PollEINTR # as) s h t = ep_recv_loop as s h t"
| "ep_recv_loop (RecvAgain (PollErr c e) # as) s h t =
     (let t' = ep_mark c t in
      if ep_closed t' then Some (Err ErrTransportClosed, t', h) else Some (Err (ErrWrap ''poll'' e), t', h))"
| "ep_recv_loop (RecvErr c e # as) s h t =
     (let t' = ep_mark c t in
      if ep_closed t' then Some (Err ErrTransportClosed, t', h) else Some (Err (ErrWrap ''RecvmsgBuffers'' e), t', h))"
| "ep_recv_loop (RecvBytes bs # as) s h t =
     (if bs = [] then Some (Err ErrTransportClosed, t\<lparr>ep_closed := True\<rparr>, h)
      else Some (Ok [if length bs < sl_len s then s\<lparr>sl_len := length bs\<rparr> else s], t, copy_into h s bs))"

definition ep_Recv :: "recv_ans list \<Rightarrow> pools \<Rightarrow> epollTransport \<Rightarrow> (slice list outcome \<times> epollTransport \<times> pools) option" where
  "ep_Recv as w t =
     (if ep_closed t then Some (Err ErrTransportClosed, t, w)
      else case pool_Get w (ep_pool t) (ep_ioBufferSize t) (ep_numa t) of
        None \<Rightarrow> None
      | Some (Err e) \<Rightarrow> Some (Err e, t, w)
      | Some Panic \<Rightarrow> Some (Panic, t, w)
      | Some (Ok (buf, w1)) \<Rightarrow>
          (case Data buf of
             None \<Rightarrow> Some (Panic, t, w1)
           | Some s \<Rightarrow>
               map_option (\<lambda>(r, t', h). (r, t', w1\<lparr>pl_heap := h\<rparr>)) (ep_recv_loop as s (pl_heap w1) t)))"

definition ep_maxBatch :: nat where "ep_maxBatch = 16"

text \<open>One batch per successful \<^verbatim>\<open>sendmsg\<close>; \<open>SentN n\<close> takes the first \<open>n\<close> bytes of the batch.\<close>

fun ep_send_loop :: "send_ans list \<Rightarrow> epollTransport \<Rightarrow> bytes list \<Rightarrow> (unit outcome \<times> epollTransport) option" where
  "ep_send_loop as t [] = Some (Ok (), t)"
| "ep_send_loop [] t (b # bs) = None"
| "ep_send_loop (SendAgain c p # as) t (b # bs) =
     (let t' = ep_mark c t in
      if ep_closed t' then Some (Err ErrTransportClosed, t')
      else case p of
        PollReady \<Rightarrow> ep_send_loop as t' (b # bs)
      | PollEINTR \<Rightarrow> ep_send_loop as t' (b # bs)
      | PollErr _ e \<Rightarrow> Some (Err (ErrWrap ''poll'' e), t'))"
| "ep_send_loop (SendErr e # as) t (b # bs) = Some (Err (ErrWrap ''SendmsgBuffers'' e), t)"
| "ep_send_loop (SentN n # as) t (b # bs) =
     (if n \<le> 0 then Some (Err (ErrNew ''SendmsgBuffers: sent no data''), t)
      else ep_send_loop as (t\<lparr>ep_wire := ep_wire t @ take (nat n) (concat (take ep_maxBatch (b # bs)))\<rparr>)
             (drop ep_maxBatch (b # bs)))"

definition ep_Send :: "send_ans list \<Rightarrow> epollTransport \<Rightarrow> bytes list \<Rightarrow> (unit outcome \<times> epollTransport) option" where
  "ep_Send as t bufs =
     (if ep_closed t then Some (Err ErrTransportClosed, t) else ep_send_loop as t bufs)"

definition ep_Close :: "epollTransport \<Rightarrow> epollTransport" where
  "ep_Close t = (if \<not> ep_closed t then t\<lparr>ep_fdOpen := False, ep_closed := True\<rparr> else t)"

interpretation ep: transport ep_closed ep_Send ep_Recv ep_Close
  by unfold_locales (auto simp: ep_Send_def ep_Recv_def ep_Close_def)

definition newEpollTransport :: "nat \<Rightarrow> int \<Rightarrow> int \<Rightarrow> int \<Rightarrow> epollTransport" where
  "newEpollTransport p maxNodes ioBufferSize numaNode =
     \<lparr>ep_pool = p, ep_ioBufferSize = ioBufferSize, ep_numa = normalizeNUMANode maxNodes numaNode,
      ep_closed = False, ep_fdOpen = True, ep_wire = []\<rparr>"

definition newEpollTransportInternal :: "unit outcome \<Rightarrow> nat \<Rightarrow> int \<Rightarrow> int \<Rightarrow> int \<Rightarrow> epollTransport outcome" where
  "newEpollTransportInternal socket p maxNodes ioBufferSize numaNode =
     bind_outcome (case socket of Err e \<Rightarrow> Err (ErrWrap ''socket create'' e) | r \<Rightarrow> r) (\<lambda>_.
       Ok (newEpollTransport p maxNodes ioBufferSize numaNode))"

section \<open>What the transports do\<close>

lemma take_drop_append: "take n xs @ drop n xs @ ys = xs @ ys"
  by (simp flip: append_assoc)

lemma bufio_Read_Ok:
  assumes "bufio_Read ans n t = Some (Ok bs, t')"
  shows "length bs \<le> n \<and> bs @ bt_buffered t' @ bt_net t' = bt_buffered t @ bt_net t \<and>
    bt_closed t' = bt_closed t \<and> bt_pool t' = bt_pool t \<and> bt_numa t' = bt_numa t"
  using assms by (auto simp: bufio_Read_def take_drop_append simp del: take_take split: if_splits read_ans.splits)

lemma pool_copy:
  assumes ok: "pool_ok w p (b # held)" and s: "Data b = Some s" and len: "length bs \<le> data_len b"
  shows "pool_ok (w\<lparr>pl_heap := copy_into (pl_heap w) s bs\<rparr>) p (b # held) \<and>
    slice_bytes (copy_into (pl_heap w) s bs) (s\<lparr>sl_len := length bs\<rparr>) = bs \<and>
    (\<forall>x\<in>set held. Buffer_Copy (copy_into (pl_heap w) s bs) x = Buffer_Copy (pl_heap w) x)"
proof -
  have c: "client_ok (pl_heap w, pl_slabs w ! p, b # held)" using ok by (simp add: pool_ok_def)
  then have b: "buf_ok (pl_heap w) b" and d: "distinct (arrays (b # held))" by (auto simp: client_ok_def)
  from client_Write [OF c, of p 0 bs] s have "client_ok (copy_into (pl_heap w) s bs, pl_slabs w ! p, b # held)" by auto
  then have "pool_ok (w\<lparr>pl_heap := copy_into (pl_heap w) s bs\<rparr>) p (b # held)" using ok by (simp add: pool_ok_def)
  moreover have "Buffer_Copy (copy_into (pl_heap w) s (take (length bs) bs)) (Buffer_Slice b 0 (int (length bs))) = take (data_len b) bs"
    by (rule Buffer_Copy_written [OF b s]) (use len in simp)
  then have "slice_bytes (copy_into (pl_heap w) s bs) (s\<lparr>sl_len := length bs\<rparr>) = bs"
    using len s by (simp add: Buffer_Copy_def Buffer_Slice_def slice_bytes_def data_len_def)
  ultimately show ?thesis using Buffer_Copy_other [OF d _ s] by blast
qed

text \<open>A successful receive leaves its buffer with nobody: it joins \<open>held\<close> and is never put back.\<close>

lemma bt_Recv_ok:
  assumes ok: "pool_ok w (bt_pool t) held" and open0: "\<not> bt_closed t"
    and rd: "bufio_Read ans (nat (slab_size (pl_slabs w ! bt_pool t))) t = Some (Ok bs, t')"
    and pos: "0 < slab_size (pl_slabs w ! bt_pool t)"
  shows "\<exists>s b w'. bt_Recv ans w t = Some (Ok [s], t', w') \<and> slice_bytes (pl_heap w') s = bs \<and>
    pool_ok w' (bt_pool t) (b # held) \<and> slab_size (pl_slabs w' ! bt_pool t) = slab_size (pl_slabs w ! bt_pool t) \<and>
    (\<forall>x\<in>set held. Buffer_Copy (pl_heap w') x = Buffer_Copy (pl_heap w) x)"
proof -
  from pool_Get_ok [OF ok, of 8192 "bt_numa t"] obtain b w1 where
    get: "pool_Get w (bt_pool t) 8192 (bt_numa t) = Some (Ok (b, w1))" "pool_ok w1 (bt_pool t) (b # held)"
    "int (data_len b) = slab_size (pl_slabs w ! bt_pool t)"
    "slab_size (pl_slabs w1 ! bt_pool t) = slab_size (pl_slabs w ! bt_pool t)"
    "\<forall>x\<in>set held. Buffer_Copy (pl_heap w1) x = Buffer_Copy (pl_heap w) x" by blast
  have dl: "data_len b = nat (slab_size (pl_slabs w ! bt_pool t))" using get(3) by simp
  then obtain s where s: "Data b = Some s" using pos by (cases "Data b") (auto simp: data_len_def)
  have len: "length bs \<le> data_len b" using bufio_Read_Ok [OF rd] dl by simp
  have "bt_Recv ans w t = Some (Ok [s\<lparr>sl_len := length bs\<rparr>], t', w1\<lparr>pl_heap := copy_into (pl_heap w1) s bs\<rparr>)"
    using open0 get(1) rd dl s by (simp add: bt_Recv_def)
  then show ?thesis using pool_copy [OF get(2) s len] get(4,5)
    by (intro exI [of _ "s\<lparr>sl_len := length bs\<rparr>"] exI [of _ b] exI [of _ "w1\<lparr>pl_heap := copy_into (pl_heap w1) s bs\<rparr>"]) simp
qed

text \<open>A run of successful receives: the contents received, one piece per call.\<close>

fun bt_recvs :: "read_ans list \<Rightarrow> pools \<Rightarrow> bufferedConnTransport \<Rightarrow> (bytes list \<times> bufferedConnTransport \<times> pools) option" where
  "bt_recvs [] w t = Some ([], t, w)"
| "bt_recvs (a # as) w t =
     (case bt_Recv a w t of
        Some (Ok slices, t', w') \<Rightarrow>
          map_option (\<lambda>(rest, t'', w''). (concat (map (slice_bytes (pl_heap w')) slices) # rest, t'', w'')) (bt_recvs as w' t')
      | _ \<Rightarrow> None)"

lemma bt_Recv_cases:
  assumes ok: "pool_ok w (bt_pool t) held" and pos: "0 < slab_size (pl_slabs w ! bt_pool t)"
    and r: "bt_Recv ans w t = Some (Ok slices, t', w')"
  shows "\<exists>bs. bufio_Read ans (nat (slab_size (pl_slabs w ! bt_pool t))) t = Some (Ok bs, t') \<and> \<not> bt_closed t"
proof -
  have open0: "\<not> bt_closed t" using r by (auto simp: bt_Recv_def)
  from pool_Get_ok [OF ok, of 8192 "bt_numa t"] obtain b w1 where
    get: "pool_Get w (bt_pool t) 8192 (bt_numa t) = Some (Ok (b, w1))"
    "int (data_len b) = slab_size (pl_slabs w ! bt_pool t)" by blast
  have dl: "data_len b = nat (slab_size (pl_slabs w ! bt_pool t))" using get(2) by simp
  obtain res t1 where rd: "bufio_Read ans (data_len b) t = Some (res, t1)"
    using r open0 get(1) by (cases "bufio_Read ans (data_len b) t") (auto simp: bt_Recv_def)
  have "\<exists>bs. res = Ok bs \<and> t1 = t'"
    using r open0 get(1) rd
    by (cases res; cases "Buffer_Release w1 b")
      (auto simp: bt_Recv_def split: option.splits outcome.splits)
  then show ?thesis using rd dl open0 by auto
qed

lemma bt_recvs_stream:
  assumes "pool_ok w (bt_pool t) held" and "0 < slab_size (pl_slabs w ! bt_pool t)"
    and "bt_recvs as w t = Some (got, t', w')"
  shows "concat got @ bt_buffered t' @ bt_net t' = bt_buffered t @ bt_net t \<and> bt_pool t' = bt_pool t \<and>
    (\<exists>leaked. length leaked = length as \<and> pool_ok w' (bt_pool t) (leaked @ held) \<and>
       (\<forall>x\<in>set held. Buffer_Copy (pl_heap w') x = Buffer_Copy (pl_heap w) x)) \<and>
    slab_size (pl_slabs w' ! bt_pool t) = slab_size (pl_slabs w ! bt_pool t)"
  using assms
proof (induction as arbitrary: w t held got)
  case (Cons a as)
  obtain slices t1 w1 where r: "bt_Recv a w t = Some (Ok slices, t1, w1)"
    using Cons.prems(3) by (auto split: option.splits outcome.splits)
  from bt_Recv_cases [OF Cons.prems(1,2) r] obtain bs where
    rd: "bufio_Read a (nat (slab_size (pl_slabs w ! bt_pool t))) t = Some (Ok bs, t1)" "\<not> bt_closed t" by blast
  from bt_Recv_ok [OF Cons.prems(1) rd(2,1) Cons.prems(2)] r obtain s b where
    s: "slices = [s]" "slice_bytes (pl_heap w1) s = bs" "pool_ok w1 (bt_pool t) (b # held)"
    "slab_size (pl_slabs w1 ! bt_pool t) = slab_size (pl_slabs w ! bt_pool t)"
    "\<forall>x\<in>set held. Buffer_Copy (pl_heap w1) x = Buffer_Copy (pl_heap w) x" by auto
  note io = bufio_Read_Ok [OF rd(1)]
  obtain got1 where got: "bt_recvs as w1 t1 = Some (got1, t', w')" "got = bs # got1"
    using Cons.prems(3) r s(1,2) by (auto split: option.splits)
  have ok1: "pool_ok w1 (bt_pool t1) (b # held)" and pos1: "0 < slab_size (pl_slabs w1 ! bt_pool t1)"
    using s(3,4) io Cons.prems(2) by simp_all
  from Cons.IH [OF ok1 pos1 got(1)] obtain leaked where
    IH: "concat got1 @ bt_buffered t' @ bt_net t' = bt_buffered t1 @ bt_net t1" "bt_pool t' = bt_pool t1"
    "length leaked = length as" "pool_ok w' (bt_pool t1) (leaked @ b # held)"
    "\<forall>x\<in>set (b # held). Buffer_Copy (pl_heap w') x = Buffer_Copy (pl_heap w1) x"
    "slab_size (pl_slabs w' ! bt_pool t1) = slab_size (pl_slabs w1 ! bt_pool t1)" by blast
  have "\<exists>leaked. length leaked = length (a # as) \<and> pool_ok w' (bt_pool t) (leaked @ held) \<and>
       (\<forall>x\<in>set held. Buffer_Copy (pl_heap w') x = Buffer_Copy (pl_heap w) x)"
    using IH s(5) io by (intro exI [of _ "leaked @ [b]"]) simp
  then show ?case using IH(1,2,6) s(4) io got(2) by simp
qed auto

text \<open>epoll: the exact bytes on the wire.\<close>

fun ep_batches :: "nat \<Rightarrow> bytes list \<Rightarrow> bytes list" where
  "ep_batches 0 bufs = []"
| "ep_batches (Suc n) bufs = (if bufs = [] then [] else concat (take ep_maxBatch bufs) # ep_batches n (drop ep_maxBatch bufs))"

lemma ep_batches_concat: "length bufs \<le> n * ep_maxBatch \<Longrightarrow> concat (ep_batches n bufs) = concat bufs"
proof (induction n arbitrary: bufs)
  case (Suc n)
  have "concat (take ep_maxBatch bufs) @ concat (drop ep_maxBatch bufs) = concat bufs"
    by (metis append_take_drop_id concat_append)
  then show ?case using Suc.IH [of "drop ep_maxBatch bufs"] Suc.prems by auto
qed simp

lemma ep_send_loop_exact:
  assumes "\<not> ep_closed t" "length ns = length (ep_batches (length bufs) bufs)" "\<forall>n\<in>set ns. 0 < n"
  shows "ep_send_loop (map SentN ns) t bufs =
    Some (Ok (), t\<lparr>ep_wire := ep_wire t @ concat (map2 (\<lambda>n b. take (nat n) b) ns (ep_batches (length bufs) bufs))\<rparr>)"
proof -
  have "ep_send_loop (map SentN ns) t bufs =
      Some (Ok (), t\<lparr>ep_wire := ep_wire t @ concat (map2 (\<lambda>n b. take (nat n) b) ns (ep_batches m bufs))\<rparr>)"
    if "length bufs \<le> m" "length ns = length (ep_batches m bufs)" "\<forall>n\<in>set ns. 0 < n" for m t
    using that
  proof (induction m arbitrary: bufs ns t)
    case (Suc m)
    show ?case
    proof (cases bufs)
      case (Cons b bs)
      obtain n ns' where ns: "ns = n # ns'" using Suc.prems(2) Cons by (cases ns) auto
      have l: "length (drop ep_maxBatch bufs) \<le> m" using Suc.prems(1) Cons by (simp add: ep_maxBatch_def)
      show ?thesis
        using Suc.IH [OF l, of ns' "t\<lparr>ep_wire := ep_wire t @ take (nat n) (concat (take ep_maxBatch bufs))\<rparr>"]
          Suc.prems(2,3) ns Cons by simp
    qed (use Suc.prems in simp)
  qed simp
  then show ?thesis using assms by blast
qed

lemma concat_take_eq:
  fixes bs :: "bytes list"
  assumes "length ns = length bs" and "\<forall>b\<in>set bs. b \<noteq> []" and "\<forall>n\<in>set ns. 0 < n"
  shows "concat (map2 (\<lambda>n b. take (nat n) b) ns bs) = concat bs \<longleftrightarrow> list_all2 (\<lambda>n b. int (length b) \<le> n) ns bs"
proof -
  have le: "length (concat (map2 (\<lambda>n b. take (nat n) b) ns bs)) \<le> length (concat bs)" if "length ns = length bs" for ns :: "int list" and bs :: "bytes list"
    using that by (induction ns bs rule: list_induct2) auto
  show ?thesis using assms
  proof (induction ns bs rule: list_induct2)
    case (Cons n ns b bs)
    show ?case
    proof (cases "int (length b) \<le> n")
      case True
      then show ?thesis using Cons by simp
    next
      case False
      then have "length (take (nat n) b) < length b" using Cons.prems by (auto simp: nat_less_iff)
      moreover have "length (concat (map2 (\<lambda>n b. take (nat n) b) ns bs)) \<le> length (concat bs)" by (rule le [OF Cons.hyps])
      ultimately have "length (concat (map2 (\<lambda>n b. take (nat n) b) (n # ns) (b # bs))) < length (concat (b # bs))" by simp
      then show ?thesis using False by (metis list_all2_Cons nat_neq_iff)
    qed
  qed simp
qed

section \<open>Properties\<close>

lemma ep_batches_ne: "\<forall>b\<in>set bufs. b \<noteq> [] \<Longrightarrow> b \<in> set (ep_batches n bufs) \<Longrightarrow> b \<noteq> []"
proof (induction n arbitrary: bufs)
  case (Suc n)
  show ?case
  proof (cases bufs)
    case (Cons x xs)
    then show ?thesis using Suc.IH [of "drop ep_maxBatch bufs"] Suc.prems
      by (auto simp: ep_maxBatch_def dest: in_set_dropD)
  qed (use Suc.prems in simp)
qed simp


text \<open>
  Fact (no byte is lost at the handshake).  On a connection the listener accepted, whatever
  pieces the socket gives, the bytes received followed by those not yet received are the bytes
  that arrived behind the request followed by those the peer sent later; no buffer already
  handed out is overwritten.  Every receive keeps one more buffer of the pool that is never
  given back.
\<close>

theorem listener_stream:
  assumes "wl_Accept (Ok tcp) wsl = Ok (t, c)" and "pool_ok w (wl_pool wsl) held"
    and "0 < slab_size (pl_slabs w ! wl_pool wsl)" and "bt_recvs as w t = Some (got, t', w')"
  shows "concat got @ bt_buffered t' @ bt_net t' = tc_rest tcp @ tc_net tcp \<and>
    (\<exists>leaked. length leaked = length as \<and> pool_ok w' (wl_pool wsl) (leaked @ held) \<and>
       (\<forall>x\<in>set held. Buffer_Copy (pl_heap w') x = Buffer_Copy (pl_heap w) x))"
proof -
  have t: "bt_pool t = wl_pool wsl" "bt_buffered t = tc_rest tcp" "bt_net t = tc_net tcp"
    using assms(1)
    by (auto simp: wl_Accept_def DoHandshakeCoreBuffered_def Let_def bind_outcome_eq_Ok
        split: if_splits outcome.splits prod.splits option.splits)
  show ?thesis using bt_recvs_stream [of w t held as got t' w'] assms(2-4) t by simp
qed

text \<open>
  Claim C33 (what epoll sends).  When the socket takes \<open>ns\<close> bytes of the successive batches of
  sixteen buffers, Send reports success and the wire has exactly the first \<open>n\<close> bytes of each
  batch: everything was sent if and only if no write was short.
\<close>

theorem epoll_send_exact:
  assumes "\<not> ep_closed t" and "\<forall>b\<in>set bufs. b \<noteq> []"
    and "length ns = length (ep_batches (length bufs) bufs)" and "\<forall>n\<in>set ns. 0 < n"
  shows "\<exists>out. ep_Send (map SentN ns) t bufs = Some (Ok (), t\<lparr>ep_wire := ep_wire t @ out\<rparr>) \<and>
    out = concat (map2 (\<lambda>n b. take (nat n) b) ns (ep_batches (length bufs) bufs)) \<and>
    (out = concat bufs \<longleftrightarrow> list_all2 (\<lambda>n b. int (length b) \<le> n) ns (ep_batches (length bufs) bufs))"
proof -
  have "concat (ep_batches (length bufs) bufs) = concat bufs"
    by (rule ep_batches_concat) (simp add: ep_maxBatch_def)
  then show ?thesis
    using ep_send_loop_exact [OF assms(1,3,4)] concat_take_eq [OF assms(3) _ assms(4)] ep_batches_ne [OF assms(2)] assms(1)
    by (simp add: ep_Send_def)
qed

theorem epoll_send_exact_witness:
  "\<exists>out. ep_Send [SentN 2] (newEpollTransport 0 1 4096 0) [[1, 2, 3]] =
      Some (Ok (), (newEpollTransport 0 1 4096 0)\<lparr>ep_wire := ep_wire (newEpollTransport 0 1 4096 0) @ out\<rparr>) \<and> out = [1, 2]"
  using epoll_send_exact [of "newEpollTransport 0 1 4096 0" "[[1, 2, 3]]" "[2]"]
  by (auto simp: newEpollTransport_def ep_maxBatch_def)

text \<open>
  Fact (end of stream leaks the descriptor).  After the peer closed, a receive marks the
  epoll transport closed without closing its socket, and Close then does not close it either.
\<close>

theorem epoll_eof_leaks_fd:
  assumes "pool_ok w (ep_pool t) held" and "0 < slab_size (pl_slabs w ! ep_pool t)" and "\<not> ep_closed t"
    and "list_all (\<lambda>a. a = RecvAgain PollReady) waits"
  shows "\<exists>t' w'. ep_Recv (waits @ [RecvBytes []]) w t = Some (Err ErrTransportClosed, t', w') \<and>
    ep_closed t' \<and> ep_fdOpen (ep_Close t') = ep_fdOpen t"
proof -
  from pool_Get_ok [OF assms(1), of "ep_ioBufferSize t" "ep_numa t"] obtain b w1 where
    get: "pool_Get w (ep_pool t) (ep_ioBufferSize t) (ep_numa t) = Some (Ok (b, w1))"
    "int (data_len b) = slab_size (pl_slabs w ! ep_pool t)" by blast
  then obtain s where s: "Data b = Some s" using assms(2) by (cases "Data b") (auto simp: data_len_def)
  have "ep_recv_loop (waits @ [RecvBytes []]) s h t = Some (Err ErrTransportClosed, t\<lparr>ep_closed := True\<rparr>, h)" for h
    using assms(4) by (induction waits) auto
  then show ?thesis using get s assms(3) by (simp add: ep_Recv_def ep_Close_def)
qed

theorem epoll_eof_leaks_fd_witness:
  "\<exists>t' w'. ep_Recv [RecvAgain PollReady, RecvBytes []] one_pool (newEpollTransport 0 1 4096 0) =
     Some (Err ErrTransportClosed, t', w') \<and> ep_fdOpen (ep_Close t')"
  using epoll_eof_leaks_fd [of one_pool "newEpollTransport 0 1 4096 0" "[]" "[RecvAgain PollReady]"] one_pool_ok
  by (auto simp: newEpollTransport_def one_pool_def empty_slab_def)

definition sample_listener :: WebSocketListener where
  "sample_listener = \<lparr>wl_pool = 0, wl_channelSize = 4, wl_numa = 0, wl_closed = False\<rparr>"

definition sample_tcp :: tcp_conn where
  "sample_tcp = \<lparr>tc_request = Ok \<lparr>req_Header = sample_request, req_Path = ''/chat''\<rparr>,
     tc_rest = [1, 2], tc_net = [3, 4, 5], tc_fail = (\<lambda>_. None)\<rparr>"

lemma write_seq_ok: "write_seq (\<lambda>_. None) i ss = (concat ss, None)"
  by (induction ss arbitrary: i) simp_all

lemma sample_accept:
  "\<exists>t c. wl_Accept (Ok sample_tcp) sample_listener = Ok (t, c) \<and> \<not> bt_closed t \<and> bt_pool t = 0 \<and>
     bt_buffered t = [1, 2] \<and> bt_net t = [3, 4, 5]"
proof -
  have "DoHandshakeCoreBuffered (tc_request sample_tcp) (tc_rest sample_tcp) =
      Ok (response_headers (accept_key ''dGhlIHNhbXBsZSBub25jZQ==''), ''/chat'', [1, 2])"
    using sample_request_ok header_total_None [of sample_request]
    by (simp add: DoHandshakeCoreBuffered_def sample_tcp_def MaxHandshakeHeadersSize_def)
  then show ?thesis
    by (auto simp: wl_Accept_def sample_listener_def WriteHandshakeResponse_def sample_tcp_def write_seq_ok
        NewWSConnectionWithPath_def)
qed

theorem listener_stream_witness:
  "\<exists>t c got t' w'. wl_Accept (Ok sample_tcp) sample_listener = Ok (t, c) \<and>
     bt_recvs [ReadN 1] one_pool t = Some (got, t', w') \<and>
     concat got @ bt_buffered t' @ bt_net t' = [1, 2, 3, 4, 5]"
proof -
  obtain t c where t: "wl_Accept (Ok sample_tcp) sample_listener = Ok (t, c)" "\<not> bt_closed t" "bt_pool t = 0"
    "bt_buffered t = [1, 2]" "bt_net t = [3, 4, 5]" using sample_accept by blast
  have pool: "pool_ok one_pool (bt_pool t) []" "0 < slab_size (pl_slabs one_pool ! bt_pool t)"
    using one_pool_ok t(3) by (simp_all add: one_pool_def empty_slab_def)
  have rd: "bufio_Read (ReadN 1) (nat (slab_size (pl_slabs one_pool ! bt_pool t))) t = Some (Ok [1, 2], t\<lparr>bt_buffered := []\<rparr>)"
    using t(3,4) by (simp add: bufio_Read_def one_pool_def empty_slab_def)
  obtain got t' w' where g: "bt_recvs [ReadN 1] one_pool t = Some (got, t', w')"
    using bt_Recv_ok [OF pool(1) t(2) rd pool(2)] by auto
  have "pool_ok one_pool (wl_pool sample_listener) []" "0 < slab_size (pl_slabs one_pool ! wl_pool sample_listener)"
    using pool t(3) by (simp_all add: sample_listener_def)
  from listener_stream [OF t(1) this g] t(1) g show ?thesis by (auto simp: sample_tcp_def)
qed

end
