(* ===== verification/EpollDial.thy ===== *)
theory EpollDial
  imports Transport "HOL-Library.AList"
begin

text \<open>
  How the epoll transport comes by its socket in \<^verbatim>\<open>internal/transport/transport_linux.go\<close>: by
  dialling, and by wrapping a connection of package net.  What matters there is who owns which file
  descriptor, so the process's descriptors are part of the state.
\<close>

section \<open>Descriptors\<close>

text \<open>The open descriptors with the sockets they stand for; the kernel hands out the lowest free number.\<close>

type_synonym fds = "(nat \<times> nat) list"

definition lowest_fd :: "fds \<Rightarrow> nat" where
  "lowest_fd tab = hd (filter (\<lambda>n. n \<notin> set (map fst tab)) [0..<Suc (length tab)])"

definition fd_open :: "nat \<Rightarrow> fds \<Rightarrow> nat \<times> fds" where
  "fd_open sock tab = (lowest_fd tab, AList.update (lowest_fd tab) sock tab)"

definition fd_close :: "nat \<Rightarrow> fds \<Rightarrow> fds" where
  "fd_close fd tab = AList.delete fd tab"

lemma lowest_fd_free: "lowest_fd tab \<notin> fst ` set tab"
proof -
  have "\<not> set [0..<Suc (length tab)] \<subseteq> fst ` set tab"
  proof
    assume "set [0..<Suc (length tab)] \<subseteq> fst ` set tab"
    from card_mono [OF _ this] have "Suc (length tab) \<le> card (fst ` set tab)" by simp
    also have "\<dots> \<le> length tab" using card_image_le [of "set tab" fst] card_length [of tab] by simp
    finally show False by simp
  qed
  then have "filter (\<lambda>n. n \<notin> set (map fst tab)) [0..<Suc (length tab)] \<noteq> []" by (auto simp: filter_empty_conv simp del: upt_Suc)
  from hd_in_set [OF this] show ?thesis unfolding lowest_fd_def by (simp del: upt_Suc)
qed

lemma lowest_fd_unmapped: "map_of tab (lowest_fd tab) = None"
  using lowest_fd_free by (simp add: map_of_eq_None_iff)

lemma map_of_fd_open: "map_of (snd (fd_open sock tab)) = (map_of tab)(lowest_fd tab \<mapsto> sock)"
  by (simp add: fd_open_def update_conv')

lemma map_of_fd_close: "map_of (fd_close fd tab) = (map_of tab)(fd := None)"
  by (simp add: fd_close_def delete_conv')

lemma fd_close_other: "map_of tab fd = None \<Longrightarrow> map_of (fd_close fd tab) = map_of tab"
  by (auto simp: map_of_fd_close fun_upd_idem)

section \<open>Dialling\<close>

text \<open>What the calls of \<open>newEpollClientTransportInternal\<close> answer: each an error or none.\<close>

record dial_ans =
  da_resolve :: "goerr option"
  da_dial :: "goerr option"
  da_nodelay :: "goerr option"
  da_sysconn :: "goerr option"
  da_control :: "goerr option"
  da_dup :: "goerr option"
  da_nonblock :: "goerr option"

text \<open>
  A transport is its descriptor with the epoll transport's state.  The deferred function closes
  the connection when the function's own \<^verbatim>\<open>err\<close> is set; the checks written \<^verbatim>\<open>if err := \<dots>\<close> declare
  another \<^verbatim>\<open>err\<close> and leave it nil.
\<close>

definition newEpollClientTransportInternal ::
  "dial_ans \<Rightarrow> nat \<Rightarrow> nat \<Rightarrow> int \<Rightarrow> int \<Rightarrow> int \<Rightarrow> fds \<Rightarrow> (nat \<times> epollTransport) outcome \<times> fds" where
  "newEpollClientTransportInternal a sock p maxNodes ioBufferSize numaNode tab =
     (case da_resolve a of Some e \<Rightarrow> (Err (ErrWrap ''resolve addr'' e), tab) | None \<Rightarrow>
      case da_dial a of Some e \<Rightarrow> (Err (ErrWrap ''dial tcp'' e), tab) | None \<Rightarrow>
      let (sysFd, tab1) = fd_open sock tab in
      case da_nodelay a of Some e \<Rightarrow> (Err (ErrWrap ''set no delay'' e), tab1) | None \<Rightarrow>
      case da_sysconn a of Some e \<Rightarrow> (Err (ErrWrap ''syscall conn'' e), fd_close sysFd tab1) | None \<Rightarrow>
      case da_control a of Some e \<Rightarrow> (Err (ErrWrap ''control'' e), tab1) | None \<Rightarrow>
      case da_dup a of Some e \<Rightarrow> (Err (ErrWrap ''dup'' e), fd_close sysFd tab1) | None \<Rightarrow>
      let (newFd, tab2) = fd_open sock tab1;
          tab3 = fd_close sysFd tab2 in
      case da_nonblock a of Some e \<Rightarrow> (Err (ErrWrap ''set nonblock'' e), fd_close newFd tab3) | None \<Rightarrow>
      (Ok (newFd, newEpollTransport p maxNodes ioBufferSize numaNode), tab3))"

text \<open>Close of a transport with its descriptor.\<close>

definition fd_transport_Close :: "nat \<times> epollTransport \<Rightarrow> fds \<Rightarrow> (nat \<times> epollTransport) \<times> fds" where
  "fd_transport_Close ft tab =
     (case ft of (fd, t) \<Rightarrow> ((fd, ep_Close t), if ep_closed t then tab else fd_close fd tab))"

section \<open>Wrapping a connection\<close>

record netConn =
  nc_fd :: nat
  nc_closed :: bool

definition nc_Close :: "netConn \<Rightarrow> fds \<Rightarrow> netConn \<times> fds" where
  "nc_Close c tab = (c\<lparr>nc_closed := True\<rparr>, if nc_closed c then tab else fd_close (nc_fd c) tab)"

text \<open>\<open>None\<close>: the value given has no SyscallConn.  The descriptor is neither duplicated nor taken away from the connection.\<close>

definition newEpollTransportFromConnInternal ::
  "netConn option \<Rightarrow> goerr option \<Rightarrow> goerr option \<Rightarrow> nat \<Rightarrow> int \<Rightarrow> int \<Rightarrow> int \<Rightarrow> (nat \<times> epollTransport) outcome" where
  "newEpollTransportFromConnInternal conn sysconn control p maxNodes ioBufferSize numaNode =
     (case conn of None \<Rightarrow> Err (ErrNew ''connection does not support SyscallConn'') | Some c \<Rightarrow>
      case sysconn of Some e \<Rightarrow> Err e | None \<Rightarrow>
      case control of Some e \<Rightarrow> Err e | None \<Rightarrow>
      Ok (nc_fd c, newEpollTransport p maxNodes ioBufferSize numaNode))"

section \<open>Properties\<close>

text \<open>The failures after which the dialled connection stays open.\<close>

definition dial_leaks :: "dial_ans \<Rightarrow> bool" where
  "dial_leaks a \<longleftrightarrow> da_resolve a = None \<and> da_dial a = None \<and>
     (da_nodelay a \<noteq> None \<or> da_sysconn a = None \<and> da_control a \<noteq> None)"

lemma dup_close:
  "map_of (fd_close (lowest_fd tab) (snd (fd_open sock (snd (fd_open sock tab))))) =
   (map_of tab)(lowest_fd (snd (fd_open sock tab)) \<mapsto> sock)"
  "map_of tab (lowest_fd (snd (fd_open sock tab))) = None"
proof -
  let ?n = "lowest_fd tab" let ?m = "lowest_fd (snd (fd_open sock tab))"
  have m: "map_of (snd (fd_open sock tab)) ?m = None" by (rule lowest_fd_unmapped)
  then have "?m \<noteq> ?n" unfolding map_of_fd_open by (metis fun_upd_same option.distinct(1))
  with m show "map_of tab ?m = None" unfolding map_of_fd_open by simp
  show "map_of (fd_close ?n (snd (fd_open sock (snd (fd_open sock tab))))) = (map_of tab)(?m \<mapsto> sock)"
    using \<open>?m \<noteq> ?n\<close> lowest_fd_unmapped [of tab] unfolding map_of_fd_close map_of_fd_open by auto
qed

text \<open>
  Fact (descriptors of a dialled transport).  A transport that was dialled owns one new
  descriptor for its connection, nothing else having changed, and closing it gives back exactly that one.  A
  failure leaves the descriptors as they were, except that the connection stays open after a failure
  to set the no-delay option or to reach the descriptor.
\<close>

theorem dial_descriptors:
  "case newEpollClientTransportInternal a sock p maxNodes ioBufferSize numaNode tab of
     (Ok (fd, t), tab') \<Rightarrow> map_of tab fd = None \<and> map_of tab' = (map_of tab)(fd \<mapsto> sock) \<and> \<not> ep_closed t \<and>
       map_of (snd (fd_transport_Close (fd, t) tab')) = map_of tab
   | (Err e, tab') \<Rightarrow> map_of tab' = (if dial_leaks a then (map_of tab)(lowest_fd tab \<mapsto> sock) else map_of tab)
   | (Panic, tab') \<Rightarrow> False"
proof -
  have n: "fst (fd_open sock t) = lowest_fd t" for t by (simp add: fd_open_def)
  have unset: "(map_of tab)(k := None) = map_of tab" if "map_of tab k = None" for k using that by (simp add: fun_upd_idem)
  let ?m = "lowest_fd (snd (fd_open sock tab))"
  have apart: "(map_of tab)(?m \<mapsto> sock, lowest_fd tab := None) = (map_of tab)(?m \<mapsto> sock)"
    using dup_close(1) [of tab sock] unfolding map_of_fd_close map_of_fd_open by (auto simp: fun_eq_iff split: if_splits)
  note tabs = apart map_of_fd_open map_of_fd_close lowest_fd_unmapped unset [OF lowest_fd_unmapped] dup_close unset [OF dup_close(2)]
  show ?thesis
    unfolding newEpollClientTransportInternal_def Let_def case_prod_beta n
    by (auto simp: tabs dial_leaks_def fd_transport_Close_def newEpollTransport_def map_of_fd_close [of "lowest_fd (snd (fd_open sock tab))"]
        simp del: fun_upd_apply split: option.splits)
qed

text \<open>
  Fact (a wrapped connection is closed twice).  A transport made from a connection has the
  connection's descriptor: after its Close the number goes to the next socket opened, which the Close
  of the connection then closes.
\<close>

theorem from_conn_closes_another:
  assumes "fd_open sock tab = (fd, tab1)"
    and "newEpollTransportFromConnInternal (Some \<lparr>nc_fd = fd, nc_closed = False\<rparr>) None None p maxNodes n node = Ok ft"
    and "fd_transport_Close ft tab1 = (ft', tab2)" and "lowest_fd tab2 = lowest_fd tab"
    and "fd_open other tab2 = (fd2, tab3)"
  shows "map_of tab3 fd2 = Some other \<and>
    map_of (snd (nc_Close \<lparr>nc_fd = fd, nc_closed = False\<rparr> tab3)) fd2 = None"
  using assms by (auto simp: newEpollTransportFromConnInternal_def fd_transport_Close_def nc_Close_def fd_open_def
      newEpollTransport_def map_of_fd_close update_conv')

theorem from_conn_closes_another_witness:
  "map_of (snd (nc_Close \<lparr>nc_fd = 1, nc_closed = False\<rparr> [(0, 5), (1, 8)])) 1 = (None :: nat option)"
  using from_conn_closes_another [of 7 "[(0, 5)]" 1 "[(0, 5), (1, 7)]" 0 1 4096 0 "(1, newEpollTransport 0 1 4096 0)"
      "(1, ep_Close (newEpollTransport 0 1 4096 0))" "[(0, 5)]" 8 1 "[(0, 5), (1, 8)]"]
  by (simp add: fd_open_def lowest_fd_def newEpollTransportFromConnInternal_def fd_transport_Close_def fd_close_def newEpollTransport_def)

end
