(* ===== verification/Uring.thy ===== *)
theory Uring
  imports Transport
begin

text \<open>
  The io_uring transport of \<^verbatim>\<open>internal/transport/transport_linux.go\<close>: the submission slots, Send, Recv
  and Close over two rings shared with the kernel.  The kernel is an argument: what a call of
  io_uring_enter answers, how far it consumed the submissions, and what the code then finds at the
  places of the completion ring it reads.
\<close>

section \<open>Rings\<close>

type_synonym uint32 = "32 word"

datatype errno = EINTR | EAGAIN | Errno nat

record sqe =
  sqe_OpCode :: nat
  sqe_Payload :: bytes
  sqe_Len :: uint32

record IoURing =
  ur_sqHead :: uint32
  ur_sqTail :: uint32
  ur_sqMask :: uint32
  ur_cqHead :: uint32
  ur_cqTail :: uint32
  ur_cqMask :: uint32
  ur_sqes :: "uint32 \<Rightarrow> sqe option"
  ur_sqArray :: "uint32 \<Rightarrow> uint32"
  ur_cqes :: "uint32 \<Rightarrow> int"

text \<open>
  The parameters of the kernel the rings are set up from; the masks are taken from the fields
  that hold the masks' offsets.
\<close>

record IoURingParams =
  SQOffRingMask :: uint32
  CQOffRingMask :: uint32

definition initIoURing :: "IoURingParams outcome \<Rightarrow> unit outcome list \<Rightarrow> IoURing outcome" where
  "initIoURing setup mmaps =
     (case setup of
        Err e \<Rightarrow> Err (ErrWrap ''io_uring_setup failed'' e)
      | Panic \<Rightarrow> Panic
      | Ok params \<Rightarrow>
          (case mmaps of
             [Ok _, Ok _, Ok _] \<Rightarrow>
               Ok \<lparr>ur_sqHead = 0, ur_sqTail = 0, ur_sqMask = SQOffRingMask params, ur_cqHead = 0, ur_cqTail = 0,
                   ur_cqMask = CQOffRingMask params, ur_sqes = (\<lambda>_. None), ur_sqArray = (\<lambda>_. 0), ur_cqes = (\<lambda>_. 0)\<rparr>
           | Err e # _ \<Rightarrow> Err (ErrWrap ''mmap SQ ring'' e)
           | Ok _ # Err e # _ \<Rightarrow> Err (ErrWrap ''mmap CQ ring'' e)
           | Ok _ # Ok _ # Err e # _ \<Rightarrow> Err (ErrWrap ''mmap SQEs'' e)
           | _ \<Rightarrow> Panic))"

definition getSQESlot :: "IoURing \<Rightarrow> uint32 outcome" where
  "getSQESlot rg =
     (let head = ur_sqHead rg;
          tail = ur_sqTail rg
      in if and (tail + 1) (ur_sqMask rg) = head then Err (ErrNew ''SQ is full'')
         else Ok (and tail (ur_sqMask rg)))"

definition push_sqe :: "nat \<Rightarrow> bytes \<Rightarrow> uint32 \<Rightarrow> IoURing \<Rightarrow> IoURing" where
  "push_sqe opc payload sidx rg =
     rg\<lparr>ur_sqes := (ur_sqes rg)(sidx := Some \<lparr>sqe_OpCode = opc, sqe_Payload = payload, sqe_Len = of_nat (length payload)\<rparr>),
          ur_sqArray := (ur_sqArray rg)(sidx := sidx), ur_sqTail := ur_sqTail rg + 1\<rparr>"

text \<open>One answer of \<^verbatim>\<open>io_uring_enter\<close>; \<open>ka_data\<close> is what a receive put into the buffer.\<close>

record kernel_ans =
  ka_errno :: "errno option"
  ka_sqHead :: uint32
  ka_cqTail :: uint32
  ka_cqes :: "uint32 \<Rightarrow> int"
  ka_data :: bytes

definition ring_after :: "kernel_ans \<Rightarrow> IoURing \<Rightarrow> IoURing" where
  "ring_after k rg = rg\<lparr>ur_sqHead := ka_sqHead k, ur_cqTail := ka_cqTail k, ur_cqes := ka_cqes k\<rparr>"

section \<open>The transport\<close>

record ioURingTransport =
  ut_sendUring :: IoURing
  ut_recvUring :: IoURing
  ut_pool :: nat
  ut_ioBufferSize :: int
  ut_numa :: int
  ut_closed :: bool
  ut_mapped :: bool
  ut_fdOpen :: bool

definition newIoURingTransportInternal ::
  "unit outcome \<Rightarrow> unit outcome \<Rightarrow> IoURing outcome \<Rightarrow> IoURing outcome \<Rightarrow> nat \<Rightarrow> int \<Rightarrow> int \<Rightarrow> int \<Rightarrow> ioURingTransport outcome" where
  "newIoURingTransportInternal socket nodelay sring rring p maxNodes ioBufferSize numaNode =
     bind_outcome (case socket of Err e \<Rightarrow> Err (ErrWrap ''socket create'' e) | r \<Rightarrow> r) (\<lambda>_.
     bind_outcome (case nodelay of Err e \<Rightarrow> Err (ErrWrap ''setsockopt TCP_NODELAY'' e) | r \<Rightarrow> r) (\<lambda>_.
     bind_outcome (case sring of Err e \<Rightarrow> Err (ErrWrap ''send io_uring init'' e) | r \<Rightarrow> r) (\<lambda>s.
     bind_outcome (case rring of Err e \<Rightarrow> Err (ErrWrap ''recv io_uring init'' e) | r \<Rightarrow> r) (\<lambda>r.
       Ok \<lparr>ut_sendUring = s, ut_recvUring = r, ut_pool = p, ut_ioBufferSize = ioBufferSize,
           ut_numa = normalizeNUMANode maxNodes numaNode, ut_closed = False, ut_mapped = True, ut_fdOpen = True\<rparr>))))"

text \<open>Send: one submission per buffer that is not empty, then one completion for each.\<close>

fun send_fill :: "bytes list \<Rightarrow> nat \<Rightarrow> IoURing \<Rightarrow> nat outcome \<times> IoURing" where
  "send_fill [] n rg = (Ok n, rg)"
| "send_fill (buf # bufs) n rg =
     (if buf = [] then send_fill bufs n rg
      else case getSQESlot rg of
        Err e \<Rightarrow> (Err (ErrWrap ''getSQE'' e), rg)
      | Panic \<Rightarrow> (Panic, rg)
      | Ok sidx \<Rightarrow> send_fill bufs (Suc n) (push_sqe 26 buf sidx rg))"

text \<open>Waiting for the completions; the list holds the kernel's answers to the further calls.\<close>

function send_check :: "nat \<Rightarrow> kernel_ans list \<Rightarrow> IoURing \<Rightarrow> (unit outcome \<times> IoURing) option" where
  "send_check 0 ks rg = Some (Ok (), rg)"
| "send_check (Suc n) ks rg =
     (if ur_cqHead rg \<noteq> ur_cqTail rg then
        (let res = ur_cqes rg (and (ur_cqHead rg) (ur_cqMask rg));
             rg' = rg\<lparr>ur_cqHead := ur_cqHead rg + 1\<rparr>
         in if res < 0 then Some (Err (ErrNew ''send failed''), rg') else send_check n ks rg')
      else case ks of
        [] \<Rightarrow> None
      | k # ks' \<Rightarrow>
          (let rg' = ring_after k rg
           in if ka_errno k \<noteq> None \<and> ka_errno k \<noteq> Some EINTR then Some (Err (ErrNew ''wait retry''), rg')
              else send_check (Suc n) ks' rg'))"
  by pat_completeness auto

termination by (relation "measures [\<lambda>(n, ks, rg). n, \<lambda>(n, ks, rg). length ks]") auto

definition u_Send :: "kernel_ans list \<Rightarrow> ioURingTransport \<Rightarrow> bytes list \<Rightarrow> (unit outcome \<times> ioURingTransport) option" where
  "u_Send ks t bufs =
     (if ut_closed t then Some (Err ErrTransportClosed, t)
      else case send_fill bufs 0 (ut_sendUring t) of
        (Err e, rg) \<Rightarrow> Some (Err e, t\<lparr>ut_sendUring := rg\<rparr>)
      | (Panic, rg) \<Rightarrow> Some (Panic, t\<lparr>ut_sendUring := rg\<rparr>)
      | (Ok n, rg) \<Rightarrow>
          if n = 0 then Some (Ok (), t\<lparr>ut_sendUring := rg\<rparr>)
          else case ks of
            [] \<Rightarrow> None
          | k # ks' \<Rightarrow>
              (let rg' = ring_after k rg
               in if ka_errno k \<notin> {None, Some EAGAIN, Some EINTR}
                  then Some (Err (ErrNew ''io_uring_enter''), t\<lparr>ut_sendUring := rg'\<rparr>)
                  else map_option (\<lambda>(r, rg''). (r, t\<lparr>ut_sendUring := rg''\<rparr>)) (send_check n ks' rg')))"

text \<open>Releasing the buffer and answering.\<close>

definition release_with :: "pools \<Rightarrow> Buffer \<Rightarrow> 'r outcome \<Rightarrow> ('r outcome \<times> pools) option" where
  "release_with w buf r =
     (case Buffer_Release w buf of
        None \<Rightarrow> None
      | Some (Ok w') \<Rightarrow> Some (r, w')
      | Some (Err e) \<Rightarrow> Some (Err e, w)
      | Some Panic \<Rightarrow> Some (Panic, w))"

text \<open>A completion of a receive: the data is copied to a slice of its own.\<close>

definition recv_complete :: "int \<Rightarrow> slice \<Rightarrow> Buffer \<Rightarrow> pools \<Rightarrow> (slice list outcome \<times> pools) option" where
  "recv_complete res s buf w =
     (if res < 0 then release_with w buf (Err (ErrNew ''recv failed''))
      else if res = 0 then release_with w buf (Ok [])
      else if nat res > sl_cap s then Some (Panic, w)
      else
        let bs = slice_bytes (pl_heap w) (s\<lparr>sl_len := nat res\<rparr>);
            r = \<lparr>sl_arr = length (pl_heap w), sl_off = 0, sl_len = nat res, sl_cap = nat res\<rparr>
        in release_with (w\<lparr>pl_heap := pl_heap w @ [bs]\<rparr>) buf (Ok [r]))"

fun u_recv_loop :: "kernel_ans list \<Rightarrow> slice \<Rightarrow> Buffer \<Rightarrow> IoURing \<Rightarrow> pools \<Rightarrow> (slice list outcome \<times> IoURing \<times> pools) option" where
  "u_recv_loop [] s buf rg w = None"
| "u_recv_loop (k # ks) s buf rg w =
     (let rg' = ring_after k rg;
          w' = w\<lparr>pl_heap := copy_into (pl_heap w) s (ka_data k)\<rparr>
      in case ka_errno k of
           Some EINTR \<Rightarrow> u_recv_loop ks s buf rg' w'
         | Some _ \<Rightarrow> map_option (\<lambda>(r, w2). (r, rg', w2)) (release_with w' buf (Err (ErrNew ''uring enter wait'')))
         | None \<Rightarrow>
             if ur_cqHead rg' \<noteq> ur_cqTail rg' then
               map_option (\<lambda>(r, w2). (r, rg'\<lparr>ur_cqHead := ur_cqHead rg' + 1\<rparr>, w2))
                 (recv_complete (ur_cqes rg' (and (ur_cqHead rg') (ur_cqMask rg'))) s buf w')
             else u_recv_loop ks s buf rg' w')"

definition u_Recv :: "kernel_ans list \<Rightarrow> pools \<Rightarrow> ioURingTransport \<Rightarrow> (slice list outcome \<times> ioURingTransport \<times> pools) option" where
  "u_Recv ks w t =
     (if ut_closed t then Some (Err ErrTransportClosed, t, w)
      else case pool_Get w (ut_pool t) (ut_ioBufferSize t) (ut_numa t) of
        None \<Rightarrow> None
      | Some (Err e) \<Rightarrow> Some (Err e, t, w)
      | Some Panic \<Rightarrow> Some (Panic, t, w)
      | Some (Ok (buf, w1)) \<Rightarrow>
          (case getSQESlot (ut_recvUring t) of
             Err e \<Rightarrow> map_option (\<lambda>(r, w2). (r, t, w2)) (release_with w1 buf (Err (ErrWrap ''getSQE'' e)))
           | Panic \<Rightarrow> Some (Panic, t, w1)
           | Ok sidx \<Rightarrow>
               (case Data buf of
                  None \<Rightarrow> Some (Panic, t, w1)
                | Some s \<Rightarrow>
                    map_option (\<lambda>(r, rg, w2). (r, t\<lparr>ut_recvUring := rg\<rparr>, w2))
                      (u_recv_loop ks s buf (push_sqe 27 (slice_bytes (pl_heap w1) s) sidx (ut_recvUring t)) w1))))"

definition u_Close :: "ioURingTransport \<Rightarrow> ioURingTransport" where
  "u_Close t = (if ut_closed t then t else t\<lparr>ut_closed := True, ut_mapped := False, ut_fdOpen := False\<rparr>)"

interpretation ur: transport ut_closed u_Send u_Recv u_Close
  by unfold_locales (auto simp: u_Send_def u_Recv_def u_Close_def)

section \<open>The test for a full submission ring\<close>

text \<open>The head is compared unmasked: past the first lap the ring is never found full.\<close>

lemma and_mask_le: "and (x :: uint32) m \<le> m"
  by (simp add: word_and_le1)

lemma and_mask_lap: "k < 32 \<Longrightarrow> and (x + 2 ^ k) (mask k) = and (x :: uint32) (mask k)"
proof -
  assume "k < 32"
  then have "take_bit k (x + 2 ^ k) = take_bit k x"
    by transfer (simp add: take_bit_eq_mod min_def)
  then show ?thesis by (simp only: take_bit_eq_mask)
qed

text \<open>
  Fact (submission ring overrun).  Once the kernel's head has passed the mask, a slot is
  given out however many submissions are outstanding, also when the ring holds as many as it has
  slots: the entry at the head, not yet taken by the kernel, is overwritten.
\<close>

theorem uring_overrun:
  assumes "ur_sqMask rg < ur_sqHead rg" and "ur_sqTail rg = ur_sqHead rg + ur_sqMask rg + 1"
    and "ur_sqMask rg = mask k" and "k < 32"
  shows "getSQESlot rg = Ok (and (ur_sqHead rg) (ur_sqMask rg)) \<and>
    ur_sqes (push_sqe opc payload (and (ur_sqHead rg) (ur_sqMask rg)) rg) (and (ur_sqHead rg) (ur_sqMask rg)) =
      Some \<lparr>sqe_OpCode = opc, sqe_Payload = payload, sqe_Len = of_nat (length payload)\<rparr>"
proof -
  have m: "ur_sqMask rg + 1 = 2 ^ k" using assms(3) by (simp add: mask_eq_exp_minus_1)
  have "and (ur_sqTail rg) (ur_sqMask rg) = and (ur_sqHead rg) (ur_sqMask rg)"
    using assms(2,3) m and_mask_lap [OF assms(4), of "ur_sqHead rg"] by (metis add.assoc)
  moreover have "and (ur_sqTail rg + 1) (ur_sqMask rg) \<noteq> ur_sqHead rg"
    using and_mask_le [of "ur_sqTail rg + 1" "ur_sqMask rg"] assms(1) by auto
  ultimately show ?thesis by (simp add: getSQESlot_def push_sqe_def Let_def)
qed

definition lapped_ring :: IoURing where
  "lapped_ring = \<lparr>ur_sqHead = 5, ur_sqTail = 9, ur_sqMask = 3, ur_cqHead = 0, ur_cqTail = 0, ur_cqMask = 3,
     ur_sqes = (\<lambda>_. None), ur_sqArray = (\<lambda>_. 0), ur_cqes = (\<lambda>_. 0)\<rparr>"

theorem uring_overrun_witness: "getSQESlot lapped_ring = Ok 1"
proof -
  have h: "ur_sqMask lapped_ring < ur_sqHead lapped_ring"
    "ur_sqTail lapped_ring = ur_sqHead lapped_ring + ur_sqMask lapped_ring + 1"
    "ur_sqMask lapped_ring = mask 2" "(2 :: nat) < 32" by (simp_all add: lapped_ring_def mask_eq_exp_minus_1)
  have "and (ur_sqHead lapped_ring) (ur_sqMask lapped_ring) = 1" by (simp add: lapped_ring_def)
  with uring_overrun [OF h] show ?thesis by auto
qed

end
