(* ===== verification/WinTransport.thy ===== *)
theory WinTransport
  imports Transport
begin

text \<open>
  The Windows transport of \<^verbatim>\<open>internal/transport/transport_windows.go\<close>: overlapped WSARecv and WSASend
  over thirty-two pooled buffers, completions handed out by a dispatcher goroutine, and Close.
  What the completion port, the timer and other goroutines do while a call waits is a list of
  events, in the order in which they happen.
\<close>

section \<open>State\<close>

definition win_maxBatch :: nat where "win_maxBatch = 32"

record ioResult =
  io_bytes :: uint32
  io_err :: "goerr option"

text \<open>
  The two channels have room for one result.  \<open>wt_disp\<close> says that the dispatcher is running,
  \<open>wt_wire\<close> is what the socket sent; a deadline of zero is none.
\<close>

record windowsTransport =
  wt_pool :: nat
  wt_ioBufferSize :: int
  wt_numaNode :: int
  wt_closed :: bool
  wt_socketOpen :: bool
  wt_iocpOpen :: bool
  wt_readDeadline :: int
  wt_writeDeadline :: int
  wt_recvDone :: "ioResult option"
  wt_sendDone :: "ioResult option"
  wt_disp :: bool
  wt_wire :: bytes

definition win_node :: "int \<Rightarrow> int \<Rightarrow> int" where
  "win_node nodeCnt numaNode = (if numaNode < 0 \<or> numaNode \<ge> nodeCnt then 0 else numaNode)"

text \<open>\<open>p\<close> is the pool the new manager of the constructor gives for the size and node.\<close>

definition new_windowsTransport :: "nat \<Rightarrow> int \<Rightarrow> int \<Rightarrow> int \<Rightarrow> windowsTransport" where
  "new_windowsTransport p nodeCnt ioBufferSize numaNode =
     \<lparr>wt_pool = p, wt_ioBufferSize = ioBufferSize, wt_numaNode = win_node nodeCnt numaNode, wt_closed = False,
      wt_socketOpen = True, wt_iocpOpen = True, wt_readDeadline = 0, wt_writeDeadline = 0,
      wt_recvDone = None, wt_sendDone = None, wt_disp = True, wt_wire = []\<rparr>"

text \<open>
  The constructors, over the answers of the calls they make.  The second component says whether
  a socket the constructor opened is still open.
\<close>

definition win_newTransportInternal ::
  "unit outcome \<Rightarrow> unit outcome \<Rightarrow> nat \<Rightarrow> int \<Rightarrow> int \<Rightarrow> int \<Rightarrow> windowsTransport outcome \<times> bool" where
  "win_newTransportInternal socket iocp p nodeCnt ioBufferSize numaNode =
     (case socket of
        Err e \<Rightarrow> (Err (ErrWrap ''socket create'' e), False)
      | Panic \<Rightarrow> (Panic, False)
      | Ok _ \<Rightarrow>
          (case iocp of
             Err e \<Rightarrow> (Err (ErrWrap ''CreateIoCompletionPort'' e), False)
           | Panic \<Rightarrow> (Panic, True)
           | Ok _ \<Rightarrow> (Ok (new_windowsTransport p nodeCnt ioBufferSize numaNode), True)))"

definition win_newTransportFromConnInternal ::
  "bool \<Rightarrow> unit outcome \<Rightarrow> unit outcome \<Rightarrow> unit outcome \<Rightarrow> nat \<Rightarrow> int \<Rightarrow> int \<Rightarrow> int \<Rightarrow> windowsTransport outcome" where
  "win_newTransportFromConnInternal isSysConn sysConn control iocp p nodeCnt ioBufferSize numaNode =
     (if \<not> isSysConn then Err (ErrNew ''connection does not support SyscallConn'')
      else bind_outcome (case sysConn of Err e \<Rightarrow> Err (ErrWrap ''SyscallConn'' e) | r \<Rightarrow> r) (\<lambda>_.
        bind_outcome (case control of Err e \<Rightarrow> Err (ErrWrap ''Control'' e) | r \<Rightarrow> r) (\<lambda>_.
          bind_outcome (case iocp of Err e \<Rightarrow> Err (ErrWrap ''CreateIoCompletionPort from handle'' e) | r \<Rightarrow> r) (\<lambda>_.
            Ok (new_windowsTransport p nodeCnt ioBufferSize numaNode)))))"

definition win_newClientTransportInternal ::
  "unit outcome \<Rightarrow> unit outcome \<Rightarrow> unit outcome \<Rightarrow> unit outcome \<Rightarrow> nat \<Rightarrow> int \<Rightarrow> int \<Rightarrow> int \<Rightarrow> windowsTransport outcome \<times> bool" where
  "win_newClientTransportInternal resolve socket connect iocp p nodeCnt ioBufferSize numaNode =
     (case resolve of
        Err e \<Rightarrow> (Err (ErrWrap ''resolve addr'' e), False)
      | Panic \<Rightarrow> (Panic, False)
      | Ok _ \<Rightarrow>
     (case socket of
        Err e \<Rightarrow> (Err (ErrWrap ''socket'' e), False)
      | Panic \<Rightarrow> (Panic, False)
      | Ok _ \<Rightarrow>
     (case connect of
        Err e \<Rightarrow> (Err (ErrWrap ''connect'' e), False)
      | Panic \<Rightarrow> (Panic, True)
      | Ok _ \<Rightarrow>
     (case iocp of
        Err e \<Rightarrow> (Err (ErrWrap ''CreateIoCompletionPort'' e), False)
      | Panic \<Rightarrow> (Panic, True)
      | Ok _ \<Rightarrow> (Ok (new_windowsTransport p nodeCnt ioBufferSize numaNode), True)))))"

text \<open>The constructors of the Linux transports exist on Windows and refuse.\<close>

definition win_newIoURing :: "'t outcome" where
  "win_newIoURing = Err (ErrNew ''io_uring transport not supported on Windows'')"

definition win_newEpoll :: "'t outcome" where
  "win_newEpoll = Err (ErrNew ''epoll transport not supported on Windows'')"

definition wt_SetReadDeadline :: "int \<Rightarrow> windowsTransport \<Rightarrow> windowsTransport" where
  "wt_SetReadDeadline d t = t\<lparr>wt_readDeadline := d\<rparr>"

definition wt_SetWriteDeadline :: "int \<Rightarrow> windowsTransport \<Rightarrow> windowsTransport" where
  "wt_SetWriteDeadline d t = t\<lparr>wt_writeDeadline := d\<rparr>"

definition wt_Close :: "windowsTransport \<Rightarrow> windowsTransport" where
  "wt_Close t =
     (if \<not> wt_closed t then t\<lparr>wt_closed := True, wt_iocpOpen := False, wt_socketOpen := False\<rparr> else t)"

section \<open>The dispatcher\<close>

text \<open>
  What \<^verbatim>\<open>GetQueuedCompletionStatus\<close> answers: the completion of the pending receive with the bytes
  received, of the pending send with the number of bytes sent, of something else, or no operation
  and an error (\<open>EvPortErr\<close>) or none.  Besides, a timer may fire and another goroutine may call Close.
\<close>

datatype win_ev = EvRecv bytes "goerr option" | EvSent nat "goerr option" | EvOther | EvPortErr | EvPortIdle | EvTimer | EvClose

text \<open>One iteration of \<^verbatim>\<open>dispatchLoop\<close>: a result for which its channel has no room is dropped.\<close>

fun dispatch :: "win_ev \<Rightarrow> windowsTransport \<Rightarrow> windowsTransport" where
  "dispatch (EvRecv d err) t =
     (if wt_recvDone t = None then t\<lparr>wt_recvDone := Some \<lparr>io_bytes = of_nat (length d), io_err = err\<rparr>\<rparr> else t)"
| "dispatch (EvSent n err) t =
     (if wt_sendDone t = None then t\<lparr>wt_sendDone := Some \<lparr>io_bytes = of_nat n, io_err = err\<rparr>\<rparr> else t)"
| "dispatch EvPortErr t = t\<lparr>wt_disp := False\<rparr>"
| "dispatch _ t = t"

fun wt_event :: "win_ev \<Rightarrow> windowsTransport \<Rightarrow> windowsTransport" where
  "wt_event EvTimer t = t"
| "wt_event EvClose t = wt_Close t"
| "wt_event ev t = (if wt_disp t then dispatch ev t else t)"

section \<open>Receiving\<close>

text \<open>Thirty-two buffers; taking the address of the first byte of an empty one panics.\<close>

fun wt_alloc :: "nat \<Rightarrow> pools \<Rightarrow> windowsTransport \<Rightarrow> Buffer list \<Rightarrow> (Buffer list \<times> pools) outcome option" where
  "wt_alloc 0 w t bufs = Some (Ok (bufs, w))"
| "wt_alloc (Suc n) w t bufs =
     bind_loop (pool_Get w (wt_pool t) (wt_ioBufferSize t) (wt_numaNode t)) (\<lambda>(b, w').
       if data_len b = 0 then Some Panic else wt_alloc n w' t (bufs @ [b]))"

definition buf_data :: "Buffer \<Rightarrow> slice" where
  "buf_data b = (case Data b of Some s \<Rightarrow> s | None \<Rightarrow> \<lparr>sl_arr = 0, sl_off = 0, sl_len = 0, sl_cap = 0\<rparr>)"

text \<open>The system fills the buffers in order.\<close>

fun scatter :: "heap \<Rightarrow> slice list \<Rightarrow> bytes \<Rightarrow> heap" where
  "scatter h [] d = h"
| "scatter h (s # ss) d = scatter (copy_into h s (take (sl_len s) d)) ss (drop (sl_len s) d)"

text \<open>
  Waiting at \<^verbatim>\<open>recvDone\<close>: until a result is there, or until the timer fires when there is a deadline;
  then the operation is cancelled and its result awaited (\<open>fired\<close>).  \<^const>\<open>None\<close>: still waiting after
  all events.  \<open>got\<close> are the bytes of the completion that was dispatched.
\<close>

fun wait_recv :: "bool \<Rightarrow> bool \<Rightarrow> win_ev list \<Rightarrow> windowsTransport \<Rightarrow> ((bool \<times> bytes \<times> ioResult) \<times> windowsTransport) option" where
  "wait_recv armed fired [] t = None"
| "wait_recv armed fired (ev # evs) t =
     (let t' = wt_event ev t;
          fired' = (fired \<or> armed \<and> ev = EvTimer)
      in case wt_recvDone t' of
           None \<Rightarrow> wait_recv armed fired' evs t'
         | Some res \<Rightarrow> Some ((fired', case ev of EvRecv d _ \<Rightarrow> d | _ \<Rightarrow> [], res), t'\<lparr>wt_recvDone := None\<rparr>))"

text \<open>The slices of the result: the buffers, the last one cut.\<close>

fun split_chunks :: "uint32 \<Rightarrow> uint32 \<Rightarrow> slice list \<Rightarrow> slice list" where
  "split_chunks batchBytes consumed [] = []"
| "split_chunks batchBytes consumed (s # ss) =
     (if consumed \<ge> batchBytes then []
      else let capacity = of_nat (sl_len s);
               remaining = batchBytes - consumed;
               chunk = (if remaining > capacity then capacity else remaining)
           in s\<lparr>sl_len := unat chunk\<rparr> # split_chunks batchBytes (consumed + chunk) ss)"

text \<open>\<open>fst j\<close> is an immediate error of WSARecv, \<open>snd j\<close> what happens then.\<close>

definition wt_Recv :: "goerr option \<times> win_ev list \<Rightarrow> pools \<Rightarrow> windowsTransport \<Rightarrow> (slice list outcome \<times> windowsTransport \<times> pools) option" where
  "wt_Recv j w t =
     (if wt_closed t then Some (Err ErrTransportClosed, t, w)
      else case wt_alloc win_maxBatch w t [] of
        None \<Rightarrow> None
      | Some (Err e) \<Rightarrow> Some (Err e, t, w)
      | Some Panic \<Rightarrow> Some (Panic, t, w)
      | Some (Ok (bufs, w1)) \<Rightarrow>
          (let t1 = t\<lparr>wt_recvDone := None\<rparr>;
               ss = map buf_data bufs
           in case fst j of
                Some e \<Rightarrow> Some (Err (ErrWrap ''WSARecv batch'' e), t1, w1)
              | None \<Rightarrow>
                  (case wait_recv (wt_readDeadline t \<noteq> 0) False (snd j) t1 of
                     None \<Rightarrow> None
                   | Some ((fired, got, res), t2) \<Rightarrow>
                       (let w2 = w1\<lparr>pl_heap := scatter (pl_heap w1) ss got\<rparr>
                        in if fired then Some (Err (ErrNew ''read timeout''), t2, w2)
                           else case io_err res of
                             Some e \<Rightarrow> Some (Err (ErrWrap ''async recv error'' e), t2, w2)
                           | None \<Rightarrow>
                               if io_bytes res = 0 then Some (Err EOF, t2, w2)
                               else Some (Ok (split_chunks (io_bytes res) 0 ss), t2, w2)))))"

section \<open>Sending\<close>

text \<open>The same at \<^verbatim>\<open>sendDone\<close>; what was sent of the batch is on the wire.\<close>

fun wait_send :: "bool \<Rightarrow> bool \<Rightarrow> bytes \<Rightarrow> win_ev list \<Rightarrow> windowsTransport \<Rightarrow> ((bool \<times> ioResult) \<times> windowsTransport) option" where
  "wait_send armed fired batch [] t = None"
| "wait_send armed fired batch (ev # evs) t =
     (let t' = wt_event ev t;
          fired' = (fired \<or> armed \<and> ev = EvTimer)
      in case wt_sendDone t' of
           None \<Rightarrow> wait_send armed fired' batch evs t'
         | Some res \<Rightarrow>
             Some ((fired', res), t'\<lparr>wt_sendDone := None,
               wt_wire := wt_wire t' @ (case ev of EvSent n _ \<Rightarrow> take n batch | _ \<Rightarrow> [])\<rparr>))"

definition send_one :: "goerr option \<times> win_ev list \<Rightarrow> windowsTransport \<Rightarrow> bytes list \<Rightarrow> (unit outcome \<times> windowsTransport) option" where
  "send_one i t slice0 =
     (if [] \<in> set slice0 then Some (Panic, t)
      else let t1 = t\<lparr>wt_sendDone := None\<rparr>
           in case fst i of
                Some e \<Rightarrow> Some (Err (ErrWrap ''WSASend batch'' e), t1)
              | None \<Rightarrow>
                  (case wait_send (wt_writeDeadline t \<noteq> 0) False (concat slice0) (snd i) t1 of
                     None \<Rightarrow> None
                   | Some ((fired, res), t2) \<Rightarrow>
                       if fired then Some (Err (ErrNew ''write timeout''), t2)
                       else case io_err res of
                         Some e \<Rightarrow> Some (Err (ErrWrap ''async send error'' e), t2)
                       | None \<Rightarrow> Some (Ok (), t2)))"

fun wt_send_loop :: "(goerr option \<times> win_ev list) list \<Rightarrow> windowsTransport \<Rightarrow> bytes list \<Rightarrow> (unit outcome \<times> windowsTransport) option" where
  "wt_send_loop is t [] = Some (Ok (), t)"
| "wt_send_loop [] t (b # bs) = None"
| "wt_send_loop (i # is) t (b # bs) =
     (case send_one i t (take win_maxBatch (b # bs)) of
        Some (Ok _, t') \<Rightarrow> wt_send_loop is t' (drop win_maxBatch (b # bs))
      | r \<Rightarrow> r)"

definition wt_Send :: "(goerr option \<times> win_ev list) list \<Rightarrow> windowsTransport \<Rightarrow> bytes list \<Rightarrow> (unit outcome \<times> windowsTransport) option" where
  "wt_Send is t buffers =
     (if wt_closed t then Some (Err ErrTransportClosed, t) else wt_send_loop is t buffers)"

interpretation wt: transport wt_closed wt_Send wt_Recv wt_Close
  by unfold_locales (auto simp: wt_Send_def wt_Recv_def wt_Close_def)

section \<open>Scattered data\<close>

lemma copy_into_shape [simp]:
  "length (copy_into h s bs) = length h"
  "slice_ok h s \<Longrightarrow> length (copy_into h s bs ! i) = length (h ! i)"
  by (auto simp: copy_into_def Let_def slice_ok_def nth_list_update)

lemma copy_into_other: "i \<noteq> sl_arr s \<Longrightarrow> copy_into h s bs ! i = h ! i"
  by (simp add: copy_into_def Let_def)

lemma copy_into_read:
  assumes "slice_ok h s" and "length bs \<le> sl_len s"
  shows "slice_bytes (copy_into h s bs) (s\<lparr>sl_len := length bs\<rparr>) = bs"
  using assms by (simp add: slice_bytes_def copy_into_def Let_def slice_ok_def min_absorb2)

lemma slice_ok_shape:
  "length h' = length h \<Longrightarrow> \<forall>i. length (h' ! i) = length (h ! i) \<Longrightarrow> slice_ok h' s = slice_ok h s"
  by (simp add: slice_ok_def)

lemma scatter_shape:
  "\<forall>s\<in>set ss. slice_ok h s \<Longrightarrow> length (scatter h ss d) = length h \<and> (\<forall>i. length (scatter h ss d ! i) = length (h ! i))"
proof (induction ss arbitrary: h d)
  case (Cons s ss)
  let ?h = "copy_into h s (take (sl_len s) d)"
  have "\<forall>t\<in>set ss. slice_ok ?h t" using Cons.prems slice_ok_shape [of ?h h] by simp
  from Cons.IH [OF this] Cons.prems show ?case by simp
qed simp

lemma scatter_other: "i \<notin> sl_arr ` set ss \<Longrightarrow> scatter h ss d ! i = h ! i"
  by (induction ss arbitrary: h d) (simp_all add: copy_into_other)

text \<open>The splitting loop over natural numbers.\<close>

fun nat_chunks :: "nat \<Rightarrow> slice list \<Rightarrow> slice list" where
  "nat_chunks n [] = []"
| "nat_chunks n (s # ss) = (if n = 0 then [] else s\<lparr>sl_len := min n (sl_len s)\<rparr> # nat_chunks (n - sl_len s) ss)"

lemma unat_of_nat_32: "n < 2 ^ 32 \<Longrightarrow> unat (of_nat n :: uint32) = n"
  by (simp add: unat_of_nat take_bit_nat_eq_self)

lemma split_chunks_nat:
  assumes "m \<le> n" "n < 2 ^ 32" "\<forall>s\<in>set ss. sl_len s < 2 ^ 32"
  shows "split_chunks (of_nat n) (of_nat m) ss = nat_chunks (n - m) ss"
  using assms
proof (induction ss arbitrary: m)
  case (Cons s ss)
  have lt: "n < 2 ^ 32" "m < 2 ^ 32" "sl_len s < 2 ^ 32" using Cons.prems by simp_all
  have c: "(of_nat n :: uint32) \<le> of_nat m \<longleftrightarrow> n - m = 0"
    using lt Cons.prems(1) by (simp add: word_le_nat_alt unat_of_nat_32)
  have r: "(of_nat n :: uint32) - of_nat m = of_nat (n - m)" using Cons.prems(1) by (simp add: of_nat_diff)
  let ?k = "min (n - m) (sl_len s)"
  have k: "(if (of_nat (n - m) :: uint32) > of_nat (sl_len s) then of_nat (sl_len s) else of_nat (n - m)) = (of_nat ?k :: uint32)"
    using lt by (auto simp: word_less_nat_alt unat_of_nat_32 min_def)
  have u: "unat (of_nat ?k :: uint32) = ?k" using lt by (simp add: unat_of_nat_32)
  have "split_chunks (of_nat n) (of_nat (m + ?k)) ss = nat_chunks (n - (m + ?k)) ss"
    by (rule Cons.IH) (use Cons.prems in auto)
  moreover have "n - (m + ?k) = n - m - sl_len s" by simp
  ultimately show ?case using c by (simp only: split_chunks.simps nat_chunks.simps Let_def r k u flip: of_nat_add)
qed simp

lemma scatter_bytes:
  assumes "distinct (map sl_arr ss)" "\<forall>s\<in>set ss. slice_ok h s" "length d \<le> sum_list (map sl_len ss)"
  shows "concat (map (slice_bytes (scatter h ss d)) (nat_chunks (length d) ss)) = d"
  using assms
proof (induction ss arbitrary: h d)
  case (Cons s ss)
  let ?bs = "take (sl_len s) d" and ?d = "drop (sl_len s) d"
  let ?h = "copy_into h s ?bs"
  have ok: "\<forall>t\<in>set ss. slice_ok ?h t" using Cons.prems(2) slice_ok_shape [of ?h h] by simp
  have len: "min (length d) (sl_len s) = length ?bs" by simp
  have "scatter ?h ss ?d ! sl_arr s = ?h ! sl_arr s" using Cons.prems(1) by (intro scatter_other) simp
  then have "slice_bytes (scatter ?h ss ?d) (s\<lparr>sl_len := length ?bs\<rparr>) = ?bs"
    using copy_into_read [of h s ?bs] Cons.prems(2) by (simp add: slice_bytes_def)
  moreover have "concat (map (slice_bytes (scatter ?h ss ?d)) (nat_chunks (length ?d) ss)) = ?d"
    by (rule Cons.IH) (use Cons.prems ok in auto)
  ultimately show ?case unfolding nat_chunks.simps len by (cases "d = []") simp_all
qed simp

section \<open>Buffers of a receive\<close>

lemma wt_alloc_ok:
  assumes "pool_ok w (wt_pool t) (rev bufs @ held)" and "0 < slab_size (pl_slabs w ! wt_pool t)"
  shows "\<exists>new w'. wt_alloc n w t bufs = Some (Ok (bufs @ new, w')) \<and> length new = n \<and>
    pool_ok w' (wt_pool t) (rev (bufs @ new) @ held) \<and>
    (\<forall>b\<in>set new. int (data_len b) = slab_size (pl_slabs w ! wt_pool t)) \<and>
    (\<forall>x\<in>set held. Buffer_Copy (pl_heap w') x = Buffer_Copy (pl_heap w) x)"
  using assms
proof (induction n arbitrary: w bufs)
  case (Suc n)
  from pool_Get_ok [OF Suc.prems(1), of "wt_ioBufferSize t" "wt_numaNode t"] obtain b w1 where
    g: "pool_Get w (wt_pool t) (wt_ioBufferSize t) (wt_numaNode t) = Some (Ok (b, w1))"
    "pool_ok w1 (wt_pool t) (rev (bufs @ [b]) @ held)" "int (data_len b) = slab_size (pl_slabs w ! wt_pool t)"
    "slab_size (pl_slabs w1 ! wt_pool t) = slab_size (pl_slabs w ! wt_pool t)"
    "\<forall>x\<in>set held. Buffer_Copy (pl_heap w1) x = Buffer_Copy (pl_heap w) x" by auto
  from Suc.IH [OF g(2)] Suc.prems(2) g(4) obtain new w' where
    r: "wt_alloc n w1 t (bufs @ [b]) = Some (Ok ((bufs @ [b]) @ new, w'))" "length new = n"
    "pool_ok w' (wt_pool t) (rev ((bufs @ [b]) @ new) @ held)"
    "\<forall>b\<in>set new. int (data_len b) = slab_size (pl_slabs w ! wt_pool t)"
    "\<forall>x\<in>set held. Buffer_Copy (pl_heap w') x = Buffer_Copy (pl_heap w1) x" by auto
  have "data_len b \<noteq> 0" using g(3) Suc.prems(2) by auto
  then show ?case using g r by (intro exI [of _ "b # new"] exI [of _ w']) auto
qed auto

lemma buf_data_slices:
  assumes "pool_ok w p (rev bufs @ held)" and "\<forall>b\<in>set bufs. 0 < data_len b"
  shows "distinct (map sl_arr (map buf_data bufs))" "\<forall>s\<in>set (map buf_data bufs). slice_ok (pl_heap w) s"
    "map sl_len (map buf_data bufs) = map data_len bufs" "set (arrays held) \<inter> sl_arr ` set (map buf_data bufs) = {}"
proof -
  have c: "distinct (arrays (rev bufs @ held))" "\<forall>b\<in>set (rev bufs @ held). buf_ok (pl_heap w) b"
    using assms(1) by (auto simp: pool_ok_def client_ok_def arrays_def)
  have data: "Data b = Some (buf_data b)" if "b \<in> set bufs" for b
    using assms(2) that by (cases "Data b") (auto simp: buf_data_def data_len_def)
  have arr: "arrays (rev bufs) = rev (map (sl_arr \<circ> buf_data) bufs)"
    using data by (induction bufs) (simp_all add: arrays_def)
  show "distinct (map sl_arr (map buf_data bufs))" using c(1) arr by (simp add: arrays_def)
  show "\<forall>s\<in>set (map buf_data bufs). slice_ok (pl_heap w) s" using c(2) data by (auto simp: buf_ok_def)
  show "map sl_len (map buf_data bufs) = map data_len bufs" using data by (simp add: data_len_def)
  show "set (arrays held) \<inter> sl_arr ` set (map buf_data bufs) = {}"
  proof -
    have "arrays (rev bufs @ held) = rev (map (sl_arr \<circ> buf_data) bufs) @ arrays held" using arr by (simp add: arrays_def)
    then show ?thesis using c(1) by auto
  qed
qed

lemma pool_ok_shape:
  assumes "pool_ok w p held" "length h' = length (pl_heap w)" "\<forall>i. length (h' ! i) = length (pl_heap w ! i)"
  shows "pool_ok (w\<lparr>pl_heap := h'\<rparr>) p held"
  using assms slice_ok_shape [OF assms(2,3)] by (simp add: pool_ok_def client_ok_def buf_ok_def)

lemma Buffer_Copy_scatter:
  assumes "x \<in> set held" "set (arrays held) \<inter> sl_arr ` set ss = {}"
  shows "Buffer_Copy (scatter h ss d) x = Buffer_Copy h x"
proof (cases "Data x")
  case (Some s)
  then have "sl_arr s \<in> set (arrays held)" using assms(1) by (force simp: arrays_def)
  then have "sl_arr s \<notin> sl_arr ` set ss" using assms(2) by blast
  from scatter_other [OF this] Some show ?thesis by (simp add: Buffer_Copy_def slice_bytes_def)
qed (simp add: Buffer_Copy_def)

section \<open>Properties\<close>

text \<open>Events during which a wait goes on: nothing for this channel.\<close>

fun no_recv :: "win_ev \<Rightarrow> bool" where
  "no_recv (EvRecv d err) = False"
| "no_recv EvTimer = False"
| "no_recv EvPortErr = False"
| "no_recv _ = True"

lemma wait_recv_skip:
  assumes "list_all no_recv evs" "wt_recvDone t = None" "wt_disp t"
  shows "\<exists>t'. wait_recv armed False (evs @ EvRecv d err # rest) t =
    Some ((False, d, \<lparr>io_bytes = of_nat (length d), io_err = err\<rparr>), t')"
  using assms
proof (induction evs arbitrary: t)
  case (Cons ev evs)
  have "wt_recvDone (wt_event ev t) = None \<and> wt_disp (wt_event ev t) \<and> ev \<noteq> EvTimer"
    using Cons.prems by (cases ev) (auto simp: wt_Close_def)
  then show ?case using Cons.IH [of "wt_event ev t"] Cons.prems(1) by simp
qed simp

text \<open>
  Claim C34 (what Windows receives).  On an open transport with a running dispatcher, a receive that
  completes with data before its deadline returns slices that hold exactly the received bytes, in order; it
  takes thirty-two buffers from the pool, which share no memory with each other or with any
  buffer in use, and the contents of those are untouched.
\<close>

theorem win_recv_exact:
  assumes "pool_ok w (wt_pool t) held" and "0 < slab_size (pl_slabs w ! wt_pool t)" and "slab_size (pl_slabs w ! wt_pool t) \<le> 2 ^ 20"
    and "\<not> wt_closed t" and "wt_disp t" and "list_all no_recv evs"
    and "d \<noteq> []" and "int (length d) \<le> 32 * slab_size (pl_slabs w ! wt_pool t)"
  shows "\<exists>ss bufs t' w'. wt_Recv (None, evs @ EvRecv d None # rest) w t = Some (Ok ss, t', w') \<and>
    concat (map (slice_bytes (pl_heap w')) ss) = d \<and> length bufs = 32 \<and> pool_ok w' (wt_pool t) (rev bufs @ held) \<and>
    (\<forall>x\<in>set held. Buffer_Copy (pl_heap w') x = Buffer_Copy (pl_heap w) x)"
proof -
  let ?n = "slab_size (pl_slabs w ! wt_pool t)"
  from wt_alloc_ok [of w t "[]" held 32] assms(1,2) obtain bufs w1 where
    a: "wt_alloc 32 w t [] = Some (Ok (bufs, w1))" "length bufs = 32" "pool_ok w1 (wt_pool t) (rev bufs @ held)"
    "\<forall>b\<in>set bufs. int (data_len b) = ?n" "\<forall>x\<in>set held. Buffer_Copy (pl_heap w1) x = Buffer_Copy (pl_heap w) x" by auto
  define ss where "ss = map buf_data bufs"
  have pos: "\<forall>b\<in>set bufs. 0 < data_len b" using a(4) assms(2) by force
  note sl = buf_data_slices [OF a(3) pos, folded ss_def]
  have lens: "map sl_len ss = replicate 32 (nat ?n)"
  proof -
    have "map data_len bufs = map (\<lambda>_. nat ?n) bufs" using a(4) by (intro map_cong) (metis nat_int)+
    then show ?thesis using sl(3) a(2) by (simp only: map_replicate_const)
  qed
  have sum: "sum_list (map sl_len ss) = 32 * nat ?n" unfolding lens by (simp add: sum_list_replicate)
  have small: "\<forall>s\<in>set ss. sl_len s < 2 ^ 32"
  proof
    fix s assume "s \<in> set ss"
    then have "sl_len s \<in> set (map sl_len ss)" by simp
    then show "sl_len s < 2 ^ 32" unfolding lens using assms(3) by simp
  qed
  have "int (length d) \<le> 33554432" using assms(3,8) by simp
  then have len: "length d \<le> 32 * nat ?n" "length d < 2 ^ 32" using assms(8) by simp_all
  let ?h = "scatter (pl_heap w1) ss d"
  have io: "(of_nat (length d) :: uint32) \<noteq> 0" using unat_of_nat_32 [OF len(2)] assms(7) by force
  from wait_recv_skip [OF assms(6), of "t\<lparr>wt_recvDone := None\<rparr>" "wt_readDeadline t \<noteq> 0" d None rest] assms(5) obtain t' where
    "wait_recv (wt_readDeadline t \<noteq> 0) False (evs @ EvRecv d None # rest) (t\<lparr>wt_recvDone := None\<rparr>) =
       Some ((False, d, \<lparr>io_bytes = of_nat (length d), io_err = None\<rparr>), t')" by auto
  then have "wt_Recv (None, evs @ EvRecv d None # rest) w t =
      Some (Ok (split_chunks (of_nat (length d)) 0 ss), t', w1\<lparr>pl_heap := ?h\<rparr>)"
    using a(1) assms(4) io by (simp add: wt_Recv_def win_maxBatch_def ss_def Let_def)
  moreover have "concat (map (slice_bytes ?h) (split_chunks (of_nat (length d)) 0 ss)) = d"
    using split_chunks_nat [of 0 "length d" ss] len(2) small scatter_bytes [OF sl(1,2), of d] len(1) sum by simp
  moreover have "pool_ok (w1\<lparr>pl_heap := ?h\<rparr>) (wt_pool t) (rev bufs @ held)"
    using pool_ok_shape [OF a(3)] scatter_shape [OF sl(2)] by blast
  ultimately show ?thesis using a(2,5) Buffer_Copy_scatter [OF _ sl(4)]
    by (intro exI [of _ "split_chunks (of_nat (length d)) 0 ss"] exI [of _ bufs] exI [of _ t'] exI [of _ "w1\<lparr>pl_heap := ?h\<rparr>"]) simp
qed

definition sample_win :: windowsTransport where
  "sample_win = new_windowsTransport 0 1 4096 0"

theorem win_recv_exact_witness:
  "\<exists>ss t' w'. wt_Recv (None, [EvSent 3 None, EvRecv [1, 2, 3] None]) one_pool sample_win = Some (Ok ss, t', w') \<and>
     concat (map (slice_bytes (pl_heap w')) ss) = [1, 2, 3]"
proof -
  have p: "pool_ok one_pool (wt_pool sample_win) []" "slab_size (pl_slabs one_pool ! wt_pool sample_win) = 4096"
    "\<not> wt_closed sample_win" "wt_disp sample_win"
    using one_pool_ok by (simp_all add: sample_win_def new_windowsTransport_def one_pool_def empty_slab_def)
  from win_recv_exact [OF p(1), of "[EvSent 3 None]" "[1, 2, 3]" "[]"] p(2-4) show ?thesis by auto
qed

text \<open>
  Fact (what Windows sends).  If for each batch of thirty-two buffers the system reports \<open>n\<close> bytes
  sent, Send succeeds whatever the \<open>n\<close> are, and the wire has the first \<open>n\<close> bytes of each batch.
\<close>

fun win_batches :: "nat \<Rightarrow> bytes list \<Rightarrow> bytes list" where
  "win_batches 0 bufs = []"
| "win_batches (Suc n) bufs = (if bufs = [] then [] else concat (take win_maxBatch bufs) # win_batches n (drop win_maxBatch bufs))"

lemma wt_send_loop_exact:
  assumes "wt_disp t" "wt_sendDone t = None" "[] \<notin> set bufs" "length bufs \<le> m" "length ns = length (win_batches m bufs)"
  shows "wt_send_loop (map (\<lambda>n. (None, [EvSent n None])) ns) t bufs =
    Some (Ok (), t\<lparr>wt_wire := wt_wire t @ concat (map2 take ns (win_batches m bufs))\<rparr>)"
  using assms
proof (induction m arbitrary: bufs ns t)
  case (Suc m)
  show ?case
  proof (cases bufs)
    case (Cons b bs)
    obtain n ns' where ns: "ns = n # ns'" using Suc.prems(5) Cons by (cases ns) auto
    let ?t = "t\<lparr>wt_wire := wt_wire t @ take n (concat (take win_maxBatch bufs))\<rparr>"
    have "[] \<notin> set (take win_maxBatch bufs)" using Suc.prems(3) by (meson in_set_takeD)
    then have one: "send_one (None, [EvSent n None]) t (take win_maxBatch bufs) = Some (Ok (), ?t)"
      using Suc.prems(1,2) by (cases t) (simp add: send_one_def Let_def)
    have rest: "[] \<notin> set (drop win_maxBatch bufs)" "length (drop win_maxBatch bufs) \<le> m"
      using Suc.prems(3,4) Cons by (auto simp: win_maxBatch_def dest: in_set_dropD)
    have "wt_disp ?t" "wt_sendDone ?t = None" using Suc.prems(1,2) by simp_all
    from Suc.IH [OF this rest, of ns'] one Suc.prems(5) show ?thesis by (simp add: Cons ns)
  qed (use Suc.prems in simp)
qed simp

theorem win_send_exact:
  assumes "\<not> wt_closed t" "wt_disp t" "wt_sendDone t = None" "[] \<notin> set bufs"
    and "length ns = length (win_batches (length bufs) bufs)"
  shows "wt_Send (map (\<lambda>n. (None, [EvSent n None])) ns) t bufs =
    Some (Ok (), t\<lparr>wt_wire := wt_wire t @ concat (map2 take ns (win_batches (length bufs) bufs))\<rparr>)"
  using wt_send_loop_exact [OF assms(2,3,4) _ assms(5)] assms(1) by (simp add: wt_Send_def)

text \<open>
  Fact (a receive can hang after Close).  Once the dispatcher has seen the port closed, no later
  completion reaches a pending receive, with or without a deadline: it never returns.
\<close>

lemma wait_recv_no_disp:
  "wt_recvDone t = None \<Longrightarrow> \<not> wt_disp t \<Longrightarrow> wait_recv armed fired evs t = None"
proof (induction evs arbitrary: t fired)
  case (Cons ev evs)
  have "wt_recvDone (wt_event ev t) = None \<and> \<not> wt_disp (wt_event ev t)"
    using Cons.prems by (cases ev) (auto simp: wt_Close_def)
  then show ?case using Cons.IH by simp
qed simp

theorem win_recv_hangs:
  assumes "pool_ok w (wt_pool t) held" and "0 < slab_size (pl_slabs w ! wt_pool t)" and "\<not> wt_closed t"
  shows "wt_Recv (None, EvClose # EvPortErr # evs) w t = None"
proof -
  from wt_alloc_ok [of w t "[]" held 32] assms(1,2) obtain bufs w1 where
    "wt_alloc 32 w t [] = Some (Ok (bufs, w1))" by auto
  then show ?thesis using assms(3) wait_recv_no_disp
    by (cases "wt_disp t") (simp_all add: wt_Recv_def win_maxBatch_def wt_Close_def Let_def)
qed

text \<open>
  Fact (no socket is left behind).  A constructor that reports an error has closed the socket it
  opened.
\<close>

theorem win_new_closes:
  "win_newTransportInternal socket iocp p n sz numa = (Err e, isOpen) \<or>
   win_newClientTransportInternal resolve socket connect iocp p n sz numa = (Err e, isOpen) \<Longrightarrow> \<not> isOpen"
  by (auto simp: win_newTransportInternal_def win_newClientTransportInternal_def split: outcome.splits)

end
