(* ===== verification/LLServer.thy ===== *)
theory LLServer
  imports Transport EventLoop Control
begin

text \<open>
  The low-level server, \<^verbatim>\<open>lowlevel/server\<close>: its configuration, construction, the accept loop with
  the connection limit, the readers that push events, and shutdown (\<^verbatim>\<open>server.go\<close>, \<^verbatim>\<open>types.go\<close>,
  \<^verbatim>\<open>options.go\<close>, \<^verbatim>\<open>run.go\<close>, \<^verbatim>\<open>listener.go\<close>).  The accept goroutine, the readers and the callers of
  Shutdown are interleaved; the connection counter is changed under its mutex.
\<close>

section \<open>Configuration\<close>

datatype AffinityScope = ScopeProcess | ScopeThread | ScopeGoroutine

record Config =
  ListenAddr :: string
  IOBufferSize :: int
  ChannelCapacity :: int
  NUMANodeCfg :: int
  ReadTimeout :: int
  WriteTimeout :: int
  BatchSize :: int
  ReactorRing :: int
  ExecutorWorkers :: int
  AffinityScope :: AffinityScope
  ShutdownTimeout :: int
  MaxConnections :: int

definition DefaultConfig :: "int \<Rightarrow> Config" where
  "DefaultConfig numCPU =
     \<lparr>ListenAddr = '':9000'', IOBufferSize = 64 * 1024, ChannelCapacity = 64, NUMANodeCfg = -1, ReadTimeout = 0,
      WriteTimeout = 0, BatchSize = 32, ReactorRing = 1024, ExecutorWorkers = numCPU, AffinityScope = ScopeThread,
      ShutdownTimeout = 30 * 1000000000, MaxConnections = 10000\<rparr>"

text \<open>
  The executor is started by the constructor and used by no operation of the server: it is kept as
  its number of workers.
\<close>

record 'h Server =
  sv_cfg :: Config
  sv_control :: "(unit, unit) ControlAdapter"
  sv_pool :: nat
  sv_listener :: WebSocketListener
  sv_poller :: "('h, nat \<times> Buffer) PollerAdapter"
  sv_workers :: int
  sv_middleware :: "('h \<Rightarrow> 'h) list"
  sv_shutdown :: bool
  sv_connCount :: "64 word"

definition WithMiddleware :: "('h \<Rightarrow> 'h) list \<Rightarrow> 'h Server \<Rightarrow> 'h Server" where
  "WithMiddleware mw s = s\<lparr>sv_middleware := sv_middleware s @ mw\<rparr>"

definition WithAffinityScope :: "AffinityScope \<Rightarrow> 'h Server \<Rightarrow> 'h Server" where
  "WithAffinityScope scope s = s\<lparr>sv_cfg := (sv_cfg s)\<lparr>AffinityScope := scope\<rparr>\<rparr>"

definition WithBatchSize :: "int \<Rightarrow> 'h Server \<Rightarrow> 'h Server" where
  "WithBatchSize batch s = s\<lparr>sv_cfg := (sv_cfg s)\<lparr>BatchSize := batch\<rparr>\<rparr>"

definition WithExecutorWorkers :: "int \<Rightarrow> 'h Server \<Rightarrow> 'h Server" where
  "WithExecutorWorkers n s = s\<lparr>sv_cfg := (sv_cfg s)\<lparr>ExecutorWorkers := n\<rparr>\<rparr>"

definition UseMiddleware :: "'h Server \<Rightarrow> ('h \<Rightarrow> 'h) list \<Rightarrow> 'h Server" where
  "UseMiddleware s mw = s\<lparr>sv_middleware := sv_middleware s @ mw\<rparr>"

text \<open>
  The pool of a manager of its own, as \<^verbatim>\<open>WithListenerNUMANode\<close> makes one: fresh tables over the
  same memory.
\<close>

definition own_manager_pool :: "nat \<Rightarrow> int \<Rightarrow> int \<Rightarrow> pools \<Rightarrow> int \<Rightarrow> int \<Rightarrow> (nat \<times> pools) outcome option" where
  "own_manager_pool alloc_max numaNodes currentNode w size0 node =
     (case NewBufferPoolManager numaNodes of
        Ok nodes \<Rightarrow>
          bind_loop (GetPool alloc_max numaNodes currentNode (w\<lparr>pl_nodes := nodes\<rparr>) size0 node) (\<lambda>(p, w').
            Some (Ok (p, w'\<lparr>pl_nodes := pl_nodes w\<rparr>)))
      | Err e \<Rightarrow> Some (Err e)
      | Panic \<Rightarrow> Some Panic)"

text \<open>\<^verbatim>\<open>NewServer\<close>: the process-wide pool of the configured size, then the listener with its own pool.\<close>

definition NewServer ::
  "nat \<Rightarrow> int \<Rightarrow> int \<Rightarrow> int \<Rightarrow> unit outcome \<Rightarrow> pools \<Rightarrow> Config option \<Rightarrow> ('h Server \<Rightarrow> 'h Server) list \<Rightarrow>
     ('h Server \<times> pools) outcome option" where
  "NewServer alloc_max numCPU numaNodes currentNode listen w cfg0 opts =
     (let cfg = (case cfg0 of None \<Rightarrow> DefaultConfig numCPU | Some cfg \<Rightarrow> cfg) in
     bind_loop (GetPool alloc_max numaNodes currentNode w (IOBufferSize cfg) (NUMANodeCfg cfg)) (\<lambda>(bp, w1).
     bind_loop (own_manager_pool alloc_max numaNodes currentNode w1 4096 (NUMANodeCfg cfg)) (\<lambda>(lp, w2).
     case NewWebSocketListener listen bp (ChannelCapacity cfg) [WithListenerNUMANode lp (NUMANodeCfg cfg)] of
       Err e \<Rightarrow> Some (Err e)
     | Panic \<Rightarrow> Some Panic
     | Ok wsl \<Rightarrow>
         if ReactorRing cfg < 0 then Some Panic
         else Some (Ok (foldl (\<lambda>s opt. opt s)
           \<lparr>sv_cfg = cfg, sv_control = NewControlAdapter numCPU, sv_pool = bp, sv_listener = wsl,
            sv_poller = NewPollerAdapter (BatchSize cfg) (nat (ReactorRing cfg)),
            sv_workers = (if ExecutorWorkers cfg \<le> 0 then numCPU else ExecutorWorkers cfg),
            sv_middleware = [], sv_shutdown = False, sv_connCount = 0\<rparr> opts, w2)))))"

definition GetActiveConnections :: "'h Server \<Rightarrow> int" where
  "GetActiveConnections s = sint (sv_connCount s)"

section \<open>The package's own listener\<close>

text \<open>
  \<^verbatim>\<open>listener.go\<close>: a listener without options whose transport has no closed flag of its own (closing
  is left to the connection, whose answers are arguments) and passes errors on as they are.
\<close>

record Listener =
  ls_pool :: nat
  ls_chanCap :: int
  ls_numaNode :: int

definition NewListener :: "unit outcome \<Rightarrow> nat \<Rightarrow> int \<Rightarrow> int \<Rightarrow> Listener outcome" where
  "NewListener listen pool chanCap numaNode =
     bind_outcome (case listen of Err e \<Rightarrow> Err (ErrWrap ''listen'' e) | r \<Rightarrow> r) (\<lambda>_.
       Ok \<lparr>ls_pool = pool, ls_chanCap = chanCap, ls_numaNode = numaNode\<rparr>)"

definition ls_Accept :: "tcp_conn outcome \<Rightarrow> Listener \<Rightarrow> (bufferedConnTransport \<times> WSConnection) outcome" where
  "ls_Accept acc l =
     bind_outcome acc (\<lambda>tcp.
       case DoHandshakeCoreBuffered (tc_request tcp) (tc_rest tcp) of
         Err e \<Rightarrow> Err (ErrWrap ''handshake req'' e)
       | Panic \<Rightarrow> Panic
       | Ok (hdrs, path, br) \<Rightarrow>
           (case WriteHandshakeResponse (tc_fail tcp) hdrs of
              (out, Some e) \<Rightarrow> Err (ErrWrap ''handshake resp'' e)
            | (out, None) \<Rightarrow>
                bind_outcome (NewWSConnection (ls_pool l) (ls_chanCap l)) (\<lambda>c.
                  Ok (\<lparr>bt_closed = False, bt_pool = ls_pool l, bt_numa = ls_numaNode l, bt_buffered = br,
                       bt_net = tc_net tcp, bt_wire = string_bytes out\<rparr>, c))))"

fun ls_Send :: "(nat \<Rightarrow> (nat \<times> goerr) option) \<Rightarrow> nat \<Rightarrow> bufferedConnTransport \<Rightarrow> bytes list \<Rightarrow> unit outcome \<times> bufferedConnTransport" where
  "ls_Send ans i t [] = (Ok (), t)"
| "ls_Send ans i t (b # bs) =
     (case ans i of
        Some (k, e) \<Rightarrow> (Err e, t\<lparr>bt_wire := bt_wire t @ take k b\<rparr>)
      | None \<Rightarrow> ls_Send ans (Suc i) (t\<lparr>bt_wire := bt_wire t @ b\<rparr>) bs)"

definition ls_Recv :: "read_ans \<Rightarrow> pools \<Rightarrow> bufferedConnTransport \<Rightarrow>
    (slice list outcome \<times> bufferedConnTransport \<times> pools) option" where
  "ls_Recv ans w t =
     (case pool_Get w (bt_pool t) 4096 (bt_numa t) of
        None \<Rightarrow> None
      | Some (Err e) \<Rightarrow> Some (Err e, t, w)
      | Some Panic \<Rightarrow> Some (Panic, t, w)
      | Some (Ok (buf, w1)) \<Rightarrow>
          (case bufio_Read ans (data_len buf) t of
             None \<Rightarrow> None
           | Some (Err e, t') \<Rightarrow>
               (case Buffer_Release w1 buf of
                  None \<Rightarrow> None
                | Some (Ok w2) \<Rightarrow> Some (Err e, t', w2)
                | Some (Err e') \<Rightarrow> Some (Err e', t', w1)
                | Some Panic \<Rightarrow> Some (Panic, t', w1))
           | Some (Panic, t') \<Rightarrow> Some (Panic, t', w1)
           | Some (Ok bs, t') \<Rightarrow>
               (case Data buf of
                  None \<Rightarrow> Some (Ok [], t', w1)
                | Some s \<Rightarrow>
                    Some (Ok [s\<lparr>sl_len := length bs\<rparr>], t', w1\<lparr>pl_heap := copy_into (pl_heap w1) s bs\<rparr>))))"

text \<open>
  The size asked for does not matter to a pool, so on an open connection a receive succeeds with
  the same result as the other listener's.
\<close>

lemma ls_Recv_agrees:
  assumes "\<not> bt_closed t"
  shows "ls_Recv ans w t = Some (Ok slices, t', w') \<longleftrightarrow> bt_Recv ans w t = Some (Ok slices, t', w')"
proof -
  have "pool_Get w (bt_pool t) 4096 (bt_numa t) = pool_Get w (bt_pool t) 8192 (bt_numa t)"
    by (simp add: pool_Get_def slab_Get_def)
  then show ?thesis using assms
    by (auto simp: ls_Recv_def bt_Recv_def split: option.splits outcome.splits)
qed

lemma ls_Accept_agrees:
  "map_outcome fst (ls_Accept (Ok tcp) l) = Ok t \<longleftrightarrow>
   map_outcome fst (wl_Accept (Ok tcp) \<lparr>wl_pool = ls_pool l, wl_channelSize = ls_chanCap l, wl_numa = ls_numaNode l, wl_closed = False\<rparr>) = Ok t"
  by (auto simp: ls_Accept_def wl_Accept_def NewWSConnection_def NewWSConnectionWithPath_def
      split: outcome.splits prod.splits option.splits if_splits)

section \<open>The run of the server\<close>

text \<open>
  \<open>rs_active\<close> are the connections with a running reader, \<open>rs_closed\<close> those closed by the limit or
  at the end of their reader; \<open>rs_accepting\<close> that the accept goroutine is alive; \<open>rs_panic\<close> that
  a second Shutdown closed the channel again.
\<close>

record 'h running = "'h Server" +
  rs_accepting :: bool
  rs_active :: "nat list"
  rs_closed :: "nat list"
  rs_accepted :: "nat list"
  rs_panic :: bool

definition ll_Run_start ::
  "(int \<Rightarrow> int \<Rightarrow> goerr option) \<Rightarrow> int \<Rightarrow> int \<Rightarrow> int \<Rightarrow> 'h Server \<Rightarrow> 'h \<Rightarrow> 'h running outcome" where
  "ll_Run_start pin numaNodes currentNode numCPU s handler =
     (case aff_Pin pin numaNodes currentNode numCPU NewAffinityAdapter (- 1) (NUMANodeCfg (sv_cfg s)) of
        (Some e, _) \<Rightarrow> Err e
      | (None, _) \<Rightarrow>
          (let hChain = NewHandlerChain handler (sv_middleware s)
           in Ok (Server.extend (s\<lparr>sv_poller := pa_Register (sv_poller s) hChain\<rparr>)
                (running.fields True [] [] [] False))))"

text \<open>One round of the accept goroutine: \<open>acc\<close> is the listener's answer, \<open>k\<close> names the connection.\<close>

definition accept_round :: "(bufferedConnTransport \<times> WSConnection) outcome \<Rightarrow> nat \<Rightarrow> 'h running \<Rightarrow> 'h running option" where
  "accept_round acc k s =
     (if \<not> rs_accepting s then None
      else case acc of
        Err e \<Rightarrow> Some (s\<lparr>rs_accepting := False\<rparr>)
      | Panic \<Rightarrow> None
      | Ok _ \<Rightarrow>
          (let s = s\<lparr>rs_accepted := rs_accepted s @ [k]\<rparr>
           in if MaxConnections (sv_cfg s) > 0 then
                (if sint (sv_connCount s) \<ge> MaxConnections (sv_cfg s)
                 then Some (s\<lparr>rs_closed := rs_closed s @ [k]\<rparr>)
                 else Some (s\<lparr>sv_connCount := sv_connCount s + 1, rs_active := rs_active s @ [k]\<rparr>))
              else Some (s\<lparr>rs_active := rs_active s @ [k]\<rparr>)))"

text \<open>The deferred part of \<^verbatim>\<open>handleConnWithTracking\<close>, when the reader of connection \<open>k\<close> ends.\<close>

definition reader_end :: "nat \<Rightarrow> 'h running \<Rightarrow> 'h running option" where
  "reader_end k s =
     (if k \<in> set (rs_active s)
      then Some (s\<lparr>rs_active := remove1 k (rs_active s), rs_closed := rs_closed s @ [k],
             sv_connCount := (if MaxConnections (sv_cfg s) > 0 then sv_connCount s - 1 else sv_connCount s)\<rparr>)
      else None)"

definition ll_Shutdown :: "'h running \<Rightarrow> 'h running" where
  "ll_Shutdown s = (if sv_shutdown s then s\<lparr>rs_panic := True\<rparr> else s\<lparr>sv_shutdown := True\<rparr>)"

text \<open>Teardown in \<^verbatim>\<open>Run\<close> after the signal: the listener and the poller stop; it then waits the timeout.\<close>

definition ll_teardown :: "'h running \<Rightarrow> 'h running option" where
  "ll_teardown s =
     (if sv_shutdown s
      then Some (s\<lparr>sv_listener := wl_Close (sv_listener s),
             sv_poller := pa_Stop (sv_poller s)\<rparr>)
      else None)"

datatype sv_act = SAccept "tcp_conn outcome" nat | SReaderEnd nat | SShutdown | STeardown

fun sv_step :: "sv_act \<Rightarrow> 'h running \<Rightarrow> 'h running option" where
  "sv_step (SAccept tcp k) s = accept_round (wl_Accept tcp (sv_listener s)) k s"
| "sv_step (SReaderEnd k) s = reader_end k s"
| "sv_step SShutdown s = (if rs_panic s then None else Some (ll_Shutdown s))"
| "sv_step STeardown s = ll_teardown s"

fun sv_run :: "sv_act list \<Rightarrow> 'h running \<Rightarrow> 'h running option" where
  "sv_run [] s = Some s"
| "sv_run (a # as) s = (case sv_step a s of None \<Rightarrow> None | Some s' \<Rightarrow> sv_run as s')"

section \<open>The reader of a connection\<close>

text \<open>
  One call of \<^verbatim>\<open>RecvZeroCopy\<close> over the buffered transport: the pieces it received are appended to the
  read buffer and decoded.
\<close>

definition reader_recv ::
  "read_ans \<Rightarrow> pools \<Rightarrow> bufferedConnTransport \<Rightarrow> WSConnection \<Rightarrow>
     (Buffer list outcome \<times> bufferedConnTransport \<times> WSConnection \<times> pools) option" where
  "reader_recv a w t c =
     (case bt_Recv a w t of
        None \<Rightarrow> None
      | Some (r, t', w') \<Rightarrow>
          map_option (\<lambda>(res, c', w''). (res, t', c', w''))
            (RecvZeroCopy_direct w' c
               (case r of Ok slices \<Rightarrow> Ok (map (slice_bytes (pl_heap w')) slices) | Err e \<Rightarrow> Err e | Panic \<Rightarrow> Panic)))"

text \<open>
  The loop of \<^verbatim>\<open>handleConnWithTracking\<close>: the events pushed so far, and whether the reader ended.
  It ends at the first error; a panic takes the process down and is \<^const>\<open>None\<close> here.
\<close>

fun reader_loop ::
  "read_ans list \<Rightarrow> pools \<Rightarrow> bufferedConnTransport \<Rightarrow> WSConnection \<Rightarrow> Buffer list \<Rightarrow>
     (Buffer list \<times> bool \<times> bufferedConnTransport \<times> WSConnection \<times> pools) option" where
  "reader_loop [] w t c evs = Some (evs, False, t, c, w)"
| "reader_loop (a # as) w t c evs =
     (case reader_recv a w t c of
        None \<Rightarrow> None
      | Some (Ok bufs, t', c', w') \<Rightarrow> reader_loop as w' t' c' (evs @ bufs)
      | Some (Err e, t', c', w') \<Rightarrow> Some (evs, True, t', c', w')
      | Some (Panic, t', c', w') \<Rightarrow> None)"

section \<open>Lemmas on the connection limit\<close>

definition limit_inv :: "'h running \<Rightarrow> bool" where
  "limit_inv s \<longleftrightarrow>
     (if MaxConnections (sv_cfg s) > 0
      then sv_connCount s = of_nat (length (rs_active s)) \<and> int (length (rs_active s)) \<le> MaxConnections (sv_cfg s)
      else sv_connCount s = 0) \<and>
     MaxConnections (sv_cfg s) < 2 ^ 63 \<and>
     mset (rs_accepted s) = mset (rs_active s) + mset (rs_closed s)"

lemma sint_of_nat_small: "int n < 2 ^ 63 \<Longrightarrow> sint (of_nat n :: 64 word) = int n"
  by (simp add: sint_uint unat_of_nat uint_nat signed_take_bit_int_eq_self)

lemma limit_inv_step:
  assumes "limit_inv s" and "sv_step a s = Some s'"
  shows "limit_inv s'"
proof (cases a)
  case (SAccept tcp k)
  have sm: "MaxConnections (sv_cfg s) > 0 \<Longrightarrow> sint (sv_connCount s) = int (length (rs_active s))"
    using assms(1) sint_of_nat_small [of "length (rs_active s)"] by (auto simp: limit_inv_def)
  show ?thesis using assms SAccept sm
    by (auto simp: limit_inv_def accept_round_def Let_def split: if_splits outcome.splits)
next
  case (SReaderEnd k)
  then have k: "k \<in> set (rs_active s)"
    and s': "s' = s\<lparr>rs_active := remove1 k (rs_active s), rs_closed := rs_closed s @ [k],
             sv_connCount := (if MaxConnections (sv_cfg s) > 0 then sv_connCount s - 1 else sv_connCount s)\<rparr>"
    using assms(2) by (auto simp: reader_end_def split: if_splits)
  obtain n where n: "length (rs_active s) = Suc n" "length (remove1 k (rs_active s)) = n"
    using k length_remove1 [of k "rs_active s"] by (cases "length (rs_active s)") auto
  have "mset (rs_active s) = add_mset k (mset (remove1 k (rs_active s)))" using k by simp
  then show ?thesis using assms(1) s' n by (auto simp: limit_inv_def)
next
  case SShutdown
  then show ?thesis using assms by (auto simp: limit_inv_def ll_Shutdown_def split: if_splits)
next
  case STeardown
  then show ?thesis using assms by (auto simp: limit_inv_def ll_teardown_def split: if_splits)
qed

lemma sv_run_invariant:
  assumes "\<And>a s s'. J s \<Longrightarrow> sv_step a s = Some s' \<Longrightarrow> J s'"
  shows "sv_run as s = Some s' \<Longrightarrow> J s \<Longrightarrow> J s'"
  by (induction as arbitrary: s) (auto split: option.splits dest: assms)

lemma not_accepting_step:
  "\<not> rs_accepting s \<Longrightarrow> sv_step a s = Some s' \<Longrightarrow> \<not> rs_accepting s' \<and> rs_accepted s' = rs_accepted s"
  by (cases a) (auto simp: accept_round_def reader_end_def ll_Shutdown_def ll_teardown_def split: if_splits)

lemma not_accepting_run:
  "sv_run as s = Some s' \<Longrightarrow> \<not> rs_accepting s \<Longrightarrow> \<not> rs_accepting s' \<and> rs_accepted s' = rs_accepted s"
proof (induction as arbitrary: s)
  case (Cons a as)
  then obtain s1 where s1: "sv_step a s = Some s1" "sv_run as s1 = Some s'" by (auto split: option.splits)
  then show ?case using not_accepting_step [OF Cons.prems(2) s1(1)] Cons.IH [OF s1(2)] by auto
qed simp

section \<open>Lemmas on the reader\<close>

lemma reader_recv_step:
  assumes ok: "pool_ok w p X" and p: "bt_pool t = p" "bufPool c = p" and pos: "0 < slab_size (pl_slabs w ! p)"
    and r: "reader_recv a w t c = Some (Ok bufs, t', c', w')"
  shows "\<exists>bs b fs. bs @ bt_buffered t' @ bt_net t' = bt_buffered t @ bt_net t \<and>
    drain (readBuf c @ bs) = (fs, readBuf c', Waiting) \<and>
    map (Buffer_Copy (pl_heap w')) bufs = map (\<lambda>f. take (nat (slab_size (pl_slabs w ! p))) (Payload f)) fs \<and>
    pool_ok w' p (rev bufs @ b # X) \<and> (\<forall>x\<in>set X. Buffer_Copy (pl_heap w') x = Buffer_Copy (pl_heap w) x) \<and>
    bt_pool t' = p \<and> bufPool c' = p \<and> slab_size (pl_slabs w' ! p) = slab_size (pl_slabs w ! p)"
proof -
  obtain slices w1 where rv: "bt_Recv a w t = Some (Ok slices, t', w1)"
    and rz: "RecvZeroCopy_direct w1 c (Ok (map (slice_bytes (pl_heap w1)) slices)) = Some (Ok bufs, c', w')"
    using r by (auto simp: reader_recv_def RecvZeroCopy_direct_def split: option.splits outcome.splits)
  from bt_Recv_cases [of w t X a slices t' w1] ok p pos rv obtain bs where
    rd: "bufio_Read a (nat (slab_size (pl_slabs w ! p))) t = Some (Ok bs, t')" "\<not> bt_closed t" by auto
  from bt_Recv_ok [of w t X a bs t'] ok p pos rd rv obtain s b where
    s: "slices = [s]" "slice_bytes (pl_heap w1) s = bs" "pool_ok w1 p (b # X)"
    "slab_size (pl_slabs w1 ! p) = slab_size (pl_slabs w ! p)"
    "\<forall>x\<in>set X. Buffer_Copy (pl_heap w1) x = Buffer_Copy (pl_heap w) x" by auto
  obtain fs rest st where d: "drain (readBuf c @ bs) = (fs, rest, st)" by (cases "drain (readBuf c @ bs)") auto
  let ?c = "c\<lparr>readBuf := readBuf c @ bs\<rparr>"
  have bp: "bufPool ?c = p" using p by simp
  have "pool_ok w1 (bufPool ?c) (rev [] @ b # X)" "drain (readBuf ?c) = (fs, rest, st)" using s(3) p d by simp_all
  from recv_frames_drain_full [OF this] obtain bufs2 c2 w2 where
    f: "recv_frames w1 ?c [] = Some (recv_result st bufs2, c2, w2)"
    "map (Buffer_Copy (pl_heap w2)) bufs2 = map (\<lambda>f. take (nat (slab_size (pl_slabs w1 ! p))) (Payload f)) fs"
    "pool_ok w2 p (rev bufs2 @ b # X)" "\<forall>x\<in>set (b # X). Buffer_Copy (pl_heap w2) x = Buffer_Copy (pl_heap w1) x"
    "readBuf c2 = rest" "bufPool c2 = p" "slab_size (pl_slabs w2 ! p) = slab_size (pl_slabs w1 ! p)"
    unfolding append.simps bp by (elim exE conjE) (rule that)
  have "recv_result st bufs2 = Ok bufs" "c2 = c'" "w2 = w'"
    using f(1) rz s(1,2) by (simp_all add: RecvZeroCopy_direct_def)
  moreover from this have "st = Waiting" "bufs2 = bufs" by (cases st; simp add: recv_result_def)+
  ultimately show ?thesis using bufio_Read_Ok [OF rd(1)] d f s p
    by (intro exI [of _ bs] exI [of _ b] exI [of _ fs]) simp
qed

lemma reader_loop_events:
  assumes "pool_ok w p X" "bt_pool t = p" "bufPool c = p" "0 < slab_size (pl_slabs w ! p)"
    and "reader_loop as w t c evs = Some (evs', False, t', c', w')"
  shows "\<exists>got new fs. evs' = evs @ new \<and> got @ bt_buffered t' @ bt_net t' = bt_buffered t @ bt_net t \<and>
    (as \<noteq> [] \<or> drain (readBuf c) = ([], readBuf c, Waiting) \<longrightarrow> drain (readBuf c @ got) = (fs, readBuf c', Waiting)) \<and>
    map (Buffer_Copy (pl_heap w')) new = map (\<lambda>f. take (nat (slab_size (pl_slabs w ! p))) (Payload f)) fs \<and>
    (\<forall>x\<in>set X. Buffer_Copy (pl_heap w') x = Buffer_Copy (pl_heap w) x)"
  using assms
proof (induction as arbitrary: w t c evs X)
  case Nil
  then show ?case by (intro exI [of _ "[]"]) auto
next
  case (Cons a as)
  obtain bufs t1 c1 w1 where r: "reader_recv a w t c = Some (Ok bufs, t1, c1, w1)"
    and l: "reader_loop as w1 t1 c1 (evs @ bufs) = Some (evs', False, t', c', w')"
    using Cons.prems(5) by (auto split: option.splits outcome.splits)
  from reader_recv_step [OF Cons.prems(1-4) r] obtain bs b fs where
    1: "bs @ bt_buffered t1 @ bt_net t1 = bt_buffered t @ bt_net t"
    "drain (readBuf c @ bs) = (fs, readBuf c1, Waiting)"
    "map (Buffer_Copy (pl_heap w1)) bufs = map (\<lambda>f. take (nat (slab_size (pl_slabs w ! p))) (Payload f)) fs"
    "pool_ok w1 p (rev bufs @ b # X)" "\<forall>x\<in>set X. Buffer_Copy (pl_heap w1) x = Buffer_Copy (pl_heap w) x"
    "bt_pool t1 = p" "bufPool c1 = p" "slab_size (pl_slabs w1 ! p) = slab_size (pl_slabs w ! p)"
    by (elim exE conjE) (rule that)
  have pos: "0 < slab_size (pl_slabs w1 ! p)" using 1(8) Cons.prems(4) by simp
  from Cons.IH [OF 1(4) 1(6) 1(7) pos l] obtain got new fs' where
    2: "evs' = (evs @ bufs) @ new" "got @ bt_buffered t' @ bt_net t' = bt_buffered t1 @ bt_net t1"
    "as \<noteq> [] \<or> drain (readBuf c1) = ([], readBuf c1, Waiting) \<longrightarrow> drain (readBuf c1 @ got) = (fs', readBuf c', Waiting)"
    "map (Buffer_Copy (pl_heap w')) new = map (\<lambda>f. take (nat (slab_size (pl_slabs w1 ! p))) (Payload f)) fs'"
    "\<forall>x\<in>set (rev bufs @ b # X). Buffer_Copy (pl_heap w') x = Buffer_Copy (pl_heap w1) x"
    by (elim exE conjE) (rule that)
  have "drain (readBuf c1 @ got) = (fs', readBuf c', Waiting)" using 2(3) drain_rest [OF 1(2)] by blast
  then have "drain (readBuf c @ bs @ got) = (fs @ fs', readBuf c', Waiting)"
    using drain_append [of "readBuf c @ bs" got] 1(2) by simp
  moreover have "map (Buffer_Copy (pl_heap w')) bufs = map (Buffer_Copy (pl_heap w1)) bufs" using 2(5) by simp
  then have "map (Buffer_Copy (pl_heap w')) (bufs @ new) =
      map (\<lambda>f. take (nat (slab_size (pl_slabs w ! p))) (Payload f)) (fs @ fs')"
    using 1(3,8) 2(4) by simp
  ultimately show ?case using 1(1,5) 2(1,2,5)
    by (intro exI [of _ "bs @ got"] exI [of _ "bufs @ new"] exI [of _ "fs @ fs'"]) simp
qed

lemma own_manager_pool_eq:
  assumes "1 \<le> nodes" and "4096 \<le> alloc_max"
  shows "own_manager_pool alloc_max nodes cur w sz node =
    Some (Ok (length (pl_slabs w), w\<lparr>pl_slabs := pl_slabs w @ [empty_slab (sizeClassUpperBound sz)]\<rparr>))"
  using NUMANodeAuto_range [of nodes cur node] assms newSlabPool_eq [OF assms(2), of "sizeClassUpperBound sz"]
  by (simp add: own_manager_pool_def NewBufferPoolManager_def GetPool_def getOrCreatePool_def Let_def)

lemma wl_Accept_Ok:
  assumes "wl_Accept (Ok tcp) wsl = Ok (t, c)"
  shows "bt_pool t = wl_pool wsl \<and> bt_buffered t = tc_rest tcp \<and> bt_net t = tc_net tcp \<and>
    bufPool c = wl_pool wsl \<and> readBuf c = [] \<and> \<not> bt_closed t"
  using assms
  by (auto simp: wl_Accept_def DoHandshakeCoreBuffered_def Let_def bind_outcome_eq_Ok NewWSConnectionWithPath_def
      split: if_splits outcome.splits prod.splits option.splits)

lemma accepted_reader_events:
  assumes "wl_Accept (Ok tcp) wsl = Ok (t, c)" and "pool_ok w (wl_pool wsl) held"
    and "0 < slab_size (pl_slabs w ! wl_pool wsl)" and "reader_loop as w t c [] = Some (evs, False, t', c', w')"
  shows "\<exists>got fs. got @ bt_buffered t' @ bt_net t' = tc_rest tcp @ tc_net tcp \<and>
    drain got = (fs, readBuf c', Waiting) \<and>
    map (Buffer_Copy (pl_heap w')) evs = map (\<lambda>f. take (nat (slab_size (pl_slabs w ! wl_pool wsl))) (Payload f)) fs"
proof -
  note acc = wl_Accept_Ok [OF assms(1)]
  from reader_loop_events [of w "wl_pool wsl" held t c as "[]" evs t' c' w'] acc assms(2-4)
  show ?thesis by (simp, elim exE conjE, intro exI conjI) simp_all
qed

section \<open>Properties\<close>

lemma limit_inv_start:
  assumes "ll_Run_start pin n cur cpus s h = Ok r" and "sv_connCount s = 0" and "MaxConnections (sv_cfg s) < 2 ^ 63"
  shows "limit_inv r \<and> sv_cfg r = sv_cfg s"
  using assms by (auto simp: ll_Run_start_def limit_inv_def Server.defs running.defs split: prod.splits option.splits)

lemma sv_cfg_step: "sv_step a s = Some s' \<Longrightarrow> sv_cfg s' = sv_cfg s"
  by (cases a) (auto simp: accept_round_def reader_end_def ll_Shutdown_def ll_teardown_def Let_def split: if_splits outcome.splits)

lemma sv_cfg_run: "sv_run as s = Some s' \<Longrightarrow> sv_cfg s' = sv_cfg s"
  using sv_run_invariant [of "\<lambda>s'. sv_cfg s' = sv_cfg s" as s s'] sv_cfg_step by metis


definition sample_server :: "nat Server" where
  "sample_server = \<lparr>sv_cfg = (DefaultConfig 4)\<lparr>MaxConnections := 1\<rparr>, sv_control = NewControlAdapter 4,
     sv_pool = 0, sv_listener = sample_listener, sv_poller = NewPollerAdapter 32 1024, sv_workers = 4, sv_middleware = [], sv_shutdown = False, sv_connCount = 0\<rparr>"

definition sample_running :: "nat running" where
  "sample_running = Server.extend (sample_server\<lparr>sv_poller := pa_Register (sv_poller sample_server) 7\<rparr>)
     (running.fields True [] [] [] False)"

lemma sample_start: "ll_Run_start (\<lambda>_ _. None) 1 0 4 sample_server 7 = Ok sample_running"
  by (simp add: ll_Run_start_def sample_running_def aff_Pin_def NewHandlerChain_def sample_server_def Let_def)

lemma sample_accepts_twice:
  "\<exists>s. sv_run [SAccept (Ok sample_tcp) 1, SAccept (Ok sample_tcp) 2] sample_running = Some s \<and>
     rs_active s = [1] \<and> rs_closed s = [2]"
proof -
  obtain tc where a: "wl_Accept (Ok sample_tcp) sample_listener = Ok tc" using sample_accept by blast
  have l: "sv_listener sample_running = sample_listener" by (simp add: sample_running_def sample_server_def Server.defs running.defs)
  show ?thesis using a
    by (simp add: accept_round_def sample_running_def sample_server_def Server.defs running.defs DefaultConfig_def Let_def)
qed


text \<open>
  Fact (one bad handshake stops the server).  When a client's request fails the handshake,
  the accept goroutine ends: whatever happens later, no connection is accepted any more.
\<close>

theorem server_accept_stops:
  assumes "rs_accepting s" and "\<not> wl_closed (sv_listener s)"
    and "DoHandshakeCoreBuffered (tc_request tcp) (tc_rest tcp) = Err e"
    and "sv_run (SAccept (Ok tcp) k # acts) s = Some s'"
  shows "\<not> rs_accepting s' \<and> rs_accepted s' = rs_accepted s"
proof -
  have "sv_step (SAccept (Ok tcp) k) s = Some (s\<lparr>rs_accepting := False\<rparr>)"
    using assms(1-3) by (simp add: accept_round_def wl_Accept_def)
  then have "sv_run acts (s\<lparr>rs_accepting := False\<rparr>) = Some s'" using assms(4) by simp
  from not_accepting_run [OF this] show ?thesis by simp
qed

definition bad_tcp :: tcp_conn where
  "bad_tcp = \<lparr>tc_request = Ok \<lparr>req_Header = [], req_Path = ''/''\<rparr>, tc_rest = [], tc_net = [], tc_fail = (\<lambda>_. None)\<rparr>"

theorem server_accept_stops_witness:
  "\<exists>s'. sv_run [SAccept (Ok bad_tcp) 1, SShutdown] sample_running = Some s' \<and> \<not> rs_accepting s' \<and> rs_accepted s' = []"
proof -
  have bad: "DoHandshakeCoreBuffered (tc_request bad_tcp) (tc_rest bad_tcp) = Err ErrInvalidUpgradeHeaders"
    by (simp add: DoHandshakeCoreBuffered_def bad_tcp_def headerContainsToken_def header_values_def)
  have r: "rs_accepting sample_running" "\<not> wl_closed (sv_listener sample_running)" "rs_accepted sample_running = []"
    by (simp_all add: sample_running_def sample_server_def sample_listener_def Server.defs running.defs)
  obtain s' where s': "sv_run [SAccept (Ok bad_tcp) 1, SShutdown] sample_running = Some s'"
    using bad by (simp add: accept_round_def wl_Accept_def sample_running_def sample_server_def sample_listener_def
        Server.defs running.defs ll_Shutdown_def)
  from server_accept_stops [OF r(1,2) bad s'] s' r(3) show ?thesis by auto
qed


lemma reader_recv_total:
  assumes ok: "pool_ok w (bt_pool t) X" and c: "bufPool c = bt_pool t" and pos: "0 < slab_size (pl_slabs w ! bt_pool t)"
    and rd: "\<not> bt_closed t" "bufio_Read a (nat (slab_size (pl_slabs w ! bt_pool t))) t = Some (Ok bs, t')"
    and d: "drain (readBuf c @ bs) = (fs, rest, Waiting)"
  shows "\<exists>bufs c' w'. reader_recv a w t c = Some (Ok bufs, t', c', w')"
proof -
  from bt_Recv_ok [OF ok rd pos] obtain s b w1 where
    s: "bt_Recv a w t = Some (Ok [s], t', w1)" "slice_bytes (pl_heap w1) s = bs" "pool_ok w1 (bt_pool t) (b # X)" by blast
  have "pool_ok w1 (bufPool (c\<lparr>readBuf := readBuf c @ bs\<rparr>)) (rev [] @ b # X)" using s(3) c by simp
  from recv_frames_drain [OF this] d obtain bufs c' w' where
    "recv_frames w1 (c\<lparr>readBuf := readBuf c @ bs\<rparr>) [] = Some (recv_result Waiting bufs, c', w')" by fastforce
  then show ?thesis using s(1,2) by (simp add: reader_recv_def RecvZeroCopy_direct_def recv_result_def)
qed

definition frame_tcp :: tcp_conn where
  "frame_tcp = sample_tcp\<lparr>tc_rest := encode_frame True hello_frame, tc_net := []\<rparr>"

lemma frame_tcp_accept: "\<exists>t c. wl_Accept (Ok frame_tcp) sample_listener = Ok (t, c)"
proof -
  have "DoHandshakeCoreBuffered (tc_request frame_tcp) (tc_rest frame_tcp) =
      Ok (response_headers (accept_key ''dGhlIHNhbXBsZSBub25jZQ==''), ''/chat'', tc_rest frame_tcp)"
    using sample_request_ok header_total_None [of sample_request]
    by (simp add: DoHandshakeCoreBuffered_def frame_tcp_def sample_tcp_def MaxHandshakeHeadersSize_def)
  then show ?thesis
    by (auto simp: wl_Accept_def sample_listener_def WriteHandshakeResponse_def frame_tcp_def sample_tcp_def write_seq_ok
        NewWSConnectionWithPath_def)
qed


text \<open>
  Fact (the configured buffer size is not used).  Whatever I/O buffer size is configured, a
  new server's listener takes its buffers, and so those of its connections, from a pool of its
  own with 4096-byte buffers, so longer messages are cut.
\<close>

theorem new_server_pool:
  assumes "pools_ok w" "4096 \<le> alloc_max" "1 \<le> nodes" "length (pl_nodes w) = nat nodes" "0 \<le> ReactorRing cfg"
  shows "\<exists>s w'. NewServer alloc_max cpus nodes cur (Ok ()) w (Some cfg) [] = Some (Ok (s, w')) \<and>
    slab_size (pl_slabs w' ! sv_pool s) = sizeClassUpperBound (IOBufferSize cfg) \<and>
    pl_slabs w' ! wl_pool (sv_listener s) = empty_slab 4096 \<and> wl_pool (sv_listener s) \<noteq> sv_pool s"
proof -
  let ?n = "NUMANodeAuto nodes cur (NUMANodeCfg cfg)"
  have n: "0 \<le> ?n" "nat ?n < length (pl_nodes w)"
    using NUMANodeAuto_range [of nodes cur "NUMANodeCfg cfg"] assms(3,4) by simp_all
  from getOrCreatePool_ok [OF assms(1,2) n(2), of "sizeClassUpperBound (IOBufferSize cfg)"] obtain p w1 where
    p: "getOrCreatePool alloc_max w (nat ?n) (sizeClassUpperBound (IOBufferSize cfg)) = Some (Ok (p, w1))"
      "p < length (pl_slabs w1)" "slab_size (pl_slabs w1 ! p) = sizeClassUpperBound (IOBufferSize cfg)" by blast
  have "GetPool alloc_max nodes cur w (IOBufferSize cfg) (NUMANodeCfg cfg) = Some (Ok (p, w1))"
    using p(1) n by (simp add: GetPool_def Let_def)
  moreover have "sizeClassUpperBound 4096 = 4096" by (simp add: sizeClassUpperBound_def sizeClasses_def)
  ultimately show ?thesis using p(2,3) assms(5) own_manager_pool_eq [OF assms(3,2), of cur w1 4096 "NUMANodeCfg cfg"]
    by (simp add: NewServer_def NewWebSocketListener_def WithListenerNUMANode_def nth_append)
qed

theorem new_server_pool_witness:
  "\<exists>s w'. NewServer 5000 4 1 0 (Ok ()) \<lparr>pl_heap = [], pl_slabs = [], pl_nodes = [Map.empty]\<rparr> (Some (DefaultConfig 4)) [] = Some (Ok (s, w')) \<and>
     slab_size (pl_slabs w' ! sv_pool (s :: nat Server)) = 65536 \<and> pl_slabs w' ! wl_pool (sv_listener s) = empty_slab 4096"
proof -
  let ?w = "\<lparr>pl_heap = [], pl_slabs = [], pl_nodes = [Map.empty]\<rparr>"
  have "NewBufferPoolManager 1 = Ok [Map.empty]" by (simp add: NewBufferPoolManager_def)
  from pools_ok_new [OF this] have ok: "pools_ok ?w" .
  have c: "sizeClassUpperBound (IOBufferSize (DefaultConfig 4)) = 65536"
    by (simp add: sizeClassUpperBound_def sizeClasses_def DefaultConfig_def)
  from new_server_pool [OF ok, of 5000 1 "DefaultConfig 4" 4 0] c show ?thesis by (auto simp: DefaultConfig_def)
qed

end
