(* ===== verification/LLClient.thy ===== *)
theory LLClient
  imports Transport ConnLoops Bags
begin

text \<open>
  The low-level client, \<^verbatim>\<open>lowlevel/client\<close>: the batch of encoded frames (\<^verbatim>\<open>batch.go\<close>), the transport
  with its one receive buffer (\<^verbatim>\<open>transport.go\<close>), construction, sending and receiving
  (\<^verbatim>\<open>facade.go\<close>).  Callers of Send and WriteMessage, the flushing goroutine and Close are
  interleaved; a batch is written frame by frame, each with one write on the connection.  The
  frames the connection's own send loop writes to the same socket are not shown here: every write
  is one whole frame.
\<close>

section \<open>The batch\<close>

record 'b Batch =
  ba_buffers :: "'b list"
  ba_cap :: int

definition NewBatch :: "int \<Rightarrow> 'b Batch outcome" where
  "NewBatch capacity = (if capacity < 0 then Panic else Ok \<lparr>ba_buffers = [], ba_cap = capacity\<rparr>)"

definition ba_Append :: "'b Batch \<Rightarrow> 'b \<Rightarrow> 'b Batch" where
  "ba_Append b buf = b\<lparr>ba_buffers := ba_buffers b @ [buf]\<rparr>"

definition ba_Swap :: "'b Batch \<Rightarrow> 'b list \<times> 'b Batch" where
  "ba_Swap b = (ba_buffers b, b\<lparr>ba_buffers := []\<rparr>)"

definition ba_Len :: "'b Batch \<Rightarrow> int" where
  "ba_Len b = int (length (ba_buffers b))"

section \<open>The transport\<close>

text \<open>\<open>nt_net\<close> is what the peer sent and nobody read, \<open>nt_wire\<close> what was written.\<close>

record netTransport =
  nt_pool :: nat
  nt_bufSize :: int
  nt_rxBuf :: Buffer
  nt_net :: bytes
  nt_wire :: bytes
  nt_connClosed :: bool

definition NewTransport :: "pools \<Rightarrow> bytes \<Rightarrow> nat \<Rightarrow> int \<Rightarrow> (netTransport \<times> pools) outcome option" where
  "NewTransport w net bp bufSize =
     bind_loop (pool_Get w bp bufSize (- 1)) (\<lambda>(rx, w').
       Some (Ok (\<lparr>nt_pool = bp, nt_bufSize = bufSize, nt_rxBuf = rx, nt_net = net, nt_wire = [],
                  nt_connClosed = False\<rparr>, w')))"

definition nt_GetBuffer :: "pools \<Rightarrow> netTransport \<Rightarrow> (Buffer \<times> pools) outcome option" where
  "nt_GetBuffer w t = pool_Get w (nt_pool t) (nt_bufSize t) (- 1)"

fun nt_write :: "(nat \<Rightarrow> (nat \<times> goerr) option) \<Rightarrow> nat \<Rightarrow> netTransport \<Rightarrow> bytes list \<Rightarrow> unit outcome \<times> netTransport" where
  "nt_write ans i t [] = (Ok (), t)"
| "nt_write ans i t (b # bs) =
     (case ans i of
        Some (k, e) \<Rightarrow> (Err (ErrWrap ''send error'' e), t\<lparr>nt_wire := nt_wire t @ take k b\<rparr>)
      | None \<Rightarrow> nt_write ans (Suc i) (t\<lparr>nt_wire := nt_wire t @ b\<rparr>) bs)"

definition nt_Send :: "(nat \<Rightarrow> (nat \<times> goerr) option) \<Rightarrow> netTransport \<Rightarrow> bytes list \<Rightarrow> unit outcome \<times> netTransport" where
  "nt_Send ans t bufs = nt_write ans 0 t bufs"

text \<open>\<^verbatim>\<open>conn.Read\<close> into \<open>n\<close> bytes; \<^const>\<open>None\<close>: the socket cannot give that answer.\<close>

definition net_Read :: "read_ans \<Rightarrow> nat \<Rightarrow> netTransport \<Rightarrow> (bytes outcome \<times> netTransport) option" where
  "net_Read ans n t =
     (if n = 0 then Some (Ok [], t)
      else case ans of
        ReadErr e \<Rightarrow> Some (Err e, t)
      | ReadN k \<Rightarrow>
          if k = 0 \<or> k > n \<or> k > length (nt_net t) then None
          else Some (Ok (take k (nt_net t)), t\<lparr>nt_net := drop k (nt_net t)\<rparr>))"

text \<open>The read into the receive buffer; its slice is returned to the caller.\<close>

definition nt_read_into :: "read_ans \<Rightarrow> pools \<Rightarrow> netTransport \<Rightarrow> (slice list outcome \<times> netTransport \<times> pools) option" where
  "nt_read_into ans w t =
     (case net_Read ans (data_len (nt_rxBuf t)) t of
        None \<Rightarrow> None
      | Some (Err e, t') \<Rightarrow> Some (Err (ErrWrap ''recv error'' e), t', w)
      | Some (Panic, t') \<Rightarrow> Some (Panic, t', w)
      | Some (Ok bs, t') \<Rightarrow>
          (case Data (nt_rxBuf t) of
             None \<Rightarrow> Some (Ok [], t', w)
           | Some s \<Rightarrow> Some (Ok [s\<lparr>sl_len := length bs\<rparr>], t', w\<lparr>pl_heap := copy_into (pl_heap w) s bs\<rparr>)))"

definition nt_Recv :: "read_ans \<Rightarrow> pools \<Rightarrow> netTransport \<Rightarrow> (slice list outcome \<times> netTransport \<times> pools) option" where
  "nt_Recv ans w t =
     (if int (data_len (nt_rxBuf t)) < nt_bufSize t then
        (case nt_GetBuffer w t of
           None \<Rightarrow> None
         | Some (Err e) \<Rightarrow> Some (Err e, t, w)
         | Some Panic \<Rightarrow> Some (Panic, t, w)
         | Some (Ok (rx, w')) \<Rightarrow> nt_read_into ans w' (t\<lparr>nt_rxBuf := rx\<rparr>))
      else nt_read_into ans w t)"

definition nt_Close :: "pools \<Rightarrow> netTransport \<Rightarrow> (netTransport \<times> pools) outcome option" where
  "nt_Close w t =
     bind_loop (if Data (nt_rxBuf t) \<noteq> None then Buffer_Release w (nt_rxBuf t) else Some (Ok w)) (\<lambda>w'.
       Some (Ok (t\<lparr>nt_connClosed := True\<rparr>, w')))"

section \<open>Construction\<close>

record ClientConfig =
  cc_Addr :: string
  cc_IOBufferSize :: int
  cc_BatchSize :: int
  cc_NUMANode :: int
  cc_ReadTimeout :: int
  cc_WriteTimeout :: int
  cc_Heartbeat :: int

definition DefaultClientConfig :: ClientConfig where
  "DefaultClientConfig =
     \<lparr>cc_Addr = ''ws://localhost:9000'', cc_IOBufferSize = 64 * 1024, cc_BatchSize = 16, cc_NUMANode = -1,
      cc_ReadTimeout = 5 * 1000000000, cc_WriteTimeout = 5 * 1000000000, cc_Heartbeat = 30 * 1000000000\<rparr>"

text \<open>The request line and headers the client writes.\<close>

definition request_lines :: "string \<Rightarrow> string \<Rightarrow> string \<Rightarrow> string list" where
  "request_lines path0 host secKey =
     (let path = (if path0 = [] then ''/'' else path0)
      in [''GET '' @ path @ '' HTTP/1.1'', ''Host: '' @ host, ''Upgrade: websocket'', ''Connection: Upgrade'',
          ''Sec-WebSocket-Key: '' @ secKey, ''Sec-WebSocket-Version: 13'', []])"

definition reqStr :: "string \<Rightarrow> string \<Rightarrow> string \<Rightarrow> string" where
  "reqStr path host secKey = concat (map (\<lambda>l. l @ crlf) (request_lines path host secKey))"

text \<open>
  The client: the flushing goroutine and the calls in progress with where they are, and what
  was written.  \<open>cl_written\<close> are the frames written in full, in order, \<open>cl_lost\<close> those a failed
  write took with it; \<open>cl_accepted\<close> is the history of frames put in the batch and \<open>cl_late\<close> those
  put there after Close began.
\<close>

datatype call_pc = C_Len | C_Signal | C_Flush | C_Writing "bytes list" | C_Done
datatype loop_pc = L_Select | L_Flush bool | L_Writing bool "bytes list" | L_Gone

record Client =
  cl_batchSize :: int
  cl_batch :: "bytes Batch"
  cl_flushCh :: bool
  cl_cancelled :: bool
  cl_closed :: bool
  cl_loop :: loop_pc
  cl_calls :: "call_pc list"
  cl_wire :: bytes
  cl_written :: "bytes list"
  cl_lost :: "bytes list"
  cl_accepted :: "WSFrame list"
  cl_late :: "bytes list"

definition client_of :: "int \<Rightarrow> bytes Batch \<Rightarrow> Client" where
  "client_of n b =
     \<lparr>cl_batchSize = n, cl_batch = b, cl_flushCh = False, cl_cancelled = False, cl_closed = False,
      cl_loop = L_Select, cl_calls = [], cl_wire = [], cl_written = [], cl_lost = [], cl_accepted = [], cl_late = []\<rparr>"

text \<open>
  \<^verbatim>\<open>NewClient\<close>: \<open>parse\<close>, \<open>dial\<close>, \<open>sent\<close> and \<open>resp\<close> are the answers of URL parsing, of the
  connection, of writing the request and of reading the response; \<open>net\<close> is what the server sends
  after it.
\<close>

definition NewClient ::
  "nat \<Rightarrow> int \<Rightarrow> int \<Rightarrow> (string \<Rightarrow> (string \<times> string) outcome) \<Rightarrow> unit outcome \<Rightarrow> (string \<Rightarrow> unit outcome) \<Rightarrow>
     http_response outcome \<Rightarrow> bytes \<Rightarrow> string \<Rightarrow> pools \<Rightarrow> ClientConfig option \<Rightarrow>
     (Client \<times> netTransport \<times> conn \<times> pools) outcome option" where
  "NewClient alloc_max numaNodes currentNode parse dial sent resp net secKey w cfg0 =
     (let cfg = (case cfg0 of None \<Rightarrow> DefaultClientConfig | Some cfg \<Rightarrow> cfg)
      in case parse (cc_Addr cfg) of
           Err e \<Rightarrow> Some (Err (ErrWrap ''invalid URL'' e))
         | Panic \<Rightarrow> Some Panic
         | Ok (host, path) \<Rightarrow>
      (case dial of
           Err e \<Rightarrow> Some (Err (ErrWrap ''dial error'' e))
         | Panic \<Rightarrow> Some Panic
         | Ok _ \<Rightarrow>
      (case sent (reqStr path host secKey) of
           Err e \<Rightarrow> Some (Err e)
         | Panic \<Rightarrow> Some Panic
         | Ok _ \<Rightarrow>
      (case DoClientHandshake resp of
           Err e \<Rightarrow> Some (Err (ErrWrap ''fallback handshake failed'' e))
         | Panic \<Rightarrow> Some Panic
         | Ok _ \<Rightarrow>
             bind_loop (GetPool alloc_max numaNodes currentNode w (cc_IOBufferSize cfg) (cc_NUMANode cfg)) (\<lambda>(tp, w1).
             bind_loop (NewTransport w1 net tp (cc_IOBufferSize cfg)) (\<lambda>(tr, w2).
             bind_loop (GetPool alloc_max numaNodes currentNode w2 (cc_IOBufferSize cfg) (cc_NUMANode cfg)) (\<lambda>(bp, w3).
             bind_loop (Some (NewWSConnection bp (cc_BatchSize cfg))) (\<lambda>ws.
             bind_loop (Some (NewBatch (cc_BatchSize cfg))) (\<lambda>b.
               Some (Ok (client_of (cc_BatchSize cfg) b, tr, Start (new_conn ws), w3)))))))))))"

section \<open>Sending\<close>

definition client_frame :: "byte \<Rightarrow> bytes \<Rightarrow> WSFrame" where
  "client_frame opcode msg =
     \<lparr>IsFinal = True, Opcode = opcode, Masked = True, PayloadLen = int (length msg), MaskKey = [0, 0, 0, 0], Payload = msg\<rparr>"

text \<open>The first part of \<^verbatim>\<open>WriteMessage\<close>: encode and append; an encoding error ends the call.\<close>

definition WriteMessage_start :: "int \<Rightarrow> bytes \<Rightarrow> Client \<Rightarrow> unit outcome \<times> Client" where
  "WriteMessage_start messageType data c =
     (case EncodeFrameToBufferWithMask (client_frame (word_of_int messageType) data) True [] of
        Err e \<Rightarrow> (Err e, c)
      | Panic \<Rightarrow> (Panic, c)
      | Ok raw \<Rightarrow>
          (Ok (), c\<lparr>cl_batch := ba_Append (cl_batch c) raw, cl_calls := cl_calls c @ [C_Len],
                    cl_accepted := cl_accepted c @ [client_frame (word_of_int messageType) data],
                    cl_late := (if cl_cancelled c then cl_late c @ [raw] else cl_late c)\<rparr>))"

text \<open>\<^verbatim>\<open>Send\<close> is the same for binary messages, with the error swallowed.\<close>

definition Send_start :: "bytes \<Rightarrow> Client \<Rightarrow> Client" where
  "Send_start msg c = snd (WriteMessage_start (uint OpcodeBinary) msg c)"

definition signalFlush :: "Client \<Rightarrow> Client" where
  "signalFlush c = c\<lparr>cl_flushCh := True\<rparr>"

text \<open>\<^verbatim>\<open>flush\<close> in two parts: taking the batch, and one write of the transport (\<open>Some k\<close>: it fails after \<open>k\<close> bytes).\<close>

definition flush_swap :: "Client \<Rightarrow> bytes list \<times> Client" where
  "flush_swap c = (case ba_Swap (cl_batch c) of (batch, b) \<Rightarrow> (batch, c\<lparr>cl_batch := b\<rparr>))"

fun flush_write :: "nat option \<Rightarrow> bytes list \<Rightarrow> Client \<Rightarrow> bytes list \<times> Client" where
  "flush_write ans [] c = ([], c)"
| "flush_write None (b # bs) c = (bs, c\<lparr>cl_wire := cl_wire c @ b, cl_written := cl_written c @ [b]\<rparr>)"
| "flush_write (Some k) (b # bs) c = ([], c\<lparr>cl_wire := cl_wire c @ take k b, cl_lost := cl_lost c @ b # bs\<rparr>)"

definition writing :: "bytes list \<Rightarrow> call_pc" where
  "writing bs = (if bs = [] then C_Done else C_Writing bs)"

definition set_call :: "nat \<Rightarrow> call_pc \<Rightarrow> Client \<Rightarrow> Client" where
  "set_call i pc c = c\<lparr>cl_calls := (cl_calls c)[i := pc]\<rparr>"

text \<open>The rest of a call of Send or WriteMessage.\<close>

definition call_step :: "nat \<Rightarrow> nat option \<Rightarrow> Client \<Rightarrow> Client option" where
  "call_step i ans c =
     (if \<not> i < length (cl_calls c) then None
      else case cl_calls c ! i of
        C_Len \<Rightarrow> Some (set_call i (if ba_Len (cl_batch c) \<ge> cl_batchSize c then C_Flush else C_Signal) c)
      | C_Signal \<Rightarrow> Some (set_call i C_Done (signalFlush c))
      | C_Flush \<Rightarrow> (case flush_swap c of (batch, c') \<Rightarrow> Some (set_call i (writing batch) c'))
      | C_Writing bs \<Rightarrow> (case flush_write ans bs c of (rest, c') \<Rightarrow> Some (set_call i (writing rest) c'))
      | C_Done \<Rightarrow> None)"

text \<open>\<^verbatim>\<open>sendLoop\<close>: a tick or a flush request flushes, cancellation flushes once more and ends.\<close>

datatype wake = W_Tick | W_Flush | W_Cancel

definition loop_writing :: "bool \<Rightarrow> bytes list \<Rightarrow> loop_pc" where
  "loop_writing final bs = (if bs \<noteq> [] then L_Writing final bs else if final then L_Gone else L_Select)"

definition sendLoop_step :: "wake \<Rightarrow> nat option \<Rightarrow> Client \<Rightarrow> Client option" where
  "sendLoop_step wk ans c =
     (case cl_loop c of
        L_Select \<Rightarrow>
          (case wk of
             W_Tick \<Rightarrow> Some (c\<lparr>cl_loop := L_Flush False\<rparr>)
           | W_Flush \<Rightarrow> if cl_flushCh c then Some (c\<lparr>cl_flushCh := False, cl_loop := L_Flush False\<rparr>) else None
           | W_Cancel \<Rightarrow> if cl_cancelled c then Some (c\<lparr>cl_loop := L_Flush True\<rparr>) else None)
      | L_Flush final \<Rightarrow> (case flush_swap c of (batch, c') \<Rightarrow> Some (c'\<lparr>cl_loop := loop_writing final batch\<rparr>))
      | L_Writing final bs \<Rightarrow> (case flush_write ans bs c of (rest, c') \<Rightarrow> Some (c'\<lparr>cl_loop := loop_writing final rest\<rparr>))
      | L_Gone \<Rightarrow> None)"

text \<open>\<^verbatim>\<open>Close\<close> cancels, waits for the goroutine and closes the connection.\<close>

definition client_cancel :: "Client \<Rightarrow> Client" where
  "client_cancel c = c\<lparr>cl_cancelled := True\<rparr>"

definition client_closed :: "Client \<Rightarrow> Client option" where
  "client_closed c = (if cl_cancelled c \<and> cl_loop c = L_Gone then Some (c\<lparr>cl_closed := True\<rparr>) else None)"

datatype cl_act = ASend int bytes | ACall nat "nat option" | ALoop wake "nat option" | ACancel | AClosed

fun cl_step :: "cl_act \<Rightarrow> Client \<Rightarrow> Client option" where
  "cl_step (ASend mt data) c = Some (snd (WriteMessage_start mt data c))"
| "cl_step (ACall i ans) c = call_step i ans c"
| "cl_step (ALoop wk ans) c = sendLoop_step wk ans c"
| "cl_step ACancel c = Some (client_cancel c)"
| "cl_step AClosed c = client_closed c"

fun cl_run :: "cl_act list \<Rightarrow> Client \<Rightarrow> Client option" where
  "cl_run [] c = Some c"
| "cl_run (a # as) c = (case cl_step a c of None \<Rightarrow> None | Some c' \<Rightarrow> cl_run as c')"

definition heartbeat_frame :: WSFrame where
  "heartbeat_frame =
     \<lparr>IsFinal = True, Opcode = OpcodePing, Masked = False, PayloadLen = 0, MaskKey = [0, 0, 0, 0], Payload = []\<rparr>"

section \<open>Receiving\<close>

definition client_Recv :: "goerr \<Rightarrow> Client \<Rightarrow> 'b list outcome \<Rightarrow> 'b list outcome" where
  "client_Recv ctxErr c recv = (if cl_cancelled c then Err ctxErr else recv)"

text \<open>Every message is reported as binary.\<close>

definition ReadBuffer :: "'b list outcome \<Rightarrow> (int \<times> 'b) outcome" where
  "ReadBuffer recv =
     (case recv of
        Err e \<Rightarrow> Err e
      | Panic \<Rightarrow> Panic
      | Ok [] \<Rightarrow> Err (ErrNew ''no message received'')
      | Ok (b # _) \<Rightarrow> Ok (uint OpcodeBinary, b))"

definition client_ReadMessage :: "pools \<Rightarrow> recv_buffer list outcome \<Rightarrow> ((int \<times> bytes) \<times> pools) outcome option" where
  "client_ReadMessage w recv =
     (case ReadBuffer recv of
        Err e \<Rightarrow> Some (Err e)
      | Panic \<Rightarrow> Some Panic
      | Ok (mt, Aliased d) \<Rightarrow> Some (Ok ((mt, d), w))
      | Ok (mt, Pooled b) \<Rightarrow>
          bind_loop (Buffer_Release w b) (\<lambda>w'. Some (Ok ((mt, Buffer_Copy (pl_heap w) b), w'))))"

text \<open>The JSON calls; the coding itself is a parameter.\<close>

definition client_ReadJSON :: "(bytes \<Rightarrow> 'v outcome) \<Rightarrow> pools \<Rightarrow> recv_buffer list outcome \<Rightarrow> ('v \<times> pools) outcome option" where
  "client_ReadJSON unmarshal w recv =
     bind_loop (client_ReadMessage w recv) (\<lambda>((mt, payload), w').
       Some (bind_outcome (unmarshal payload) (\<lambda>v. Ok (v, w'))))"

definition client_WriteJSON_start :: "('v \<Rightarrow> bytes outcome) \<Rightarrow> 'v \<Rightarrow> Client \<Rightarrow> unit outcome \<times> Client" where
  "client_WriteJSON_start marshal v c =
     (case marshal v of Err e \<Rightarrow> (Err e, c) | Panic \<Rightarrow> (Panic, c) | Ok d \<Rightarrow> WriteMessage_start (uint OpcodeBinary) d c)"

text \<open>\<^verbatim>\<open>transportAdapter\<close>: a reader over the pieces a transport receives; only the first piece of a batch is kept.\<close>

definition ta_Read :: "bytes list outcome \<Rightarrow> nat \<Rightarrow> bytes \<Rightarrow> bytes outcome \<times> bytes" where
  "ta_Read recv n excess =
     (if excess \<noteq> [] then (Ok (take n excess), drop n excess)
      else case recv of
        Err e \<Rightarrow> (Err e, excess)
      | Panic \<Rightarrow> (Panic, excess)
      | Ok [] \<Rightarrow> (Ok [], excess)
      | Ok (b # _) \<Rightarrow> (Ok (take n b), if n < length b then drop n b else excess))"

definition ta_Write :: "(bytes list \<Rightarrow> unit outcome) \<Rightarrow> bytes \<Rightarrow> nat outcome" where
  "ta_Write send p = bind_outcome (send [p]) (\<lambda>_. Ok (length p))"

section \<open>Lemmas on sending\<close>

fun call_bufs :: "call_pc \<Rightarrow> bytes list" where
  "call_bufs (C_Writing bs) = bs"
| "call_bufs _ = []"

fun loop_bufs :: "loop_pc \<Rightarrow> bytes list" where
  "loop_bufs (L_Writing final bs) = bs"
| "loop_bufs _ = []"

fun loop_final :: "loop_pc \<Rightarrow> bool" where
  "loop_final (L_Flush final) = final"
| "loop_final (L_Writing final bs) = final"
| "loop_final L_Gone = True"
| "loop_final L_Select = False"

fun after_swap :: "loop_pc \<Rightarrow> bool" where
  "after_swap (L_Writing final bs) = final"
| "after_swap L_Gone = True"
| "after_swap _ = False"

lemma writing_bufs [simp]: "call_bufs (writing bs) = bs"
  by (simp add: writing_def)

lemma loop_writing_simps [simp]:
  "loop_bufs (loop_writing final bs) = bs"
  "loop_final (loop_writing final bs) = final"
  "after_swap (loop_writing final bs) = final"
  by (simp_all add: loop_writing_def)

text \<open>Everything accepted is written, lost, in the batch or in somebody's hands.\<close>

definition held_bufs :: "Client \<Rightarrow> bytes multiset" where
  "held_bufs c = mset (cl_written c) + mset (cl_lost c) + mset (ba_buffers (cl_batch c)) +
     mset (loop_bufs (cl_loop c)) + mset (concat (map call_bufs (cl_calls c)))"

definition cl_inv :: "Client \<Rightarrow> bool" where
  "cl_inv c \<longleftrightarrow>
     mset (map (encode_frame True) (cl_accepted c)) = held_bufs c \<and> (\<forall>f\<in>set (cl_accepted c). wf_frame f) \<and>
     (cl_lost c = [] \<longrightarrow> cl_wire c = concat (cl_written c)) \<and>
     (loop_final (cl_loop c) \<longrightarrow> cl_cancelled c) \<and>
     (after_swap (cl_loop c) \<longrightarrow> set (ba_buffers (cl_batch c)) \<subseteq> set (cl_late c)) \<and>
     (cl_closed c \<longrightarrow> cl_loop c = L_Gone)"

lemma set_call_fields [simp]:
  "cl_accepted (set_call i pc c) = cl_accepted c" "cl_lost (set_call i pc c) = cl_lost c"
  "cl_wire (set_call i pc c) = cl_wire c" "cl_written (set_call i pc c) = cl_written c"
  "cl_loop (set_call i pc c) = cl_loop c" "cl_cancelled (set_call i pc c) = cl_cancelled c"
  "cl_batch (set_call i pc c) = cl_batch c" "cl_late (set_call i pc c) = cl_late c"
  "cl_closed (set_call i pc c) = cl_closed c" "cl_calls (set_call i pc c) = (cl_calls c)[i := pc]"
  "cl_batchSize (set_call i pc c) = cl_batchSize c"
  by (simp_all add: set_call_def)

lemma held_set_call:
  "i < length (cl_calls c) \<Longrightarrow> held_bufs (set_call i pc c) + mset (call_bufs (cl_calls c ! i)) = held_bufs c + mset (call_bufs pc)"
  using mset_concat_update [of i "cl_calls c" call_bufs pc] by (simp add: held_bufs_def ac_simps)

lemma flush_write_held:
  assumes "flush_write ans bs c = (rest, c')"
  shows "held_bufs c' + mset rest = held_bufs c + mset bs" "cl_calls c' = cl_calls c" "cl_loop c' = cl_loop c"
    "cl_accepted c' = cl_accepted c" "cl_cancelled c' = cl_cancelled c" "cl_closed c' = cl_closed c"
    "cl_batch c' = cl_batch c" "cl_late c' = cl_late c" "cl_batchSize c' = cl_batchSize c"
    "(cl_lost c = [] \<longrightarrow> cl_wire c = concat (cl_written c)) \<Longrightarrow> cl_lost c' = [] \<longrightarrow> cl_wire c' = concat (cl_written c')"
    "cl_lost c' = [] \<Longrightarrow> cl_written c' @ rest = cl_written c @ bs \<and> cl_lost c = []"
  using assms by (cases "(ans, bs, c)" rule: flush_write.cases; auto simp: held_bufs_def ac_simps)+

lemma flush_swap_held:
  assumes "flush_swap c = (batch, c')"
  shows "held_bufs c' + mset batch = held_bufs c" "batch = ba_buffers (cl_batch c)" "c' = c\<lparr>cl_batch := (cl_batch c)\<lparr>ba_buffers := []\<rparr>\<rparr>"
  using assms by (auto simp: flush_swap_def ba_Swap_def held_bufs_def ac_simps)

lemma held_loop:
  "held_bufs (c\<lparr>cl_loop := l\<rparr>) + mset (loop_bufs (cl_loop c)) = held_bufs c + mset (loop_bufs l)"
  by (simp add: held_bufs_def ac_simps)

lemma WriteMessage_start_Ok:
  assumes "WriteMessage_start mt data c = (r, c')"
  shows "c' = c \<or> (\<exists>f. wf_frame f \<and> c' = c\<lparr>cl_batch := ba_Append (cl_batch c) (encode_frame True f),
      cl_calls := cl_calls c @ [C_Len], cl_accepted := cl_accepted c @ [f],
      cl_late := (if cl_cancelled c then cl_late c @ [encode_frame True f] else cl_late c)\<rparr>)"
proof (cases "EncodeFrameToBufferWithMask (client_frame (word_of_int mt) data) True []")
  case (Ok raw)
  let ?f = "client_frame (word_of_int mt) data"
  have "wf_frame ?f" using Ok by (auto simp: wf_frame_def client_frame_def EncodeFrameToBufferWithMask_def split: if_splits)
  moreover have "raw = encode_frame True ?f" using Ok by (simp add: encode_frame_def EncodeFrameToBytesWithMask_def)
  ultimately show ?thesis using assms Ok by (auto simp: WriteMessage_start_def)
qed (use assms in \<open>auto simp: WriteMessage_start_def\<close>)

lemma cl_inv_send: "cl_inv c \<Longrightarrow> cl_inv (snd (WriteMessage_start mt data c))"
proof -
  assume inv: "cl_inv c"
  obtain r c' where w: "WriteMessage_start mt data c = (r, c')" by (cases "WriteMessage_start mt data c")
  consider "c' = c" | f where "wf_frame f" "c' = c\<lparr>cl_batch := ba_Append (cl_batch c) (encode_frame True f),
      cl_calls := cl_calls c @ [C_Len], cl_accepted := cl_accepted c @ [f],
      cl_late := (if cl_cancelled c then cl_late c @ [encode_frame True f] else cl_late c)\<rparr>"
    using WriteMessage_start_Ok [OF w] by blast
  then show ?thesis
  proof cases
    case (2 f)
    have "after_swap (cl_loop c) \<Longrightarrow> cl_cancelled c" using inv by (cases "cl_loop c") (auto simp: cl_inv_def)
    then show ?thesis using inv 2 w by (auto simp: cl_inv_def held_bufs_def ba_Append_def)
  qed (use inv w in simp)
qed

lemma cl_inv_set_call:
  "cl_inv c \<Longrightarrow> i < length (cl_calls c) \<Longrightarrow> call_bufs (cl_calls c ! i) = call_bufs pc \<Longrightarrow> cl_inv (set_call i pc c)"
  using held_set_call [of i c pc] by (simp add: cl_inv_def)

lemma cl_inv_swap_call:
  assumes inv: "cl_inv c" and i: "i < length (cl_calls c)" "call_bufs (cl_calls c ! i) = []" and sw: "flush_swap c = (batch, c')"
  shows "cl_inv (set_call i (writing batch) c')"
proof -
  note f = flush_swap_held [OF sw]
  have "held_bufs (set_call i (writing batch) c') = held_bufs c"
    using held_set_call [of i c' "writing batch"] i f by simp
  then show ?thesis using inv f(3) by (simp add: cl_inv_def)
qed

lemma cl_inv_write_call:
  assumes inv: "cl_inv c" and i: "i < length (cl_calls c)" "cl_calls c ! i = C_Writing bs" and w: "flush_write ans bs c = (rest, c')"
  shows "cl_inv (set_call i (writing rest) c')"
proof -
  note f = flush_write_held [OF w]
  have "held_bufs (set_call i (writing rest) c') = held_bufs c"
    using held_set_call [of i c' "writing rest"] i f by simp
  then show ?thesis using inv f(2-9) f(10) by (simp add: cl_inv_def)
qed

lemma cl_inv_call: "cl_inv c \<Longrightarrow> call_step i ans c = Some c' \<Longrightarrow> cl_inv c'"
proof (cases "i < length (cl_calls c)")
  case True
  assume inv: "cl_inv c" and st: "call_step i ans c = Some c'"
  show ?thesis
  proof (cases "cl_calls c ! i")
    case C_Len
    then show ?thesis using cl_inv_set_call [OF inv True] st True by (auto simp: call_step_def)
  next
    case C_Signal
    moreover have "cl_inv (signalFlush c)" using inv by (simp add: cl_inv_def held_bufs_def signalFlush_def)
    ultimately show ?thesis using cl_inv_set_call [of "signalFlush c" i C_Done] st True
      by (auto simp: call_step_def signalFlush_def)
  next
    case C_Flush
    then show ?thesis using cl_inv_swap_call [OF inv True] st True by (auto simp: call_step_def split: prod.splits)
  next
    case (C_Writing bs)
    then show ?thesis using cl_inv_write_call [OF inv True] st True by (auto simp: call_step_def split: prod.splits)
  qed (use st True in \<open>simp add: call_step_def\<close>)
qed (simp add: call_step_def)

lemma cl_inv_loop: "cl_inv c \<Longrightarrow> sendLoop_step wk ans c = Some c' \<Longrightarrow> cl_inv c'"
proof (cases "cl_loop c")
  case L_Select
  assume inv: "cl_inv c" and st: "sendLoop_step wk ans c = Some c'"
  show ?thesis using inv st L_Select
    by (cases wk) (auto simp: sendLoop_step_def cl_inv_def held_bufs_def split: if_splits)
next
  case (L_Flush final)
  assume inv: "cl_inv c" and st: "sendLoop_step wk ans c = Some c'"
  obtain batch c1 where sw: "flush_swap c = (batch, c1)" by (cases "flush_swap c")
  note f = flush_swap_held [OF sw]
  have c': "c' = c1\<lparr>cl_loop := loop_writing final batch\<rparr>" using st L_Flush sw by (simp add: sendLoop_step_def)
  have "held_bufs c' = held_bufs c" using held_loop [of "loop_writing final batch" c1] f L_Flush c' by simp
  moreover have "\<not> cl_closed c" using inv L_Flush by (auto simp: cl_inv_def)
  ultimately show ?thesis using inv c' f(3) L_Flush by (simp add: cl_inv_def)
next
  case (L_Writing final bs)
  assume inv: "cl_inv c" and st: "sendLoop_step wk ans c = Some c'"
  obtain rest c1 where w: "flush_write ans bs c = (rest, c1)" by (cases "flush_write ans bs c")
  note f = flush_write_held [OF w]
  have c': "c' = c1\<lparr>cl_loop := loop_writing final rest\<rparr>" using st L_Writing w by (simp add: sendLoop_step_def)
  have "held_bufs c' = held_bufs c" using held_loop [of "loop_writing final rest" c1] f(1,3) L_Writing c' by simp
  moreover have "\<not> cl_closed c" using inv L_Writing by (auto simp: cl_inv_def)
  ultimately show ?thesis using inv c' f(2-9) f(10) L_Writing by (simp add: cl_inv_def)
qed (simp add: sendLoop_step_def)

lemma cl_inv_step: "cl_inv c \<Longrightarrow> cl_step a c = Some c' \<Longrightarrow> cl_inv c'"
proof (cases a)
  case ACancel
  assume "cl_inv c" "cl_step a c = Some c'"
  with ACancel show ?thesis by (auto simp: client_cancel_def cl_inv_def held_bufs_def)
next
  case AClosed
  assume "cl_inv c" "cl_step a c = Some c'"
  with AClosed show ?thesis by (auto simp: client_closed_def cl_inv_def held_bufs_def split: if_splits)
qed (auto dest: cl_inv_call cl_inv_loop intro: cl_inv_send)

lemma cl_run_invariant:
  assumes "\<And>a c c'. J c \<Longrightarrow> cl_step a c = Some c' \<Longrightarrow> J c'"
  shows "cl_run as c = Some c' \<Longrightarrow> J c \<Longrightarrow> J c'"
  by (induction as arbitrary: c) (auto split: option.splits dest: assms)

lemma cl_inv_new: "NewBatch n = Ok b \<Longrightarrow> cl_inv (client_of n b)"
  by (auto simp: NewBatch_def cl_inv_def held_bufs_def client_of_def split: if_splits)

lemma cl_inv_run: "NewBatch n = Ok b \<Longrightarrow> cl_run as (client_of n b) = Some c \<Longrightarrow> cl_inv c"
  using cl_run_invariant [of cl_inv as "client_of n b" c] cl_inv_step cl_inv_new by metis

text \<open>A list of frames whose encodings are given, in any order.\<close>

lemma mset_map_reorder: "mset (map g xs) = mset ys \<Longrightarrow> \<exists>zs. mset zs = mset xs \<and> map g zs = ys"
proof (induction ys arbitrary: xs)
  case (Cons y ys)
  then have "y \<in> set (map g xs)" by (metis list.set_intros(1) set_mset_mset)
  then obtain x where x: "x \<in> set xs" "g x = y" by auto
  then have "mset xs = add_mset x (mset (remove1 x xs))" by simp
  then have "mset (map g (remove1 x xs)) = mset ys" using Cons.prems x(2)
    by (metis add_mset_add_single add_right_cancel image_mset_add_mset mset.simps(2) mset_map)
  from Cons.IH [OF this] obtain zs where "mset zs = mset (remove1 x xs)" "map g zs = ys" by blast
  then show ?case using x by (intro exI [of _ "x # zs"]) simp
qed simp

section \<open>Order\<close>

text \<open>As long as the batch never fills, only the flushing goroutine writes, in order.\<close>

definition cl_order_inv :: "Client \<Rightarrow> bool" where
  "cl_order_inv c \<longleftrightarrow>
     (int (length (cl_accepted c)) < cl_batchSize c \<longrightarrow>
        list_all (\<lambda>pc. pc \<in> {C_Len, C_Signal, C_Done}) (cl_calls c) \<and>
        (cl_lost c = [] \<longrightarrow>
           cl_written c @ loop_bufs (cl_loop c) @ ba_buffers (cl_batch c) = map (encode_frame True) (cl_accepted c)) \<and>
        length (ba_buffers (cl_batch c)) \<le> length (cl_accepted c))"

lemma list_all_update: "list_all P xs \<Longrightarrow> P x \<Longrightarrow> list_all P (xs[i := x])"
  by (auto simp: list_all_iff dest!: set_update_subset_insert [THEN subsetD])

lemma cl_order_inv_call:
  assumes inv: "cl_order_inv c" and st: "call_step i ans c = Some c'"
  shows "cl_order_inv c'"
proof -
  have i: "i < length (cl_calls c)" using st by (auto simp: call_step_def split: if_splits)
  have same: "cl_accepted c' = cl_accepted c \<and> cl_batchSize c' = cl_batchSize c"
    using st i flush_write_held(4,9)
    by (auto simp: call_step_def signalFlush_def flush_swap_def ba_Swap_def split: call_pc.splits prod.splits)
  show ?thesis
  proof (cases "int (length (cl_accepted c)) < cl_batchSize c")
    case True
    then have calls: "list_all (\<lambda>pc. pc \<in> {C_Len, C_Signal, C_Done}) (cl_calls c)"
      and len: "length (ba_buffers (cl_batch c)) \<le> length (cl_accepted c)" using inv by (simp_all add: cl_order_inv_def)
    have "\<not> ba_Len (cl_batch c) \<ge> cl_batchSize c" using True len by (simp add: ba_Len_def)
    moreover have "cl_calls c ! i \<in> {C_Len, C_Signal, C_Done}" using calls i by (simp add: list_all_length)
    ultimately have "c' = set_call i C_Signal c \<or> c' = set_call i C_Done (signalFlush c)"
      using st i by (auto simp: call_step_def)
    then show ?thesis using inv calls by (auto simp: cl_order_inv_def signalFlush_def intro!: list_all_update)
  qed (use same in \<open>simp add: cl_order_inv_def\<close>)
qed

lemma cl_order_inv_loop:
  assumes inv: "cl_order_inv c" and st: "sendLoop_step wk ans c = Some c'"
  shows "cl_order_inv c'"
proof (cases "cl_loop c")
  case L_Select
  then show ?thesis using inv st by (cases wk) (auto simp: sendLoop_step_def cl_order_inv_def split: if_splits)
next
  case (L_Flush final)
  obtain batch c1 where sw: "flush_swap c = (batch, c1)" by (cases "flush_swap c")
  then have "c' = c1\<lparr>cl_loop := loop_writing final batch\<rparr>" using st L_Flush by (simp add: sendLoop_step_def)
  then show ?thesis using inv L_Flush flush_swap_held(2,3) [OF sw] by (simp add: cl_order_inv_def)
next
  case (L_Writing final bs)
  obtain rest c1 where w: "flush_write ans bs c = (rest, c1)" by (cases "flush_write ans bs c")
  then have c': "c' = c1\<lparr>cl_loop := loop_writing final rest\<rparr>" using st L_Writing by (simp add: sendLoop_step_def)
  note f = flush_write_held(2-9) [OF w]
  have "cl_written c1 @ rest @ ba_buffers (cl_batch c) = map (encode_frame True) (cl_accepted c)"
    if small: "int (length (cl_accepted c)) < cl_batchSize c" and l: "cl_lost c1 = []"
  proof -
    from flush_write_held(11) [OF w l] have wr: "cl_written c1 @ rest = cl_written c @ bs" and "cl_lost c = []" by simp_all
    then have "cl_written c @ bs @ ba_buffers (cl_batch c) = map (encode_frame True) (cl_accepted c)"
      using inv small L_Writing by (simp add: cl_order_inv_def)
    then show ?thesis by (metis wr append_assoc)
  qed
  then show ?thesis using inv c' f by (auto simp: cl_order_inv_def)
qed (use st in \<open>simp add: sendLoop_step_def\<close>)

lemma cl_order_inv_send: "cl_order_inv c \<Longrightarrow> cl_order_inv (snd (WriteMessage_start mt data c))"
proof -
  assume inv: "cl_order_inv c"
  obtain r c' where w: "WriteMessage_start mt data c = (r, c')" by (cases "WriteMessage_start mt data c")
  from WriteMessage_start_Ok [OF w] show ?thesis using inv w by (auto simp: cl_order_inv_def ba_Append_def)
qed

lemma cl_order_inv_step: "cl_order_inv c \<Longrightarrow> cl_step a c = Some c' \<Longrightarrow> cl_order_inv c'"
proof (cases a)
  case ACancel
  assume "cl_order_inv c" "cl_step a c = Some c'"
  with ACancel show ?thesis by (auto simp: client_cancel_def cl_order_inv_def)
next
  case AClosed
  assume "cl_order_inv c" "cl_step a c = Some c'"
  with AClosed show ?thesis by (auto simp: client_closed_def cl_order_inv_def split: if_splits)
qed (auto dest: cl_order_inv_call cl_order_inv_loop intro: cl_order_inv_send)

lemma cl_order_inv_new: "NewBatch n = Ok b \<Longrightarrow> cl_order_inv (client_of n b)"
  by (auto simp: NewBatch_def cl_order_inv_def client_of_def split: if_splits)

lemma cl_order_inv_run: "NewBatch n = Ok b \<Longrightarrow> cl_run as (client_of n b) = Some c \<Longrightarrow> cl_order_inv c"
  using cl_run_invariant [of cl_order_inv as "client_of n b" c] cl_order_inv_step cl_order_inv_new by metis

section \<open>Receiving with one buffer\<close>

fun nt_recvs :: "read_ans list \<Rightarrow> pools \<Rightarrow> netTransport \<Rightarrow> (bytes list \<times> netTransport \<times> pools) option" where
  "nt_recvs [] w t = Some ([], t, w)"
| "nt_recvs (a # as) w t =
     (case nt_Recv a w t of
        Some (Ok slices, t', w') \<Rightarrow>
          map_option (\<lambda>(rest, t'', w''). (concat (map (slice_bytes (pl_heap w')) slices) # rest, t'', w'')) (nt_recvs as w' t')
      | _ \<Rightarrow> None)"

lemma net_Read_Ok:
  "net_Read ans n t = Some (Ok bs, t') \<Longrightarrow>
     length bs \<le> n \<and> bs @ nt_net t' = nt_net t \<and> nt_rxBuf t' = nt_rxBuf t \<and> nt_bufSize t' = nt_bufSize t"
  by (auto simp: net_Read_def split: if_splits read_ans.splits)

lemma nt_Recv_step:
  assumes ok: "pool_ok w p (nt_rxBuf t # held)" and big: "nt_bufSize t \<le> int (data_len (nt_rxBuf t))"
    and ne: "0 < nt_bufSize t" and r: "nt_Recv ans w t = Some (Ok slices, t', w')"
  shows "\<exists>bs. concat (map (slice_bytes (pl_heap w')) slices) = bs \<and> bs @ nt_net t' = nt_net t \<and>
    nt_rxBuf t' = nt_rxBuf t \<and> nt_bufSize t' = nt_bufSize t \<and> pool_ok w' p (nt_rxBuf t # held) \<and>
    (\<forall>x\<in>set held. Buffer_Copy (pl_heap w') x = Buffer_Copy (pl_heap w) x)"
proof -
  obtain s where s: "Data (nt_rxBuf t) = Some s" using big ne by (cases "Data (nt_rxBuf t)") (auto simp: data_len_def)
  obtain bs where rd: "net_Read ans (data_len (nt_rxBuf t)) t = Some (Ok bs, t')"
    and sl: "slices = [s\<lparr>sl_len := length bs\<rparr>]" "w' = w\<lparr>pl_heap := copy_into (pl_heap w) s bs\<rparr>"
    using r big s by (auto simp: nt_Recv_def nt_read_into_def split: option.splits outcome.splits)
  note io = net_Read_Ok [OF rd]
  from pool_copy [OF ok s] io have
    "pool_ok w' p (nt_rxBuf t # held)" "slice_bytes (pl_heap w') (s\<lparr>sl_len := length bs\<rparr>) = bs"
    "\<forall>x\<in>set held. Buffer_Copy (pl_heap w') x = Buffer_Copy (pl_heap w) x" unfolding sl(2) by auto
  then show ?thesis using io sl(1) by auto
qed

lemma client_close_drain:
  assumes "NewBatch n = Ok b" and "cl_run as (client_of n b) = Some c"
    and "cl_closed c" and "\<forall>pc\<in>set (cl_calls c). pc = C_Done" and "cl_late c = []" and "cl_lost c = []"
  shows "\<exists>fs. mset fs = mset (cl_accepted c) \<and> drain (cl_wire c) = (map (\<lambda>f. on_wire f True) fs, [], Waiting)"
proof -
  have inv: "cl_inv c" using cl_inv_run [OF assms(1,2)] by simp
  have "cl_loop c = L_Gone" "ba_buffers (cl_batch c) = []" using inv assms(3,5) by (auto simp: cl_inv_def)
  moreover have "concat (map call_bufs (cl_calls c)) = []" using assms(4) by auto
  ultimately have "mset (map (encode_frame True) (cl_accepted c)) = mset (cl_written c)"
    using inv assms(6) by (simp add: cl_inv_def held_bufs_def)
  from mset_map_reorder [OF this] obtain fs where fs: "mset fs = mset (cl_accepted c)" "map (encode_frame True) fs = cl_written c"
    by blast
  have "\<forall>f\<in>set fs. wf_frame f" using inv mset_eq_setD [OF fs(1)] by (simp add: cl_inv_def)
  from drain_encoded [OF this, of True] fs inv assms(6) show ?thesis by (auto simp: cl_inv_def)
qed

text \<open>The goroutine's own steps with writes that succeed: it writes all it holds.\<close>

lemma loop_writes:
  assumes "cl_loop c = loop_writing final bs"
  shows "cl_run (replicate (length bs) (ALoop wk None)) c =
    Some (c\<lparr>cl_wire := cl_wire c @ concat bs, cl_written := cl_written c @ bs, cl_loop := loop_writing final []\<rparr>)"
  using assms
proof (induction bs arbitrary: c)
  case (Cons b bs)
  let ?c = "c\<lparr>cl_wire := cl_wire c @ b, cl_written := cl_written c @ [b], cl_loop := loop_writing final bs\<rparr>"
  have "cl_step (ALoop wk None) c = Some ?c" using Cons.prems by (simp add: sendLoop_step_def loop_writing_def)
  then show ?case using Cons.IH [of ?c] by simp
qed simp

lemma cl_run_append: "cl_run (as @ bs) c = (case cl_run as c of None \<Rightarrow> None | Some c' \<Rightarrow> cl_run bs c')"
  by (induction as arbitrary: c) (auto split: option.split)

text \<open>From a flush to its end.\<close>

definition flushed :: "bool \<Rightarrow> Client \<Rightarrow> Client" where
  "flushed final c =
     c\<lparr>cl_batch := (cl_batch c)\<lparr>ba_buffers := []\<rparr>, cl_wire := cl_wire c @ concat (ba_buffers (cl_batch c)),
       cl_written := cl_written c @ ba_buffers (cl_batch c), cl_loop := loop_writing final []\<rparr>"

lemma loop_flush:
  assumes "cl_loop c = L_Flush final"
  shows "cl_run (replicate (Suc (length (ba_buffers (cl_batch c)))) (ALoop wk None)) c = Some (flushed final c)"
proof -
  let ?bs = "ba_buffers (cl_batch c)"
  let ?c = "c\<lparr>cl_batch := (cl_batch c)\<lparr>ba_buffers := []\<rparr>, cl_loop := loop_writing final ?bs\<rparr>"
  have "cl_step (ALoop wk None) c = Some ?c" using assms by (simp add: sendLoop_step_def flush_swap_def ba_Swap_def)
  then show ?thesis using loop_writes [of ?c final ?bs wk] by (simp add: flushed_def)
qed

text \<open>Waiting at the select with the client cancelled: one more flush, then the end and Close's.\<close>

lemma select_completes:
  assumes "cl_loop c = L_Select" and "cl_cancelled c"
  shows "cl_run (ALoop W_Cancel None # replicate (Suc (length (ba_buffers (cl_batch c)))) (ALoop W_Cancel None) @ [AClosed]) c =
    Some ((flushed True c)\<lparr>cl_closed := True\<rparr>)"
proof -
  let ?c = "c\<lparr>cl_loop := L_Flush True\<rparr>"
  have "cl_step (ALoop W_Cancel None) c = Some ?c" using assms by (simp add: sendLoop_step_def)
  moreover have "cl_step AClosed (flushed True ?c) = Some ((flushed True ?c)\<lparr>cl_closed := True\<rparr>)"
    using assms(2) by (simp add: client_closed_def flushed_def loop_writing_def)
  moreover have "flushed True ?c = flushed True c" by (simp add: flushed_def)
  ultimately show ?thesis using loop_flush [of ?c True W_Cancel]
    by (simp add: cl_run_append del: replicate_Suc)
qed

text \<open>
  From \<open>c\<close> the goroutine alone, with writes that succeed, gets to the end of Close in at most \<open>n\<close>
  steps and writes \<open>ws\<close>.
\<close>

fun completing :: "cl_act \<Rightarrow> bool" where
  "completing (ALoop wk ans) = (ans = None)"
| "completing AClosed = True"
| "completing _ = False"

definition closes_from :: "Client \<Rightarrow> bytes list \<Rightarrow> nat \<Rightarrow> bool" where
  "closes_from c ws n \<longleftrightarrow>
     (\<exists>bs c'. cl_run bs c = Some c' \<and> cl_closed c' \<and> list_all completing bs \<and> length bs \<le> n \<and>
        cl_written c' = cl_written c @ ws \<and> cl_lost c' = cl_lost c)"

lemma closes_from_mono: "closes_from c ws n \<Longrightarrow> n \<le> m \<Longrightarrow> closes_from c ws m"
  unfolding closes_from_def by (meson le_trans)

lemma closes_from_run:
  assumes "cl_run as c = Some d" "list_all completing as" "cl_written d = cl_written c @ us" "cl_lost d = cl_lost c"
    and "closes_from d vs n"
  shows "closes_from c (us @ vs) (length as + n)"
proof -
  from assms(5) obtain bs c' where b: "cl_run bs d = Some c'" "cl_closed c'" "list_all completing bs" "length bs \<le> n"
    "cl_written c' = cl_written d @ vs" "cl_lost c' = cl_lost d" by (auto simp: closes_from_def)
  show ?thesis unfolding closes_from_def
    by (rule exI [of _ "as @ bs"], rule exI [of _ c']) (use b assms in \<open>simp add: cl_run_append\<close>)
qed

lemma closes_from_Gone: "cl_loop c = L_Gone \<Longrightarrow> cl_cancelled c \<Longrightarrow> closes_from c [] 1"
  unfolding closes_from_def by (rule exI [of _ "[AClosed]"]) (simp add: client_closed_def)

lemma closes_from_Select:
  assumes "cl_loop c = L_Select" and "cl_cancelled c"
  shows "closes_from c (ba_buffers (cl_batch c)) (length (ba_buffers (cl_batch c)) + 3)"
  unfolding closes_from_def
  by (rule exI, rule exI, rule conjI, rule select_completes [OF assms]) (simp add: flushed_def list_all_iff)

lemma closes_from_end:
  assumes "cl_loop c = loop_writing final []" and "cl_cancelled c"
  shows "closes_from c (if final then [] else ba_buffers (cl_batch c)) (length (ba_buffers (cl_batch c)) + 3)"
proof (cases final)
  case True
  then show ?thesis using closes_from_mono [OF closes_from_Gone [of c]] assms by (simp add: loop_writing_def)
next
  case False
  then show ?thesis using closes_from_Select [of c] assms by (simp add: loop_writing_def)
qed

lemma closes_from_Flush:
  assumes "cl_loop c = L_Flush final" and "cl_cancelled c"
  shows "closes_from c (ba_buffers (cl_batch c)) (length (ba_buffers (cl_batch c)) + 4)"
proof -
  have "closes_from (flushed final c) [] 3"
    using closes_from_end [of "flushed final c" final] assms(2) by (cases final) (simp_all add: flushed_def)
  from closes_from_run [OF loop_flush [OF assms(1), of W_Tick] _ _ _ this, of "ba_buffers (cl_batch c)"]
  have "closes_from c (ba_buffers (cl_batch c)) (Suc (length (ba_buffers (cl_batch c))) + 3)"
    by (simp add: flushed_def list_all_iff del: replicate_Suc)
  then show ?thesis by (rule closes_from_mono) simp
qed

lemma closes_from_Writing:
  assumes "cl_loop c = L_Writing final bs" and "cl_cancelled c"
  shows "closes_from c (bs @ (if final then [] else ba_buffers (cl_batch c))) (Suc (length bs) + length (ba_buffers (cl_batch c)) + 3)"
proof -
  let ?d = "c\<lparr>cl_wire := cl_wire c @ concat bs, cl_written := cl_written c @ bs, cl_loop := loop_writing final []\<rparr>"
  have run: "\<exists>as. cl_run as c = Some ?d \<and> list_all completing as \<and> length as \<le> Suc (length bs)"
  proof (cases "bs = []")
    case True
    then have "cl_run [ALoop W_Tick None] c = Some ?d" using assms(1) by (simp add: sendLoop_step_def)
    then show ?thesis by (intro exI [of _ "[ALoop W_Tick None]"]) simp
  next
    case False
    then have "cl_loop c = loop_writing final bs" using assms(1) by (simp add: loop_writing_def)
    from loop_writes [OF this, of W_Tick] show ?thesis
      by (intro exI [of _ "replicate (length bs) (ALoop W_Tick None)"]) (simp add: list_all_iff)
  qed
  then obtain as where as: "cl_run as c = Some ?d" "list_all completing as" "length as \<le> Suc (length bs)" by blast
  have "closes_from ?d (if final then [] else ba_buffers (cl_batch c)) (length (ba_buffers (cl_batch c)) + 3)"
    using closes_from_end [of ?d final] assms(2) by (cases final) simp_all
  from closes_from_run [OF as(1,2) _ _ this, of bs] show ?thesis
    by - (rule closes_from_mono, simp, use as(3) in linarith)
qed

section \<open>Properties\<close>

text \<open>
  Fact (nothing is lost on the way).  However calls of Send and WriteMessage, the flushing
  goroutine and Close interleave: each accepted message is, exactly once, written, given up by a
  failed write, in the batch, or in the hands of a goroutine that is writing it; and as long as
  no write failed the wire is exactly the written frames one after the other.
\<close>

theorem client_conserves:
  assumes "NewBatch n = Ok b" and "cl_run as (client_of n b) = Some c"
  shows "mset (map (encode_frame True) (cl_accepted c)) =
      mset (cl_written c) + mset (cl_lost c) + mset (ba_buffers (cl_batch c)) + mset (loop_bufs (cl_loop c)) +
      mset (concat (map call_bufs (cl_calls c))) \<and>
    (cl_lost c = [] \<longrightarrow> cl_wire c = concat (cl_written c))"
  using cl_inv_run [OF assms(1,2)] by (simp add: cl_inv_def held_bufs_def)



text \<open>
  Fact (order).  While fewer messages were accepted than make a batch, and no write failed,
  the written frames, then those the flushing goroutine holds, then the batch are the accepted
  messages in the order of the calls.
\<close>

theorem client_order:
  assumes "NewBatch n = Ok b" and "cl_run as (client_of n b) = Some c"
    and "int (length (cl_accepted c)) < n" and "cl_lost c = []"
  shows "cl_written c @ loop_bufs (cl_loop c) @ ba_buffers (cl_batch c) = map (encode_frame True) (cl_accepted c)"
proof -
  have "cl_batchSize c = n"
  proof -
    have "cl_batchSize c' = cl_batchSize d" if "cl_step a d = Some c'" for a d c'
      using that flush_write_held(9)
      by (cases a) (auto simp: call_step_def sendLoop_step_def flush_swap_def ba_Swap_def signalFlush_def client_cancel_def client_closed_def
          WriteMessage_start_def split: call_pc.splits loop_pc.splits prod.splits if_splits wake.splits outcome.splits)
    from cl_run_invariant [of "\<lambda>d. cl_batchSize d = n", OF _ assms(2)] this show ?thesis by (simp add: client_of_def)
  qed
  then show ?thesis using cl_order_inv_run [OF assms(1,2)] assms(3,4) by (simp add: cl_order_inv_def)
qed

definition demo_batch :: "bytes Batch" where
  "demo_batch = \<lparr>ba_buffers = [], ba_cap = 4\<rparr>"

definition demo_acts :: "cl_act list" where
  "demo_acts = [ASend 2 [7], ACall 0 None, ACall 0 None, ALoop W_Flush None, ASend 2 [8], ACall 1 None, ACall 1 None,
     ALoop W_Tick None, ALoop W_Tick None, ACancel, ALoop W_Tick None, ALoop W_Cancel None, ALoop W_Tick None, AClosed]"

definition demo_client :: Client where
  "demo_client = the (cl_run demo_acts (client_of 4 demo_batch))"

lemma demo_run: "cl_run demo_acts (client_of 4 demo_batch) = Some demo_client"
  and demo_state: "cl_closed demo_client" "list_all (\<lambda>pc. pc = C_Done) (cl_calls demo_client)" "cl_late demo_client = []"
    "cl_lost demo_client = []" "cl_accepted demo_client = [client_frame 2 [7], client_frame 2 [8]]"
    "loop_bufs (cl_loop demo_client) = []" "ba_buffers (cl_batch demo_client) = []"
  by code_simp+

lemma demo_new: "NewBatch 4 = Ok demo_batch"
  by (simp add: NewBatch_def demo_batch_def)

theorem client_conserves_witness:
  "mset (map (encode_frame True) (cl_accepted demo_client)) = mset (cl_written demo_client) \<and> length (cl_accepted demo_client) = 2"
  using client_conserves [OF demo_new demo_run] demo_state by (auto simp: concat_eq_Nil_conv list_all_iff)


definition stuck_acts :: "cl_act list" where
  "stuck_acts = [ASend 2 [7], ALoop W_Tick None, ALoop W_Tick None, ASend 2 [8], ACancel]"

definition stuck_client :: Client where
  "stuck_client = the (cl_run stuck_acts (client_of 4 demo_batch))"

lemma stuck_run: "cl_run stuck_acts (client_of 4 demo_batch) = Some stuck_client"
  and stuck_state: "cl_cancelled stuck_client" "cl_written stuck_client = []" "\<not> after_swap (cl_loop stuck_client)"
    "loop_bufs (cl_loop stuck_client) = [encode_frame True (client_frame 2 [7])]"
    "ba_buffers (cl_batch stuck_client) = [encode_frame True (client_frame 2 [8])]"
  by code_simp+


theorem client_order_witness:
  "cl_written demo_client = map (encode_frame True) [client_frame 2 [7], client_frame 2 [8]]"
  using client_order [OF demo_new demo_run _ demo_state(4)] demo_state(5-7) by simp

text \<open>
  Fact (a full batch overtakes).  When a caller finds the batch full it writes it itself,
  beside the flushing goroutine: a message accepted later can be written first.
\<close>

theorem client_reorders:
  "\<exists>as c. cl_run as (client_of 2 \<lparr>ba_buffers = [], ba_cap = 2\<rparr>) = Some c \<and> cl_lost c = [] \<and>
     cl_accepted c = map (\<lambda>m. client_frame 2 [m]) [1, 2, 3] \<and>
     cl_written c = map (\<lambda>m. encode_frame True (client_frame 2 [m])) [2, 3, 1]"
proof -
  let ?as = "[ASend 2 [1], ALoop W_Tick None, ALoop W_Tick None, ASend 2 [2], ASend 2 [3], ACall 2 None, ACall 2 None,
     ACall 2 None, ACall 2 None, ALoop W_Tick None]"
  let ?c = "the (cl_run ?as (client_of 2 \<lparr>ba_buffers = [], ba_cap = 2\<rparr>))"
  have "cl_run ?as (client_of 2 \<lparr>ba_buffers = [], ba_cap = 2\<rparr>) = Some ?c" by code_simp
  moreover have "cl_lost ?c = []" by code_simp
  moreover have "cl_accepted ?c = map (\<lambda>m. client_frame 2 [m]) [1, 2, 3]" by code_simp
  moreover have "cl_written ?c = map (\<lambda>m. encode_frame True (client_frame 2 [m])) [2, 3, 1]" by code_simp
  ultimately show ?thesis by blast
qed

text \<open>
  Fact (the client's receive buffer).  Over any number of receives the pieces, in order,
  and the unread rest are what the server sent; the transport takes no further buffer from the
  pool and touches nobody else's.
\<close>

theorem client_transport_stream:
  assumes "pool_ok w p (nt_rxBuf t # held)" and "nt_bufSize t \<le> int (data_len (nt_rxBuf t))" and "0 < nt_bufSize t"
    and "nt_recvs as w t = Some (got, t', w')"
  shows "concat got @ nt_net t' = nt_net t \<and> nt_rxBuf t' = nt_rxBuf t \<and> pool_ok w' p (nt_rxBuf t # held) \<and>
    (\<forall>x\<in>set held. Buffer_Copy (pl_heap w') x = Buffer_Copy (pl_heap w) x)"
  using assms
proof (induction as arbitrary: w t got)
  case (Cons a as)
  obtain slices t1 w1 where r: "nt_Recv a w t = Some (Ok slices, t1, w1)"
    using Cons.prems(4) by (auto split: option.splits outcome.splits)
  from nt_Recv_step [OF Cons.prems(1-3) r] obtain bs where
    1: "concat (map (slice_bytes (pl_heap w1)) slices) = bs" "bs @ nt_net t1 = nt_net t" "nt_rxBuf t1 = nt_rxBuf t"
    "nt_bufSize t1 = nt_bufSize t" "pool_ok w1 p (nt_rxBuf t # held)"
    "\<forall>x\<in>set held. Buffer_Copy (pl_heap w1) x = Buffer_Copy (pl_heap w) x" by blast
  obtain got1 where g: "nt_recvs as w1 t1 = Some (got1, t', w')" "got = bs # got1"
    using Cons.prems(4) r 1(1) by (auto split: option.splits)
  have "pool_ok w1 p (nt_rxBuf t1 # held)" "nt_bufSize t1 \<le> int (data_len (nt_rxBuf t1))" "0 < nt_bufSize t1"
    using 1(3-5) Cons.prems(2,3) by simp_all
  from Cons.IH [OF this g(1)] g(2) 1 show ?case by auto
qed auto

end
