(* ===== verification/HLServer.thy ===== *)
theory HLServer
  imports LLServer Router HLConn
begin

text \<open>
  The high-level server, \<^verbatim>\<open>highlevel/server.go\<close>, around the router: the event handler that turns
  messages of the reactor into deliveries to a wrapper per connection, the tracking of wrappers
  with their close callbacks, options and Shutdown.  The reactor's goroutine runs the event
  handler; the wrappers' readers, workers and closers (theory \<open>HLConn\<close>) and Shutdown interleave
  with it.
\<close>

section \<open>State and options\<close>

text \<open>
  Underlying connections and wrappers are objects and have names: \<open>hs_objs\<close> lists every wrapper
  made with the name of its connection.  A wrapper whose close callback runs is first in
  \<open>hs_removing\<close>, then in \<open>hs_deleting\<close>, before the two locked parts of the callback.
  \<open>hs_loop\<close> says that the event handler has queued a message and has yet to start the handler.
  \<open>hs_events\<close>, \<open>hs_released\<close> and \<open>hs_started\<close> record the buffers handed in, those the event handler
  released itself, and the handler goroutines started.
\<close>

datatype 'h ev_pc = E_Idle | E_Run nat 'h

record 'h hl_server =
  hs_addr :: string
  hs_cfg :: Config
  hs_routes :: "'h Routes"
  hs_objs :: "(nat \<times> hconn) list"
  hs_connections :: "nat list"
  hs_connStore :: "nat \<rightharpoonup> nat"
  hs_removing :: "nat list"
  hs_deleting :: "nat list"
  hs_loop :: "'h ev_pc"
  hs_wsDone :: "nat list"
  hs_toClose :: "nat list"
  hs_cancelled :: bool
  hs_started :: "(nat \<times> 'h) list"
  hs_released :: "Buffer list"
  hs_events :: "Buffer list"

definition hl_NewServer :: "int \<Rightarrow> string \<Rightarrow> 'h hl_server" where
  "hl_NewServer numCPU addr =
     \<lparr>hs_addr = addr, hs_cfg = DefaultConfig numCPU, hs_routes = NewRoutes, hs_objs = [], hs_connections = [],
      hs_connStore = Map.empty, hs_removing = [], hs_deleting = [], hs_loop = E_Idle, hs_wsDone = [], hs_toClose = [],
      hs_cancelled = False, hs_started = [], hs_released = [], hs_events = []\<rparr>"

definition hl_WithReadLimit :: "int \<Rightarrow> 'h hl_server \<Rightarrow> 'h hl_server" where
  "hl_WithReadLimit limit s = s"

definition hl_WithWriteTimeout :: "int \<Rightarrow> 'h hl_server \<Rightarrow> 'h hl_server" where
  "hl_WithWriteTimeout d s = s"

definition hl_WithReadTimeout :: "int \<Rightarrow> 'h hl_server \<Rightarrow> 'h hl_server" where
  "hl_WithReadTimeout d s = s"

definition hl_WithMaxConnections :: "int \<Rightarrow> 'h hl_server \<Rightarrow> 'h hl_server" where
  "hl_WithMaxConnections m s = s\<lparr>hs_cfg := (hs_cfg s)\<lparr>MaxConnections := m\<rparr>\<rparr>"

definition hl_WithBatchSize :: "int \<Rightarrow> 'h hl_server \<Rightarrow> 'h hl_server" where
  "hl_WithBatchSize n s = s\<lparr>hs_cfg := (hs_cfg s)\<lparr>BatchSize := n\<rparr>\<rparr>"

definition hl_WithNUMANode :: "int \<Rightarrow> 'h hl_server \<Rightarrow> 'h hl_server" where
  "hl_WithNUMANode node s = s\<lparr>hs_cfg := (hs_cfg s)\<lparr>NUMANodeCfg := node\<rparr>\<rparr>"

definition hl_WithChannelCapacity :: "int \<Rightarrow> 'h hl_server \<Rightarrow> 'h hl_server" where
  "hl_WithChannelCapacity n s = s\<lparr>hs_cfg := (hs_cfg s)\<lparr>ChannelCapacity := n\<rparr>\<rparr>"

text \<open>\<^verbatim>\<open>ListenAndServe\<close> up to the event handler: the underlying server, or its wrapped error.\<close>

definition hl_Listen ::
  "nat \<Rightarrow> int \<Rightarrow> int \<Rightarrow> int \<Rightarrow> unit outcome \<Rightarrow> pools \<Rightarrow> ('u Server \<Rightarrow> 'u Server) list \<Rightarrow> 'h hl_server \<Rightarrow>
     ('u Server \<times> pools \<times> 'h hl_server) outcome option" where
  "hl_Listen alloc_max numCPU numaNodes currentNode listen w opts s =
     (let s' = s\<lparr>hs_cfg := (hs_cfg s)\<lparr>ListenAddr := hs_addr s\<rparr>\<rparr>
      in case NewServer alloc_max numCPU numaNodes currentNode listen w (Some (hs_cfg s')) opts of
           None \<Rightarrow> None
         | Some (Err e) \<Rightarrow> Some (Err (ErrWrap ''failed to create underlying server'' e))
         | Some Panic \<Rightarrow> Some Panic
         | Some (Ok (u, w')) \<Rightarrow> Some (Ok (u, w', s')))"

section \<open>Tracking\<close>

definition addConnection :: "nat \<Rightarrow> 'h hl_server \<Rightarrow> 'h hl_server" where
  "addConnection k s = s\<lparr>hs_connections := List.insert k (hs_connections s)\<rparr>"

definition removeConnection :: "nat \<Rightarrow> 'h hl_server \<Rightarrow> 'h hl_server" where
  "removeConnection k s = s\<lparr>hs_connections := removeAll k (hs_connections s)\<rparr>"

definition hl_GetActiveConnections :: "'h hl_server \<Rightarrow> int" where
  "hl_GetActiveConnections s = int (length (hs_connections s))"

text \<open>The underlying connection closes: every wrapper of it sees its \<^verbatim>\<open>Done\<close> channel closed.\<close>

definition ws_done :: "nat \<Rightarrow> 'h hl_server \<Rightarrow> 'h hl_server" where
  "ws_done ws s =
     s\<lparr>hs_wsDone := ws # hs_wsDone s,
       hs_objs := map (\<lambda>(v, c). if v = ws then (v, c\<lparr>hc_done := True\<rparr>) else (v, c)) (hs_objs s)\<rparr>"

definition getOrCreateConn :: "nat \<Rightarrow> (string \<times> string) list \<Rightarrow> 'h hl_server \<Rightarrow> nat \<times> 'h hl_server" where
  "getOrCreateConn ws params s =
     (case hs_connStore s ws of
        Some k \<Rightarrow> (k, s)
      | None \<Rightarrow>
          (let k = length (hs_objs s);
               c = (newConnWithParams params)\<lparr>hc_done := (ws \<in> set (hs_wsDone s))\<rparr>;
               s = addConnection k (s\<lparr>hs_objs := hs_objs s @ [(ws, c)]\<rparr>)
           in (k, s\<lparr>hs_connStore := (hs_connStore s)(ws \<mapsto> k)\<rparr>)))"

text \<open>The close callback, one locked part at a time.\<close>

definition callback_remove :: "nat \<Rightarrow> 'h hl_server \<Rightarrow> 'h hl_server option" where
  "callback_remove k s =
     (if k \<in> set (hs_removing s)
      then Some ((removeConnection k s)\<lparr>hs_removing := removeAll k (hs_removing s), hs_deleting := hs_deleting s @ [k]\<rparr>)
      else None)"

definition callback_delete :: "nat \<Rightarrow> 'h hl_server \<Rightarrow> 'h hl_server option" where
  "callback_delete k s =
     (if k \<in> set (hs_deleting s)
      then Some (s\<lparr>hs_connStore := (hs_connStore s)(fst (hs_objs s ! k) := None), hs_deleting := removeAll k (hs_deleting s)\<rparr>)
      else None)"

section \<open>The event handler\<close>

text \<open>
  The function given to the reactor, up to the queueing: the event has a buffer and perhaps a
  connection with its path.  \<open>engine\<close> matches the expressions written by the user.
\<close>

definition handle_event ::
  "(string \<Rightarrow> string \<Rightarrow> string list option) \<Rightarrow> (nat \<times> string) option \<Rightarrow> Buffer \<Rightarrow> 'h hl_server \<Rightarrow> 'h hl_server" where
  "handle_event engine wsConn buf s0 =
     (if Data buf = None then s0
      else
        let s = s0\<lparr>hs_events := hs_events s0 @ [buf]\<rparr>
        in case wsConn of
             None \<Rightarrow> s\<lparr>hs_released := hs_released s @ [buf]\<rparr>
           | Some (ws, path) \<Rightarrow>
               (case findHandler engine (hs_routes s) path GET of
                  (Some routeHandler, params) \<Rightarrow>
                    (case getOrCreateConn ws params s of
                       (k, s) \<Rightarrow>
                         s\<lparr>hs_objs := (hs_objs s)[k := (fst (hs_objs s ! k), enqueueIncoming (snd (hs_objs s ! k)) buf)],
                           hs_loop := E_Run k (applyMiddleware (hs_routes s) (rh_Handler routeHandler))\<rparr>)
                | (None, _) \<Rightarrow>
                    (let s = ws_done ws s in s\<lparr>hs_released := hs_released s @ [buf]\<rparr>)))"

text \<open>Once the message is queued, the handler is started unless it was before.\<close>

definition run_handler :: "'h hl_server \<Rightarrow> 'h hl_server option" where
  "run_handler s =
     (case hs_loop s of
        E_Idle \<Rightarrow> None
      | E_Run k h \<Rightarrow>
          if hc_enq (snd (hs_objs s ! k)) \<noteq> None then None
          else
            (case runHandlerOnce (snd (hs_objs s ! k)) of
               (c, new) \<Rightarrow>
                 Some (s\<lparr>hs_objs := (hs_objs s)[k := (fst (hs_objs s ! k), c)], hs_loop := E_Idle,
                         hs_started := (if new then hs_started s @ [(k, h)] else hs_started s)\<rparr>)))"

text \<open>\<^verbatim>\<open>Shutdown\<close> takes the tracked wrappers and closes them one by one.\<close>

definition hl_Shutdown :: "'h hl_server \<Rightarrow> 'h hl_server" where
  "hl_Shutdown s = s\<lparr>hs_cancelled := True, hs_toClose := hs_toClose s @ hs_connections s\<rparr>"

definition set_obj :: "nat \<Rightarrow> hconn \<Rightarrow> 'h hl_server \<Rightarrow> 'h hl_server" where
  "set_obj k c s = s\<lparr>hs_objs := (hs_objs s)[k := (fst (hs_objs s ! k), c)]\<rparr>"

definition shutdown_close :: "'h hl_server \<Rightarrow> 'h hl_server option" where
  "shutdown_close s =
     (case hs_toClose s of
        [] \<Rightarrow> None
      | k # ks \<Rightarrow> Some ((set_obj k (hl_Close (snd (hs_objs s ! k))) s)\<lparr>hs_toClose := ks\<rparr>))"

text \<open>
  A step of wrapper \<open>k\<close>: any but the delivery of a message, which is the event handler's, and the
  end of the connection.  Closing the connection is seen by all its wrappers and starts the callback.
\<close>

fun own_act :: "hl_act \<Rightarrow> bool" where
  "own_act (HEnq b) = False"
| "own_act HWsDone = False"
| "own_act _ = True"

definition obj_step :: "heap \<Rightarrow> nat \<Rightarrow> hl_act \<Rightarrow> 'h hl_server \<Rightarrow> 'h hl_server option" where
  "obj_step h k a s =
     (if k < length (hs_objs s) \<and> own_act a then
        (case hl_step h a (snd (hs_objs s ! k)) of
           None \<Rightarrow> None
         | Some c \<Rightarrow>
             if a = HCloseStep \<and> hc_closer (snd (hs_objs s ! k)) = C_Ws
             then Some ((ws_done (fst (hs_objs s ! k)) (set_obj k c s))\<lparr>hs_removing := hs_removing s @ [k]\<rparr>)
             else Some (set_obj k c s))
      else None)"

datatype hs_act = VEvent "(nat \<times> string) option" Buffer | VRun | VObj nat hl_act | VRemove nat | VDelete nat
  | VWsDone nat | VShutdown | VShutClose

fun hs_step :: "(string \<Rightarrow> string \<Rightarrow> string list option) \<Rightarrow> heap \<Rightarrow> hs_act \<Rightarrow> 'h hl_server \<Rightarrow> 'h hl_server option" where
  "hs_step engine h (VEvent wsConn buf) s = (case hs_loop s of E_Idle \<Rightarrow> Some (handle_event engine wsConn buf s) | _ \<Rightarrow> None)"
| "hs_step engine h VRun s = run_handler s"
| "hs_step engine h (VObj k a) s = obj_step h k a s"
| "hs_step engine h (VRemove k) s = callback_remove k s"
| "hs_step engine h (VDelete k) s = callback_delete k s"
| "hs_step engine h (VWsDone ws) s = Some (ws_done ws s)"
| "hs_step engine h VShutdown s = Some (hl_Shutdown s)"
| "hs_step engine h VShutClose s = shutdown_close s"

fun hs_run :: "(string \<Rightarrow> string \<Rightarrow> string list option) \<Rightarrow> heap \<Rightarrow> hs_act list \<Rightarrow> 'h hl_server \<Rightarrow> 'h hl_server option" where
  "hs_run engine h [] s = Some s"
| "hs_run engine h (a # as) s = (case hs_step engine h a s of None \<Rightarrow> None | Some s' \<Rightarrow> hs_run engine h as s')"

section \<open>Lemmas on tracking\<close>

text \<open>
  The tracking tables over \<open>n\<close> wrappers, wrapper \<open>k\<close> belonging to connection \<open>ws k\<close> and \<open>dn k\<close>
  saying that its Close has closed the connection: a wrapper is tracked until the first part of
  its callback, and is the one of its connection in the store until the second.
\<close>

definition tracking ::
  "nat \<Rightarrow> (nat \<Rightarrow> nat) \<Rightarrow> (nat \<Rightarrow> bool) \<Rightarrow> nat list \<Rightarrow> (nat \<rightharpoonup> nat) \<Rightarrow> nat list \<Rightarrow> nat list \<Rightarrow> bool" where
  "tracking n ws dn conns store rem del \<longleftrightarrow>
     distinct conns \<and> (\<forall>k. k \<in> set conns \<longleftrightarrow> k < n \<and> (\<not> dn k \<or> k \<in> set rem)) \<and>
     (\<forall>k\<in>set rem. k < n \<and> dn k) \<and> (\<forall>k\<in>set del. k < n \<and> dn k \<and> k \<notin> set rem) \<and>
     (\<forall>v k. store v = Some k \<longleftrightarrow> k < n \<and> ws k = v \<and> (\<not> dn k \<or> k \<in> set rem \<or> k \<in> set del))"

lemma tracking_cong:
  assumes "tracking n ws dn conns store rem del" and "\<And>k. k < n \<Longrightarrow> ws' k = ws k \<and> dn' k = dn k"
  shows "tracking n ws' dn' conns store rem del"
  using assms unfolding tracking_def by (safe; metis)

lemma tracking_new:
  assumes t: "tracking n ws dn conns store rem del" and "store v = None" "ws n = v" "\<not> dn n"
  shows "tracking (Suc n) ws dn (List.insert n conns) (store(v \<mapsto> n)) rem del"
proof -
  have "n \<notin> set rem" "n \<notin> set del" "n \<notin> set conns" using t by (auto simp: tracking_def)
  moreover have "\<not> (k < n \<and> ws k = v \<and> (\<not> dn k \<or> k \<in> set rem \<or> k \<in> set del))" for k
    using t assms(2) unfolding tracking_def by (metis option.distinct(1))
  ultimately show ?thesis using t assms(3,4) unfolding tracking_def by (auto simp: less_Suc_eq)
qed

lemma tracking_close:
  assumes t: "tracking n ws dn conns store rem del" and k: "k < n" "\<not> dn k"
  shows "tracking n ws (dn(k := True)) conns store (rem @ [k]) del"
proof -
  have "k \<notin> set rem" "k \<notin> set del" using t k by (auto simp: tracking_def)
  moreover from this have "(\<not> (dn(k := True)) j \<or> j \<in> set (rem @ [k])) = (\<not> dn j \<or> j \<in> set rem)" for j using k by auto
  ultimately show ?thesis using t k unfolding tracking_def by (auto simp del: fun_upd_apply) (auto split: if_splits)
qed

lemma tracking_remove:
  assumes t: "tracking n ws dn conns store rem del" and k: "k \<in> set rem"
  shows "tracking n ws dn (removeAll k conns) store (removeAll k rem) (del @ [k])"
  using assms unfolding tracking_def by (auto simp: distinct_removeAll)

lemma tracking_delete:
  assumes t: "tracking n ws dn conns store rem del" and k: "k \<in> set del"
  shows "tracking n ws dn conns (store(ws k := None)) rem (removeAll k del)"
proof -
  have "k < n \<and> dn k \<and> k \<notin> set rem" "store (ws k) = Some k" using t k by (auto simp: tracking_def)
  moreover have "j = k" if "j < n" "ws j = ws k" "\<not> dn j \<or> j \<in> set rem \<or> j \<in> set del" for j
    using that t calculation(2) unfolding tracking_def by (metis option.inject)
  ultimately show ?thesis using t unfolding tracking_def by (auto split: if_splits)
qed

definition ws_of :: "'h hl_server \<Rightarrow> nat \<Rightarrow> nat" where
  "ws_of s k = fst (hs_objs s ! k)"

definition obj :: "'h hl_server \<Rightarrow> nat \<Rightarrow> hconn" where
  "obj s k = snd (hs_objs s ! k)"

definition hs_inv :: "'h hl_server \<Rightarrow> bool" where
  "hs_inv s \<longleftrightarrow>
     tracking (length (hs_objs s)) (ws_of s) (\<lambda>k. hc_closer (obj s k) = C_Done)
       (hs_connections s) (hs_connStore s) (hs_removing s) (hs_deleting s) \<and>
     (\<forall>k\<in>set (hs_toClose s). k < length (hs_objs s)) \<and>
     (\<forall>k h. hs_loop s = E_Run k h \<longrightarrow> k < length (hs_objs s)) \<and>
     distinct (map fst (hs_started s)) \<and>
     (\<forall>k\<in>set (map fst (hs_started s)). k < length (hs_objs s) \<and> hc_handlerOnce (obj s k)) \<and>
     mset (hs_events s) = mset (hs_released s) + mset (concat (map (g_enq \<circ> snd) (hs_objs s)))"

text \<open>Wrappers that changed in nothing the invariant reads.\<close>

definition alike :: "(nat \<times> hconn) list \<Rightarrow> (nat \<times> hconn) list \<Rightarrow> bool" where
  "alike os os' \<longleftrightarrow>
     list_all2 (\<lambda>(v, c) (v', c'). v' = v \<and> (hc_closer c' = C_Done \<longleftrightarrow> hc_closer c = C_Done) \<and>
        (hc_handlerOnce c \<longrightarrow> hc_handlerOnce c') \<and> g_enq c' = g_enq c) os os'"

lemma alike_facts:
  assumes "alike os os'"
  shows "length os' = length os" "map (g_enq \<circ> snd) os' = map (g_enq \<circ> snd) os"
    "k < length os \<Longrightarrow> fst (os' ! k) = fst (os ! k) \<and> (hc_closer (snd (os' ! k)) = C_Done \<longleftrightarrow> hc_closer (snd (os ! k)) = C_Done) \<and>
       (hc_handlerOnce (snd (os ! k)) \<longrightarrow> hc_handlerOnce (snd (os' ! k)))"
  using assms unfolding alike_def
  by (auto simp: list_all2_conv_all_nth split_beta intro!: nth_equalityI)

lemma alike_update:
  assumes "k < length os" "hc_closer c = C_Done \<longleftrightarrow> hc_closer (snd (os ! k)) = C_Done"
    "hc_handlerOnce (snd (os ! k)) \<longrightarrow> hc_handlerOnce c" "g_enq c = g_enq (snd (os ! k))"
  shows "alike os (os[k := (fst (os ! k), c)])"
  using assms by (auto simp: alike_def list_all2_conv_all_nth nth_list_update split_beta)

lemma alike_done: "alike (hs_objs s) (hs_objs (ws_done ws s))"
  by (auto simp: alike_def ws_done_def list_all2_conv_all_nth split_beta)

lemma hs_inv_alike:
  assumes inv: "hs_inv s" and al: "alike (hs_objs s) (hs_objs s')"
    and eqs: "hs_connections s' = hs_connections s" "hs_connStore s' = hs_connStore s" "hs_removing s' = hs_removing s"
      "hs_deleting s' = hs_deleting s" "hs_started s' = hs_started s" "hs_events s' = hs_events s" "hs_released s' = hs_released s"
    and sub: "set (hs_toClose s') \<subseteq> set (hs_toClose s) \<union> set (hs_connections s)" "hs_loop s' = hs_loop s \<or> hs_loop s' = E_Idle"
  shows "hs_inv s'"
proof -
  note f = alike_facts [OF al]
  let ?n = "length (hs_objs s)"
  have t: "tracking ?n (ws_of s) (\<lambda>k. hc_closer (obj s k) = C_Done) (hs_connections s) (hs_connStore s) (hs_removing s) (hs_deleting s)"
    using inv by (simp add: hs_inv_def)
  have "tracking ?n (ws_of s') (\<lambda>k. hc_closer (obj s' k) = C_Done) (hs_connections s) (hs_connStore s) (hs_removing s) (hs_deleting s)"
    by (rule tracking_cong [OF t]) (use f(3) in \<open>simp add: ws_of_def obj_def\<close>)
  moreover have "set (hs_connections s) \<subseteq> {..<?n}" using t by (auto simp: tracking_def)
  then have "\<forall>k\<in>set (hs_toClose s'). k < ?n" using inv sub(1) by (auto simp: hs_inv_def)
  moreover have "\<forall>k\<in>set (map fst (hs_started s)). k < ?n \<and> hc_handlerOnce (obj s' k)"
    using inv f(3) by (auto simp: hs_inv_def obj_def)
  ultimately show ?thesis using inv eqs sub(2) f(1,2) by (auto simp: hs_inv_def)
qed

lemma worker_step_frame:
  "worker_step d pc c = Some c' \<Longrightarrow> g_enq c' = g_enq c \<and> hc_handlerOnce c' = hc_handlerOnce c \<and> hc_closer c' = hc_closer c"
  by (cases pc) (auto simp: hc_release_def split: if_splits option.splits list.splits)

lemma readBuffer_frame:
  "readBuffer ch c = Some (r, c') \<Longrightarrow> g_enq c' = g_enq c \<and> hc_handlerOnce c' = hc_handlerOnce c \<and> hc_closer c' = hc_closer c"
  by (auto simp: readBuffer_def readBufferFromIncoming_def Let_def split: if_splits read_choice.splits option.splits list.splits)

lemma close_step_frame:
  "close_step pc c = Some c' \<Longrightarrow> g_enq c' = g_enq c \<and> hc_handlerOnce c' = hc_handlerOnce c \<and>
     hc_closer c' = (if pc = C_Ws then C_Done else hc_closer c') \<and>
     (pc = hc_closer c \<longrightarrow> pc \<noteq> C_Ws \<longrightarrow> hc_closer c' \<noteq> C_Done \<and> hc_closer c \<noteq> C_Done)"
  by (cases pc) (auto simp: hc_release_def split: if_splits option.splits list.splits)

lemma own_step_frame:
  assumes "own_act a" and "hl_step h a c = Some c'"
  shows "g_enq c' = g_enq c" "hc_handlerOnce c' = hc_handlerOnce c"
    "\<not> (a = HCloseStep \<and> hc_closer c = C_Ws) \<Longrightarrow> hc_closer c' = C_Done \<longleftrightarrow> hc_closer c = C_Done"
    "a = HCloseStep \<Longrightarrow> hc_closer c = C_Ws \<Longrightarrow> hc_closer c' = C_Done"
  using assms
  by (cases a; force simp: enq_put_def enq_done_def hc_release_def hl_Close_def ReadMessage_def Let_def SetReadLimit_def SetReadDeadline_def
      split: option.splits if_splits prod.splits outcome.splits
      dest: worker_step_frame readBuffer_frame close_step_frame)+

lemma hs_inv_obj:
  assumes inv: "hs_inv s" and st: "obj_step h k a s = Some s'"
  shows "hs_inv s'"
proof -
  obtain c where k: "k < length (hs_objs s)" and a: "own_act a" and c: "hl_step h a (obj s k) = Some c"
    and s': "s' = (if a = HCloseStep \<and> hc_closer (obj s k) = C_Ws
       then (ws_done (ws_of s k) (set_obj k c s))\<lparr>hs_removing := hs_removing s @ [k]\<rparr> else set_obj k c s)"
    using st by (auto simp: obj_step_def obj_def ws_of_def split: if_splits option.splits)
  note f = own_step_frame [OF a c]
  show ?thesis
  proof (cases "a = HCloseStep \<and> hc_closer (obj s k) = C_Ws")
    case False
    then have s1: "s' = set_obj k c s" using s' by (simp only: if_False)
    have "alike (hs_objs s) (hs_objs s')" using f(1,2) f(3) [OF False] k alike_update [of k "hs_objs s" c] s1
      by (simp add: set_obj_def obj_def)
    then show ?thesis by (rule hs_inv_alike [OF inv]) (use s1 in \<open>simp_all add: set_obj_def\<close>)
  next
    case True
    let ?s = "set_obj k c s"
    note d = alike_facts [OF alike_done [of ?s "ws_of s k"]]
    have len: "length (hs_objs ?s) = length (hs_objs s)" by (simp add: set_obj_def)
    have objs: "ws_of ?s j = ws_of s j" "obj ?s j = (if j = k then c else obj s j)" if "j < length (hs_objs s)" for j
      using that k by (simp_all add: set_obj_def ws_of_def obj_def nth_list_update)
    have s1: "s' = (ws_done (ws_of s k) ?s)\<lparr>hs_removing := hs_removing s @ [k]\<rparr>" using s' True by simp
    have t: "tracking (length (hs_objs s)) (ws_of s) ((\<lambda>j. hc_closer (obj s j) = C_Done)(k := True))
        (hs_connections s) (hs_connStore s) (hs_removing s @ [k]) (hs_deleting s)"
      using tracking_close [OF _ k] inv True by (simp add: hs_inv_def)
    have "ws_of s' j = ws_of ?s j \<and> (hc_closer (obj s' j) = C_Done \<longleftrightarrow> hc_closer (obj ?s j) = C_Done) \<and>
        (hc_handlerOnce (obj ?s j) \<longrightarrow> hc_handlerOnce (obj s' j))" if "j < length (hs_objs s)" for j
      using d(3) [of j] len that s1 by (simp add: ws_of_def obj_def)
    then have pt: "ws_of s' j = ws_of s j \<and> (hc_closer (obj s' j) = C_Done \<longleftrightarrow> j = k \<or> hc_closer (obj s j) = C_Done) \<and>
        (hc_handlerOnce (obj s j) \<longrightarrow> hc_handlerOnce (obj s' j))" if "j < length (hs_objs s)" for j
      using that objs f(2,4) True by auto
    have "tracking (length (hs_objs s)) (ws_of s') (\<lambda>j. hc_closer (obj s' j) = C_Done)
        (hs_connections s) (hs_connStore s) (hs_removing s @ [k]) (hs_deleting s)"
      by (rule tracking_cong [OF t]) (use pt in simp)
    moreover have "map (g_enq \<circ> snd) (hs_objs ?s) = map (g_enq \<circ> snd) (hs_objs s)"
      using objs f(1) len by (intro nth_equalityI) (auto simp: obj_def)
    moreover have "\<forall>j\<in>set (map fst (hs_started s)). j < length (hs_objs s) \<and> hc_handlerOnce (obj s' j)"
      using inv pt by (simp add: hs_inv_def)
    ultimately show ?thesis using inv s1 d(1,2) len by (auto simp: hs_inv_def ws_done_def set_obj_def)
  qed
qed

lemma enqueueIncoming_frame:
  "g_enq (enqueueIncoming c buf) = g_enq c @ [buf]" "hc_handlerOnce (enqueueIncoming c buf) = hc_handlerOnce c"
  "hc_closer (enqueueIncoming c buf) = hc_closer c"
  by (auto simp: enqueueIncoming_def startOverflowWorker_def hc_release_def Let_def split: option.splits)

text \<open>After \<^verbatim>\<open>getOrCreateConn\<close> the wrapper is the one in the store.\<close>

lemma getOrCreateConn_inv:
  assumes inv: "hs_inv s" and idle: "hs_loop s = E_Idle" and g: "getOrCreateConn ws params s = (k, s')"
  shows "hs_inv s' \<and> k < length (hs_objs s') \<and> hs_connStore s' ws = Some k \<and> hs_loop s' = E_Idle \<and> hs_routes s' = hs_routes s"
proof (cases "hs_connStore s ws")
  case (Some j)
  then have "k = j" "s' = s" using g by (simp_all add: getOrCreateConn_def)
  moreover have "j < length (hs_objs s)" using inv Some by (auto simp: hs_inv_def tracking_def)
  ultimately show ?thesis using inv Some idle by simp
next
  case None
  let ?n = "length (hs_objs s)"
  define c where "c = (newConnWithParams params)\<lparr>hc_done := (ws \<in> set (hs_wsDone s))\<rparr>"
  have s': "k = ?n" "hs_objs s' = hs_objs s @ [(ws, c)]" "hs_connections s' = List.insert ?n (hs_connections s)"
    "hs_connStore s' = (hs_connStore s)(ws \<mapsto> ?n)"
    and same: "hs_removing s' = hs_removing s" "hs_deleting s' = hs_deleting s" "hs_loop s' = hs_loop s" "hs_toClose s' = hs_toClose s"
      "hs_started s' = hs_started s" "hs_released s' = hs_released s" "hs_events s' = hs_events s" "hs_routes s' = hs_routes s"
    using g None by (auto simp: getOrCreateConn_def addConnection_def c_def Let_def)
  have c: "hc_closer c = C_None" "g_enq c = []" by (simp_all add: c_def newConnWithParams_def)
  have old: "ws_of s' j = ws_of s j" "obj s' j = obj s j" if "j < ?n" for j
    using that s'(2) by (simp_all add: ws_of_def obj_def nth_append)
  have new: "ws_of s' ?n = ws" "obj s' ?n = c" using s'(2) by (simp_all add: ws_of_def obj_def)
  have "tracking ?n (ws_of s') (\<lambda>j. hc_closer (obj s' j) = C_Done) (hs_connections s) (hs_connStore s) (hs_removing s) (hs_deleting s)"
    by (rule tracking_cong [of ?n "ws_of s" "\<lambda>j. hc_closer (obj s j) = C_Done"]) (use inv old in \<open>simp_all add: hs_inv_def\<close>)
  from tracking_new [OF this None new(1)] new(2) c(1) have
    "tracking (Suc ?n) (ws_of s') (\<lambda>j. hc_closer (obj s' j) = C_Done) (hs_connections s') (hs_connStore s') (hs_removing s) (hs_deleting s)"
    using s'(3,4) by simp
  then have "hs_inv s'" using inv s'(2) same idle old c(2) by (auto simp: hs_inv_def less_Suc_eq)
  then show ?thesis using s' same idle by simp
qed

lemma mset_concat_enq:
  "k < length os \<Longrightarrow> g_enq c = g_enq (snd (os ! k)) @ [b] \<Longrightarrow>
     mset (concat (map (g_enq \<circ> snd) (os[k := (v, c)]))) = add_mset b (mset (concat (map (g_enq \<circ> snd) os)))"
proof (induction os arbitrary: k)
  case (Cons o0 os)
  then show ?case by (cases k) (auto simp: ac_simps)
qed simp

lemma hs_inv_released: "hs_inv s \<Longrightarrow> hs_inv (s\<lparr>hs_events := hs_events s @ [b], hs_released := hs_released s @ [b]\<rparr>)"
  by (simp add: hs_inv_def ws_of_def [abs_def] obj_def [abs_def])

lemma ws_done_fields [simp]: "hs_events (ws_done ws s) = hs_events s" "hs_released (ws_done ws s) = hs_released s"
  by (simp_all add: ws_done_def)

lemma hs_inv_event:
  assumes inv: "hs_inv s" and idle: "hs_loop s = E_Idle"
  shows "hs_inv (handle_event engine wsConn buf s)"
proof (cases "Data buf = None \<or> wsConn = None")
  case True
  then show ?thesis using inv
    by (cases "Data buf") (simp_all add: handle_event_def hs_inv_def ws_of_def [abs_def] obj_def [abs_def])
next
  case False
  then obtain ws path where d: "Data buf \<noteq> None" "wsConn = Some (ws, path)" by auto
  show ?thesis
  proof (cases "fst (findHandler engine (hs_routes s) path GET)")
    case None
    then have e: "handle_event engine wsConn buf s =
        (ws_done ws s)\<lparr>hs_events := hs_events s @ [buf], hs_released := hs_released s @ [buf]\<rparr>"
      using d by (auto simp: handle_event_def ws_done_def Let_def split: prod.splits)
    have "hs_inv (ws_done ws s)" by (rule hs_inv_alike [OF inv alike_done]) (simp_all add: ws_done_def)
    from hs_inv_released [OF this, of buf] show ?thesis unfolding e by simp
  next
    case (Some rh)
    then obtain params where fh: "findHandler engine (hs_routes s) path GET = (Some rh, params)"
      by (cases "findHandler engine (hs_routes s) path GET") auto
    obtain k s1 where g: "getOrCreateConn ws params s = (k, s1)" by (cases "getOrCreateConn ws params s")
    note i = getOrCreateConn_inv [OF inv idle g]
    let ?c = "enqueueIncoming (obj s1 k) buf"
    let ?os = "(hs_objs s1)[k := (ws_of s1 k, ?c)]"
    have g': "getOrCreateConn ws params (s\<lparr>hs_events := hs_events s @ [buf]\<rparr>) = (k, s1\<lparr>hs_events := hs_events s @ [buf]\<rparr>)"
      and ev: "hs_events s1 = hs_events s"
      using g by (auto simp: getOrCreateConn_def addConnection_def Let_def split: option.splits)
    define t where "t = handle_event engine wsConn buf s"
    have t: "t = s1\<lparr>hs_events := hs_events s1 @ [buf], hs_objs := ?os,
        hs_loop := E_Run k (applyMiddleware (hs_routes s1) (rh_Handler rh))\<rparr>"
      using d fh g' ev by (auto simp: t_def handle_event_def obj_def ws_of_def)
    have same: "ws_of t j = ws_of s1 j" "hc_closer (obj t j) = hc_closer (obj s1 j)"
      "hc_handlerOnce (obj t j) = hc_handlerOnce (obj s1 j)" if "j < length (hs_objs s1)" for j
      using that t i enqueueIncoming_frame [of "obj s1 k" buf] by (auto simp: ws_of_def obj_def nth_list_update)
    have "tracking (length (hs_objs s1)) (ws_of t) (\<lambda>j. hc_closer (obj t j) = C_Done)
        (hs_connections s1) (hs_connStore s1) (hs_removing s1) (hs_deleting s1)"
      by (rule tracking_cong [of _ "ws_of s1" "\<lambda>j. hc_closer (obj s1 j) = C_Done"]) (use i same in \<open>simp_all add: hs_inv_def\<close>)
    moreover have "mset (concat (map (g_enq \<circ> snd) ?os)) = add_mset buf (mset (concat (map (g_enq \<circ> snd) (hs_objs s1))))"
      using mset_concat_enq i enqueueIncoming_frame(1) by (metis obj_def)
    ultimately have "hs_inv t" using i same t by (auto simp: hs_inv_def)
    then show ?thesis by (simp add: t_def)
  qed
qed

lemma hs_inv_run_handler:
  assumes inv: "hs_inv s" and st: "run_handler s = Some s'"
  shows "hs_inv s'"
proof -
  obtain k h where l: "hs_loop s = E_Run k h" using st by (cases "hs_loop s") (auto simp: run_handler_def)
  then have k: "k < length (hs_objs s)" using inv by (auto simp: hs_inv_def)
  let ?c = "(obj s k)\<lparr>hc_handlerOnce := True\<rparr>"
  let ?t = "(set_obj k ?c s)\<lparr>hs_loop := E_Idle\<rparr>"
  have s': "s' = ?t \<or> s' = ?t\<lparr>hs_started := hs_started s @ [(k, h)]\<rparr> \<and> \<not> hc_handlerOnce (obj s k)"
  proof (cases "hc_handlerOnce (obj s k)")
    case True
    then have c: "?c = obj s k" by (cases "obj s k") simp
    have "?t = s\<lparr>hs_loop := E_Idle\<rparr>" unfolding set_obj_def c by (simp add: obj_def)
    moreover have "s' = s\<lparr>hs_loop := E_Idle\<rparr>" using st l True
      by (auto simp: run_handler_def runHandlerOnce_def obj_def split: if_splits)
    ultimately show ?thesis by simp
  next
    case False
    then show ?thesis using st l by (auto simp: run_handler_def runHandlerOnce_def obj_def set_obj_def split: if_splits)
  qed
  have "alike (hs_objs s) (hs_objs ?t)" using alike_update [OF k, of ?c] by (simp add: set_obj_def obj_def)
  then have t: "hs_inv ?t" by (rule hs_inv_alike [OF inv]) (simp_all add: set_obj_def)
  moreover have "hs_inv (?t\<lparr>hs_started := hs_started s @ [(k, h)]\<rparr>)" if "\<not> hc_handlerOnce (obj s k)"
  proof -
    have "k \<notin> set (map fst (hs_started s))" using inv that by (auto simp: hs_inv_def)
    moreover have "hc_handlerOnce (obj ?t k)" using k by (simp add: obj_def set_obj_def)
    ultimately show ?thesis using t k by (simp add: hs_inv_def ws_of_def [abs_def] obj_def [abs_def] set_obj_def)
  qed
  ultimately show ?thesis using s' by auto
qed

lemma hs_inv_step:
  assumes inv: "hs_inv s" and st: "hs_step engine h a s = Some s'"
  shows "hs_inv s'"
proof (cases a)
  case (VEvent wsConn buf)
  then show ?thesis using st hs_inv_event [OF inv] by (auto split: ev_pc.splits)
next
  case VRun
  then show ?thesis using st hs_inv_run_handler [OF inv] by simp
next
  case (VObj k b)
  then show ?thesis using st hs_inv_obj [OF inv] by simp
next
  case (VRemove k)
  then have k: "k \<in> set (hs_removing s)" and s': "s' = (removeConnection k s)\<lparr>hs_removing := removeAll k (hs_removing s), hs_deleting := hs_deleting s @ [k]\<rparr>"
    using st by (auto simp: callback_remove_def split: if_splits)
  then show ?thesis using inv tracking_remove [OF _ k] by (simp add: hs_inv_def removeConnection_def ws_of_def [abs_def] obj_def [abs_def])
next
  case (VDelete k)
  then have k: "k \<in> set (hs_deleting s)" and s': "s' = s\<lparr>hs_connStore := (hs_connStore s)(ws_of s k := None), hs_deleting := removeAll k (hs_deleting s)\<rparr>"
    using st by (auto simp: callback_delete_def ws_of_def split: if_splits)
  then show ?thesis using inv tracking_delete [OF _ k, of _ "ws_of s"] by (simp add: hs_inv_def ws_of_def [abs_def] obj_def [abs_def])
next
  case (VWsDone ws)
  then have "s' = ws_done ws s" using st by simp
  then show ?thesis by (simp, intro hs_inv_alike [OF inv alike_done]) (simp_all add: ws_done_def)
next
  case VShutdown
  then have s': "s' = hl_Shutdown s" using st by simp
  have "alike (hs_objs s) (hs_objs s')" by (auto simp: s' hl_Shutdown_def alike_def list_all2_conv_all_nth split_beta)
  then show ?thesis by (rule hs_inv_alike [OF inv]) (auto simp: s' hl_Shutdown_def)
next
  case VShutClose
  then obtain k ks where k: "hs_toClose s = k # ks" and s': "s' = (set_obj k (hl_Close (obj s k)) s)\<lparr>hs_toClose := ks\<rparr>"
    using st by (auto simp: shutdown_close_def obj_def split: list.splits)
  have "k < length (hs_objs s)" using inv k by (auto simp: hs_inv_def)
  then have "alike (hs_objs s) (hs_objs s')" using alike_update [of k "hs_objs s" "hl_Close (obj s k)"]
    by (auto simp: s' set_obj_def obj_def hl_Close_def)
  then show ?thesis by (rule hs_inv_alike [OF inv]) (auto simp: s' k set_obj_def)
qed

lemma hs_inv_run: "hs_run engine h as s = Some s' \<Longrightarrow> hs_inv s \<Longrightarrow> hs_inv s'"
  by (induction as arbitrary: s) (auto split: option.splits dest: hs_inv_step)

section \<open>Properties\<close>

text \<open>A server that is set up and has handled nothing.\<close>

definition hs_fresh :: "'h hl_server \<Rightarrow> bool" where
  "hs_fresh s \<longleftrightarrow> hs_objs s = [] \<and> hs_connections s = [] \<and> hs_connStore s = Map.empty \<and> hs_removing s = [] \<and>
     hs_deleting s = [] \<and> hs_loop s = E_Idle \<and> hs_toClose s = [] \<and> hs_started s = [] \<and> hs_released s = [] \<and> hs_events s = []"

lemma hs_inv_fresh: "hs_fresh s \<Longrightarrow> hs_inv s"
  by (simp add: hs_fresh_def hs_inv_def tracking_def)

lemma hs_fresh_new: "hs_fresh ((hl_NewServer numCPU addr)\<lparr>hs_routes := r\<rparr>)"
  by (simp add: hs_fresh_def hl_NewServer_def)


definition demo_server :: "nat hl_server" where
  "demo_server = (hl_NewServer 4 '':9000'')\<lparr>hs_routes := NewRoutes\<lparr>rt_handlers := [(''/'', \<lparr>rh_Handler = 5, rh_Methods = [GET]\<rparr>)]\<rparr>\<rparr>"

definition demo_events :: "hs_act list" where
  "demo_events = [VEvent (Some (1, ''/'')) (buf_at 0), VRun, VEvent (Some (2, ''/x'')) (buf_at 1), VObj 0 (HReadMsg TakeItem)]"

definition rerun_events :: "hs_act list" where
  "rerun_events = [VEvent (Some (1, ''/'')) (buf_at 0), VRun, VObj 0 (HReadMsg TakeItem), VObj 0 HClose, VObj 0 HCloseStep,
     VObj 0 HCloseStep, VRemove 0, VDelete 0, VEvent (Some (1, ''/'')) (buf_at 1), VRun]"

lemma demo_events_state:
  "map_option (\<lambda>s. (length (hs_objs s), hc_closer (snd (hs_objs s ! 0)), hs_events s, hs_released s, hl_GetActiveConnections s))
     (hs_run (\<lambda>_ _. None) [] demo_events demo_server) = Some (1, C_None, [buf_at 0, buf_at 1], [buf_at 1], 1)"
  by code_simp

lemma rerun_events_state:
  "map_option (\<lambda>s. (map fst (hs_objs s), hs_started s)) (hs_run (\<lambda>_ _. None) [] rerun_events demo_server) =
     Some ([1, 1], [(0, 5), (1, 5)])"
  by code_simp

lemma demo_server_fresh: "hs_fresh demo_server"
  unfolding demo_server_def by (rule hs_fresh_new)


text \<open>
  Fact (the handler runs again).  A message still in the reactor when its connection was
  closed makes a new wrapper for the closed connection, and the user's handler is started once
  more for it.
\<close>

theorem hl_handler_reruns:
  "\<exists>as s. hs_run (\<lambda>_ _. None) [] as demo_server = Some s \<and> map fst (hs_objs s) = [1, 1] \<and>
     hc_done (snd (hs_objs s ! 1)) \<and> hs_started s = [(0, 5), (1, 5)]"
proof -
  obtain s where s: "hs_run (\<lambda>_ _. None) [] rerun_events demo_server = Some s" "map fst (hs_objs s) = [1, 1]"
    "hs_started s = [(0, 5), (1, 5)]" using rerun_events_state by auto
  have "map_option (\<lambda>s. hc_done (snd (hs_objs s ! 1))) (hs_run (\<lambda>_ _. None) [] rerun_events demo_server) = Some True" by code_simp
  with s show ?thesis by (intro exI [of _ rerun_events] exI [of _ s]) simp
qed

end
