(* ===== verification/HLClient.thy ===== *)
theory HLClient
  imports HLConn LLClient
begin

text \<open>
  The high-level client: \<^verbatim>\<open>highlevel/client.go\<close> and the client side of \<^verbatim>\<open>highlevel/conn.go\<close>.  A wrapper
  without an inbound queue reads from the connection of a low-level client (theory \<open>LLClient\<close>) and
  writes through that client's batch.  Callers, the flushing goroutine and the closing of the
  wrapper are interleaved.  JSON coding is a parameter.
\<close>

section \<open>Dialling\<close>

record 't Options =
  op_IOBufferSize :: int
  op_NUMANode :: int
  op_TLSConfig :: "'t option"

definition DefaultOptions :: "'t Options" where
  "DefaultOptions = \<lparr>op_IOBufferSize = 64 * 1024, op_NUMANode = -1, op_TLSConfig = None\<rparr>"

definition dial_config :: "string \<Rightarrow> 't Options \<Rightarrow> ClientConfig" where
  "dial_config urlStr opts =
     \<lparr>cc_Addr = urlStr, cc_IOBufferSize = op_IOBufferSize opts, cc_BatchSize = 16, cc_NUMANode = op_NUMANode opts,
      cc_ReadTimeout = 5 * 1000000000, cc_WriteTimeout = 5 * 1000000000, cc_Heartbeat = 0\<rparr>"

text \<open>
  The wrapper with the client it writes through.  That the client's connection is closed, which
  also closes its socket, is the wrapper's \<open>hc_done\<close>.
\<close>

record hl_client =
  hk_conn :: hconn
  hk_client :: Client

definition DialWithOptions ::
  "nat \<Rightarrow> int \<Rightarrow> int \<Rightarrow> (string \<Rightarrow> (string \<times> string) outcome) \<Rightarrow> unit outcome \<Rightarrow> (string \<Rightarrow> unit outcome) \<Rightarrow>
     http_response outcome \<Rightarrow> bytes \<Rightarrow> string \<Rightarrow> pools \<Rightarrow> string \<Rightarrow> 't Options \<Rightarrow>
     (hl_client \<times> nat \<times> netTransport \<times> conn \<times> pools) outcome option" where
  "DialWithOptions alloc_max numaNodes currentNode parse dial sent resp net secKey w urlStr opts =
     (case NewClient alloc_max numaNodes currentNode parse dial sent resp net secKey w (Some (dial_config urlStr opts)) of
        Some (Err e) \<Rightarrow> Some (Err (ErrWrap ''client creation failed'' e))
      | r \<Rightarrow> bind_loop r (\<lambda>(client, tr, ws, w1).
          bind_loop (GetPool alloc_max numaNodes currentNode w1 (op_IOBufferSize opts) (op_NUMANode opts)) (\<lambda>(bp, w2).
            Some (Ok (\<lparr>hk_conn = newClientConn, hk_client = client\<rparr>, bp, tr, ws, w2)))))"

definition Dial ::
  "nat \<Rightarrow> int \<Rightarrow> int \<Rightarrow> (string \<Rightarrow> (string \<times> string) outcome) \<Rightarrow> unit outcome \<Rightarrow> (string \<Rightarrow> unit outcome) \<Rightarrow>
     http_response outcome \<Rightarrow> bytes \<Rightarrow> string \<Rightarrow> pools \<Rightarrow> string \<Rightarrow>
     (hl_client \<times> nat \<times> netTransport \<times> conn \<times> pools) outcome option" where
  "Dial alloc_max numaNodes currentNode parse dial sent resp net secKey w url =
     DialWithOptions alloc_max numaNodes currentNode parse dial sent resp net secKey w url (DefaultOptions :: unit Options)"

definition GetUnderlyingWSConnection :: "'ws option \<Rightarrow> 'ws \<Rightarrow> 'ws" where
  "GetUnderlyingWSConnection clientConn underlying = (case clientConn of Some ws \<Rightarrow> ws | None \<Rightarrow> underlying)"

section \<open>Reading\<close>

text \<open>\<open>recv\<close> is what \<^verbatim>\<open>RecvZeroCopy\<close> of the client's connection answers; only its first buffer is used.\<close>

definition recv_len :: "recv_buffer \<Rightarrow> nat" where
  "recv_len b = (case b of Aliased d \<Rightarrow> length d | Pooled b \<Rightarrow> data_len b)"

definition over_limit :: "hconn \<Rightarrow> recv_buffer \<Rightarrow> bool" where
  "over_limit c b \<longleftrightarrow> hc_readLimit c > 0 \<and> int (recv_len b) > hc_readLimit c"

definition hk_readBuffer :: "pools \<Rightarrow> hconn \<Rightarrow> recv_buffer list outcome \<Rightarrow> ((int \<times> recv_buffer) outcome \<times> pools) outcome option" where
  "hk_readBuffer w c recv =
     (if hc_closed c then Some (Ok (Err (ErrNew ''connection closed''), w))
      else case recv of
        Panic \<Rightarrow> Some Panic
      | Err e \<Rightarrow> Some (Ok (Err e, w))
      | Ok [] \<Rightarrow> Some (Ok (Err (ErrNew ''no message received''), w))
      | Ok (b # _) \<Rightarrow>
          if over_limit c b
          then bind_loop (recv_release w b) (\<lambda>w'. Some (Ok (Err (ErrNew ''message exceeds read limit''), w')))
          else Some (Ok (Ok (2, b), w)))"

definition hk_ReadMessage :: "pools \<Rightarrow> hconn \<Rightarrow> recv_buffer list outcome \<Rightarrow> ((int \<times> bytes) outcome \<times> pools) outcome option" where
  "hk_ReadMessage w c recv =
     bind_loop (hk_readBuffer w c recv) (\<lambda>(r, w1).
       case r of
         Err e \<Rightarrow> Some (Ok (Err e, w1))
       | Panic \<Rightarrow> Some Panic
       | Ok (mt, b) \<Rightarrow>
           bind_loop (recv_release w1 b) (\<lambda>w2.
             Some (Ok (if over_limit c b then Err (ErrNew ''message exceeds read limit'')
                       else Ok (mt, recv_bytes (pl_heap w1) b), w2))))"

section \<open>Wrappers around messages\<close>

text \<open>\<open>r\<close> is the answer of \<^verbatim>\<open>ReadMessage\<close>, \<open>write\<close> the call of \<^verbatim>\<open>WriteMessage\<close>.\<close>

definition hl_ReadJSON :: "(bytes \<Rightarrow> 'v outcome) \<Rightarrow> (int \<times> bytes) outcome \<Rightarrow> 'v outcome" where
  "hl_ReadJSON unmarshal r = bind_outcome r (\<lambda>(mt, payload). unmarshal payload)"

definition hl_WriteJSON :: "('v \<Rightarrow> bytes outcome) \<Rightarrow> (int \<Rightarrow> bytes \<Rightarrow> 's \<Rightarrow> unit outcome \<times> 's) \<Rightarrow> 'v \<Rightarrow> 's \<Rightarrow> unit outcome \<times> 's" where
  "hl_WriteJSON marshal write v s =
     (case marshal v of Err e \<Rightarrow> (Err e, s) | Panic \<Rightarrow> (Panic, s) | Ok d \<Rightarrow> write 2 d s)"

definition hl_ReadString :: "(int \<times> bytes) outcome \<Rightarrow> string outcome" where
  "hl_ReadString r = bind_outcome r (\<lambda>(mt, payload). Ok (map (\<lambda>b. char_of (unat b)) payload))"

definition hl_WriteString :: "(int \<Rightarrow> bytes \<Rightarrow> 's \<Rightarrow> unit outcome \<times> 's) \<Rightarrow> string \<Rightarrow> 's \<Rightarrow> unit outcome \<times> 's" where
  "hl_WriteString write str s = write 1 (string_bytes str) s"

section \<open>Writing and closing\<close>

definition hk_WriteMessage :: "int \<Rightarrow> bytes \<Rightarrow> hl_client \<Rightarrow> unit outcome \<times> hl_client" where
  "hk_WriteMessage messageType data k =
     (if hc_closed (hk_conn k) then (Err (ErrNew ''connection closed''), k)
      else case WriteMessage_start messageType data (hk_client k) of (r, c) \<Rightarrow> (r, k\<lparr>hk_client := c\<rparr>))"

text \<open>With a timeout the low-level call runs in its own goroutine; \<open>late\<close>: it has not returned in time.\<close>

definition hk_writeMessage :: "bool \<Rightarrow> int \<Rightarrow> bytes \<Rightarrow> hl_client \<Rightarrow> unit outcome \<times> hl_client" where
  "hk_writeMessage late messageType data k =
     (case hk_WriteMessage messageType data k of
        (r, k') \<Rightarrow>
          (if \<not> hc_closed (hk_conn k) \<and> hc_writeTimeout (hk_conn k) > 0 \<and> late then Err (ErrNew ''write timeout'') else r, k'))"

text \<open>
  Steps of the client: a write (the rest of the call and the flushing goroutine are the low-level
  client's steps), closing the wrapper, and the connection ending by itself.  Once the connection
  is closed every write on its socket fails without writing anything.
\<close>

datatype hk_act = KWrite int bytes | KLow cl_act | KClose | KCloseStep | KWsDone

fun write_fails :: "cl_act \<Rightarrow> bool" where
  "write_fails (ACall i ans) = (ans = Some 0)"
| "write_fails (ALoop wk ans) = (ans = Some 0)"
| "write_fails _ = True"

definition hk_low :: "cl_act \<Rightarrow> hl_client \<Rightarrow> hl_client option" where
  "hk_low a k =
     (if hc_done (hk_conn k) \<and> \<not> write_fails a then None
      else map_option (\<lambda>c. k\<lparr>hk_client := c\<rparr>) (cl_step a (hk_client k)))"

fun hk_step :: "hk_act \<Rightarrow> hl_client \<Rightarrow> hl_client option" where
  "hk_step (KWrite mt data) k = Some (snd (hk_WriteMessage mt data k))"
| "hk_step (KLow a) k = hk_low a k"
| "hk_step KClose k = Some (k\<lparr>hk_conn := hl_Close (hk_conn k)\<rparr>)"
| "hk_step KCloseStep k = map_option (\<lambda>c. k\<lparr>hk_conn := c\<rparr>) (close_step (hc_closer (hk_conn k)) (hk_conn k))"
| "hk_step KWsDone k = Some (k\<lparr>hk_conn := (hk_conn k)\<lparr>hc_done := True\<rparr>\<rparr>)"

fun hk_run :: "hk_act list \<Rightarrow> hl_client \<Rightarrow> hl_client option" where
  "hk_run [] k = Some k"
| "hk_run (a # as) k = (case hk_step a k of None \<Rightarrow> None | Some k' \<Rightarrow> hk_run as k')"

section \<open>Lemmas\<close>

lemma hk_run_invariant:
  assumes "\<And>a k k'. a \<in> set as \<Longrightarrow> J k \<Longrightarrow> hk_step a k = Some k' \<Longrightarrow> J k'"
  shows "hk_run as k = Some k' \<Longrightarrow> J k \<Longrightarrow> J k'"
  using assms
proof (induction as arbitrary: k)
  case (Cons a as)
  then obtain k1 where k1: "hk_step a k = Some k1" "hk_run as k1 = Some k'" by (auto split: option.splits)
  have "J k1" using Cons.prems(2) Cons.prems(3) [of a k k1] k1(1) by simp
  then show ?case using Cons.IH [OF k1(2)] Cons.prems(3) by (meson list.set_intros(2))
qed simp

lemma hk_run_append: "hk_run (as @ bs) k = (case hk_run as k of None \<Rightarrow> None | Some k' \<Rightarrow> hk_run bs k')"
  by (induction as arbitrary: k) (auto split: option.split)

text \<open>Every step of the wrapper is none or one step of the low-level client.\<close>

lemma hk_step_client:
  assumes "hk_step a k = Some k'"
  shows "hk_client k' = hk_client k \<or>
    (\<exists>b. cl_step b (hk_client k) = Some (hk_client k') \<and> (hc_done (hk_conn k) \<longrightarrow> write_fails b) \<and> (b = ACancel \<longrightarrow> a = KLow ACancel))"
  using assms
proof (cases a)
  case (KWrite mt d)
  then show ?thesis using assms
  proof (cases "hc_closed (hk_conn k)")
    case False
    then have "cl_step (ASend mt d) (hk_client k) = Some (hk_client k')"
      using assms KWrite by (auto simp: hk_WriteMessage_def split: prod.splits)
    then show ?thesis by (metis cl_act.distinct(5) write_fails.simps(3))
  qed (auto simp: hk_WriteMessage_def)
next
  case (KLow b)
  then show ?thesis using assms by (intro disjI2 exI [of _ b]) (auto simp: hk_low_def split: if_splits)
qed auto

lemma hk_inv_step: "cl_inv (hk_client k) \<Longrightarrow> hk_step a k = Some k' \<Longrightarrow> cl_inv (hk_client k')"
  using hk_step_client cl_inv_step by metis

lemma close_step_done:
  "close_step pc c = Some c' \<Longrightarrow> (hc_closer c' = close_pc.C_Done \<longrightarrow> hc_done c' \<or> hc_closer c = close_pc.C_Done) \<and> (hc_done c \<longrightarrow> hc_done c')"
  by (cases pc) (auto simp: hc_release_def split: if_splits option.splits list.splits)

lemma hk_done_step:
  assumes "hk_step a k = Some k'"
  shows "(hc_closer (hk_conn k) = close_pc.C_Done \<longrightarrow> hc_done (hk_conn k)) \<Longrightarrow>
      hc_closer (hk_conn k') = close_pc.C_Done \<longrightarrow> hc_done (hk_conn k')"
    "hc_done (hk_conn k) \<Longrightarrow> hc_done (hk_conn k')"
  using assms close_step_done
  by (cases a; fastforce simp: hk_low_def hl_Close_def hk_WriteMessage_def split: if_splits prod.splits)+

text \<open>A step whose writes fail leaves the wire alone.\<close>

lemma flush_write_fails: "flush_write (Some 0) bs c = (rest, c') \<Longrightarrow> cl_wire c' = cl_wire c \<and> cl_written c' = cl_written c"
  by (cases bs) auto

lemma write_fails_wire:
  assumes "cl_step b c = Some c'" and "write_fails b"
  shows "cl_wire c' = cl_wire c \<and> cl_written c' = cl_written c"
  using assms flush_write_fails
  by (cases b) (fastforce simp: call_step_def sendLoop_step_def flush_swap_def ba_Swap_def signalFlush_def client_cancel_def
      client_closed_def WriteMessage_start_def split: call_pc.splits loop_pc.splits prod.splits if_splits wake.splits outcome.splits)+

lemma cancelled_step: "cl_step b c = Some c' \<Longrightarrow> b \<noteq> ACancel \<Longrightarrow> cl_cancelled c' = cl_cancelled c"
  using flush_write_held(5)
  by (cases b) (auto simp: call_step_def sendLoop_step_def flush_swap_def ba_Swap_def signalFlush_def
      client_closed_def WriteMessage_start_def split: call_pc.splits loop_pc.splits prod.splits if_splits wake.splits outcome.splits)

text \<open>
  Bytes written as a string and read as one are the same text.
\<close>

lemma string_round_trip: "hl_ReadString (Ok (mt, string_bytes s)) = Ok s"
proof -
  have "char_of (unat (of_char c :: byte)) = c" for c :: char
  proof -
    have "unat (of_char c :: byte) = unat (of_nat (of_char c) :: byte)" by (simp only: of_nat_of_char)
    also have "\<dots> = of_char c" unfolding unat_of_nat by (simp add: take_bit_eq_mod)
    finally have "unat (of_char c :: byte) = of_char c" .
    then show ?thesis by simp
  qed
  then show ?thesis by (simp add: hl_ReadString_def string_bytes_def comp_def)
qed

text \<open>A pool of a class that exists already is found again, whatever happened to buffers meanwhile.\<close>

lemma GetPool_again:
  assumes "GetPool alloc_max nodes cur w sz numa = Some (Ok (p, w))" and "pl_nodes w' = pl_nodes w"
  shows "GetPool alloc_max nodes cur w' sz numa = Some (Ok (p, w'))"
proof -
  let ?n = "NUMANodeAuto nodes cur numa" and ?c = "sizeClassUpperBound sz"
  have n: "0 \<le> ?n" "nat ?n < length (pl_nodes w)" and g: "getOrCreatePool alloc_max w (nat ?n) ?c = Some (Ok (p, w))"
    using assms(1) by (auto simp: GetPool_def Let_def split: if_splits)
  have "(pl_nodes w ! nat ?n) ?c = Some p"
  proof (cases "(pl_nodes w ! nat ?n) ?c")
    case None
    with g obtain npool where "w\<lparr>pl_slabs := pl_slabs w @ [npool],
        pl_nodes := (pl_nodes w)[nat ?n := (pl_nodes w ! nat ?n)(?c \<mapsto> length (pl_slabs w))]\<rparr> = w"
      by (auto simp: getOrCreatePool_def bind_loop_eq_Ok Let_def)
    from arg_cong [OF this, of "\<lambda>w. length (pl_slabs w)"] show ?thesis by simp
  qed (use g in \<open>simp add: getOrCreatePool_def\<close>)
  then show ?thesis using n assms(2) by (simp add: GetPool_def getOrCreatePool_def Let_def)
qed

lemma sizeClassUpperBound_pos: "0 < sizeClassUpperBound sz"
  by (simp add: sizeClassUpperBound_def sizeClasses_def)

section \<open>Properties\<close>

text \<open>
  Fact (dialling).  In a process that has made no pool yet, with a server that answers the request
  by 101, dialling returns: a client with an empty batch of 16, a started connection, and a
  receive buffer of the class of the I/O buffer size, all from one and the same pool, which is
  also the pool of the wrapper.
\<close>

theorem dial_fresh:
  assumes "NewBufferPoolManager nodes = Ok ns" and "1 \<le> nodes" and "4096 \<le> alloc_max"
    and "parse url = Ok (host, path)" and "sent (reqStr path host secKey) = Ok ()" and "DoClientHandshake resp = Ok ()"
  shows "\<exists>tr ws w. DialWithOptions alloc_max nodes cur parse (Ok ()) sent resp net secKey
      \<lparr>pl_heap = [], pl_slabs = [], pl_nodes = ns\<rparr> url opts =
      Some (Ok (\<lparr>hk_conn = newClientConn, hk_client = client_of 16 \<lparr>ba_buffers = [], ba_cap = 16\<rparr>\<rparr>, 0, tr, ws, w)) \<and>
    nt_pool tr = 0 \<and> bufPool ws = 0 \<and> loopRunning ws \<and> pool_ok w 0 [nt_rxBuf tr] \<and>
    int (data_len (nt_rxBuf tr)) = sizeClassUpperBound (op_IOBufferSize opts)"
proof -
  let ?w = "\<lparr>pl_heap = [], pl_slabs = [], pl_nodes = ns\<rparr>" and ?sz = "op_IOBufferSize opts" and ?numa = "op_NUMANode opts"
  let ?n = "nat (NUMANodeAuto nodes cur ?numa)" and ?c = "sizeClassUpperBound ?sz"
  define w1 where "w1 = \<lparr>pl_heap = [], pl_slabs = [empty_slab ?c], pl_nodes = ns[?n := (ns ! ?n)(?c \<mapsto> 0)]\<rparr>"
  have ns: "ns = replicate (nat nodes) Map.empty" using assms(1,2) by (simp add: NewBufferPoolManager_def)
  have n: "0 \<le> NUMANodeAuto nodes cur ?numa" "?n < length ns"
    using NUMANodeAuto_range [of nodes cur ?numa] assms(2) by (simp_all add: ns)
  have g1: "GetPool alloc_max nodes cur ?w ?sz ?numa = Some (Ok (0, w1))"
    using n newSlabPool_eq [OF assms(3), of ?c] by (simp add: GetPool_def getOrCreatePool_def Let_def w1_def ns)
  have g2: "GetPool alloc_max nodes cur w1 ?sz ?numa = Some (Ok (0, w1))"
    using n by (simp add: GetPool_def getOrCreatePool_def Let_def w1_def)
  have "pool_ok w1 0 []"
    using empty_slab_ok [of ?c] rb_fresh_inv [of 12] sizeClassUpperBound_pos [of ?sz]
    by (simp add: pool_ok_def w1_def client_ok_def empty_slab_def)
  from pool_Get_ok [OF this, of ?sz "- 1"] obtain b w2 where
    b: "pool_Get w1 0 ?sz (- 1) = Some (Ok (b, w2))" "pool_ok w2 0 [b]" "int (data_len b) = ?c" "pl_nodes w2 = pl_nodes w1"
    by (auto simp: w1_def empty_slab_def)
  have g3: "GetPool alloc_max nodes cur w2 ?sz ?numa = Some (Ok (0, w2))" by (rule GetPool_again [OF g2 b(4)])
  show ?thesis using assms(4-6) g1 g3 b
    by (simp add: DialWithOptions_def NewClient_def dial_config_def NewTransport_def NewWSConnection_def
        NewWSConnectionWithPath_def NewBatch_def Start_def new_conn_def WSConnection.defs)
qed

text \<open>
  Fact (a client read takes the first buffer).  On an open wrapper a message within the limit is
  returned with its bytes; further buffers of the same answer are dropped.
\<close>

theorem hk_read_first:
  assumes "\<not> hc_closed c" and "\<not> over_limit c (Aliased d)"
  shows "hk_ReadMessage w c (Ok (Aliased d # rest)) = Some (Ok (Ok (2, d), w))"
  using assms by (simp add: hk_ReadMessage_def hk_readBuffer_def recv_release_def recv_bytes_def)

text \<open>
  Fact (closing a client drops what is not written).  Close of the wrapper closes the
  client's connection and not the client: from then on, whatever happens, nothing more is written, so a message
  accepted and not yet on the wire never gets there; and unless the low-level client is closed on
  its own its flushing goroutine never ends.
\<close>

theorem hl_client_close_drops:
  assumes "NewBatch n = Ok b" and "hk_run as \<lparr>hk_conn = newClientConn, hk_client = client_of n b\<rparr> = Some k"
    and "hc_closer (hk_conn k) = close_pc.C_Done" and "hk_run bs k = Some k'" and "KLow ACancel \<notin> set (as @ bs)"
  shows "cl_wire (hk_client k') = cl_wire (hk_client k) \<and> cl_written (hk_client k') = cl_written (hk_client k) \<and>
    cl_loop (hk_client k') \<noteq> L_Gone \<and>
    mset (map (encode_frame True) (cl_accepted (hk_client k'))) = held_bufs (hk_client k')"
proof -
  let ?k0 = "\<lparr>hk_conn = newClientConn, hk_client = client_of n b\<rparr>"
  have run: "hk_run (as @ bs) ?k0 = Some k'" using assms(2,4) by (simp add: hk_run_append)
  have dn: "hc_done (hk_conn k)"
    using hk_run_invariant [of as "\<lambda>k. hc_closer (hk_conn k) = close_pc.C_Done \<longrightarrow> hc_done (hk_conn k)", OF _ assms(2)]
      hk_done_step(1) assms(3) by (simp add: newClientConn_def newConnWithParams_def)
  have "hc_done (hk_conn k') \<and> cl_wire (hk_client k') = cl_wire (hk_client k) \<and> cl_written (hk_client k') = cl_written (hk_client k)"
    by (rule hk_run_invariant [OF _ assms(4), of "\<lambda>d. hc_done (hk_conn d) \<and> cl_wire (hk_client d) = cl_wire (hk_client k) \<and>
        cl_written (hk_client d) = cl_written (hk_client k)"])
      (use hk_step_client hk_done_step(2) write_fails_wire dn in metis)+
  moreover have "\<not> cl_cancelled (hk_client k')"
    by (rule hk_run_invariant [OF _ run, of "\<lambda>d. \<not> cl_cancelled (hk_client d)"])
      (use assms(5) hk_step_client cancelled_step in \<open>metis\<close>, simp add: client_of_def)
  moreover have "cl_inv (hk_client k')"
    by (rule hk_run_invariant [OF _ run, of "\<lambda>d. cl_inv (hk_client d)"]) (use hk_inv_step cl_inv_new [OF assms(1)] in auto)
  ultimately show ?thesis by (auto simp: cl_inv_def)
qed

definition drop_acts :: "hk_act list" where
  "drop_acts = [KWrite 2 [7], KLow (ACall 0 None), KLow (ACall 0 None), KClose, KCloseStep, KCloseStep]"

definition drop_more :: "hk_act list" where
  "drop_more = [KLow (ALoop W_Flush (Some 0)), KLow (ALoop W_Tick (Some 0)), KLow (ALoop W_Tick (Some 0))]"

definition drop_client :: hl_client where
  "drop_client = the (hk_run drop_acts \<lparr>hk_conn = newClientConn, hk_client = client_of 4 demo_batch\<rparr>)"

definition drop_later :: hl_client where
  "drop_later = the (hk_run drop_more drop_client)"

lemma drop_runs:
  "hk_run drop_acts \<lparr>hk_conn = newClientConn, hk_client = client_of 4 demo_batch\<rparr> = Some drop_client"
  "hk_run drop_more drop_client = Some drop_later"
  "hc_closer (hk_conn drop_client) = close_pc.C_Done" "cl_wire (hk_client drop_client) = []"
  "cl_accepted (hk_client drop_later) = [client_frame 2 [7]]"
  by code_simp+

theorem hl_client_close_drops_witness:
  "cl_accepted (hk_client drop_later) = [client_frame 2 [7]] \<and> cl_wire (hk_client drop_later) = [] \<and>
   cl_loop (hk_client drop_later) \<noteq> L_Gone"
proof -
  have "KLow ACancel \<notin> set (drop_acts @ drop_more)" by (simp add: drop_acts_def drop_more_def)
  from hl_client_close_drops [OF demo_new drop_runs(1,3,2) this] drop_runs show ?thesis by simp
qed

end
